theory Spec2Isabelle
  imports Complex_Main "HOL-Library.Word" "HOL-Library.Signed_Division"
    "HOL-Library.While_Combinator"
begin

section \<open>Conventions of the embedding\<close>

text \<open>
  The embedding follows \<^verbatim>\<open>resampler.cpp\<close> function by function.

  \<^item> \<^verbatim>\<open>Resample_Real\<close> and \<^verbatim>\<open>Sample\<close> are modelled by \<^typ>\<open>real\<close>: every
    arithmetic operation is exact. Where IEEE arithmetic would leave the reals (a division
    by zero giving an infinity or a NaN) the model stops with the fault \<open>Non_Finite\<close>,
    except where the code's result can still be told (see \<open>make_row\<close>). The program rounds
    after every operation, so that a computed centre or filter argument can differ from the
    exact value in its last digits; the statements about the builder whose truth depends on
    such a value are made about \<open>make_row\<close>, the body of its second loop, for every
    argument function and every footprint.
  \<^item> A C \<^verbatim>\<open>int\<close> is modelled by \<^typ>\<open>int\<close>. The operation counts of the
    constructor are checked against the 32-bit range (fault \<open>Int_Overflow\<close>, since signed
    overflow is undefined behaviour); the contributor-list builder is modelled on
    unbounded integers.
  \<^item> The \<^verbatim>\<open>unsigned short\<close> field \<^verbatim>\<open>pixel\<close> is a \<^typ>\<open>16 word\<close>.
  \<^item> A pointer that may be null is an \<open>option\<close>; an array is a list.
  \<^item> A failed assertion, a read through a null pointer and an access outside an array
    are values of the type \<open>fault\<close>; a function that can meet one returns
    \<open>fault + 'a\<close>.
  \<^item> Whether an allocation succeeds is an input of the model.
\<close>

datatype fault =
    Assert_Failed
  | Null_Deref
  | Out_Of_Bounds
  | Int_Overflow
  | Non_Finite
  | No_Return

definition bnd :: "fault + 'a \<Rightarrow> ('a \<Rightarrow> fault + 'b) \<Rightarrow> fault + 'b" where
  "bnd m f = (case m of Inl e \<Rightarrow> Inl e | Inr v \<Rightarrow> f v)"

datatype boundary_op = BOUNDARY_WRAP | BOUNDARY_REFLECT | BOUNDARY_CLAMP

datatype status =
    STATUS_OKAY
  | STATUS_OUT_OF_MEMORY
  | STATUS_BAD_FILTER_NAME
  | STATUS_SCAN_BUFFER_FULL

record contrib =
  weight :: real
  pixel :: "16 word"

type_synonym contrib_list = "contrib list"

type_synonym filter_fn = "real \<Rightarrow> fault + real"

section \<open>Helpers of the source file\<close>

text \<open>\<^verbatim>\<open>(int)i\<close>: conversion with truncation towards zero.\<close>

definition cast_to_int :: "real \<Rightarrow> int" where
  "cast_to_int i = (if 0 \<le> i then \<lfloor>i\<rfloor> else \<lceil>i\<rceil>)"

text \<open>
  \<^verbatim>\<open>posmod\<close>. The C operator \<^verbatim>\<open>%\<close> truncates, which is \<open>smod\<close>; \<open>y\<close> is not zero
  at any call (\<open>make_clist\<close> stops before on a zero source length).
\<close>

definition posmod :: "int \<Rightarrow> int \<Rightarrow> int" where
  "posmod x y =
     (if x \<ge> 0 then x smod y
      else (let m = (- x) smod y in if m \<noteq> 0 then y - m else m))"

definition reflect :: "int \<Rightarrow> int \<Rightarrow> boundary_op \<Rightarrow> int" where
  "reflect j src_x boundary_op =
     (if j < 0 then
        (if boundary_op = BOUNDARY_REFLECT then
           (let n = - j in if n \<ge> src_x then src_x - 1 else n)
         else if boundary_op = BOUNDARY_WRAP then posmod j src_x
         else 0)
      else if j \<ge> src_x then
        (if boundary_op = BOUNDARY_REFLECT then
           (let n = (src_x - j) + (src_x - 1) in if n < 0 then 0 else n)
         else if boundary_op = BOUNDARY_WRAP then posmod j src_x
         else src_x - 1)
      else j)"

section \<open>Filter kernels\<close>

definition M_PI :: real where
  "M_PI = 314159265358979323846 / 100000000000000000000"

definition BOX_FILTER_SUPPORT :: real where "BOX_FILTER_SUPPORT = 0.5"

definition box_filter :: "real \<Rightarrow> real" where
  "box_filter t = (if t \<ge> - 0.5 \<and> t < 0.5 then 1 else 0)"

definition TENT_FILTER_SUPPORT :: real where "TENT_FILTER_SUPPORT = 1"

definition tent_filter :: "real \<Rightarrow> real" where
  "tent_filter t0 = (let t = (if t0 < 0 then - t0 else t0) in if t < 1 then 1 - t else 0)"

definition BELL_SUPPORT :: real where "BELL_SUPPORT = 1.5"

definition bell_filter :: "real \<Rightarrow> real" where
  "bell_filter t0 =
     (let t = (if t0 < 0 then - t0 else t0) in
      if t < 0.5 then 0.75 - t * t
      else if t < 1.5 then (let u = t - 1.5 in 0.5 * (u * u))
      else 0)"

definition B_SPLINE_SUPPORT :: real where "B_SPLINE_SUPPORT = 2"

definition B_spline_filter :: "real \<Rightarrow> real" where
  "B_spline_filter t0 =
     (let t = (if t0 < 0 then - t0 else t0) in
      if t < 1 then (let tt = t * t in (0.5 * tt * t) - tt + 2 / 3)
      else if t < 2 then (let u = 2 - t in (1 / 6) * (u * u * u))
      else 0)"

definition QUADRATIC_SUPPORT :: real where "QUADRATIC_SUPPORT = 1.5"

definition quadratic :: "real \<Rightarrow> real \<Rightarrow> real" where
  "quadratic t0 R =
     (let t = (if t0 < 0 then - t0 else t0) in
      if t < QUADRATIC_SUPPORT then
        (let tt = t * t in
         if t \<le> 0.5 then (- 2 * R) * tt + 0.5 * (R + 1)
         else (R * tt) + (- 2 * R - 0.5) * t + (3 / 4) * (R + 1))
      else 0)"

definition quadratic_interp_filter :: "real \<Rightarrow> real" where
  "quadratic_interp_filter t = quadratic t 1"

definition quadratic_approx_filter :: "real \<Rightarrow> real" where
  "quadratic_approx_filter t = quadratic t 0.5"

definition quadratic_mix_filter :: "real \<Rightarrow> real" where
  "quadratic_mix_filter t = quadratic t 0.8"

text \<open>\<^verbatim>\<open>mitchell\<close> squares its argument before it takes the absolute value.\<close>

definition mitchell :: "real \<Rightarrow> real \<Rightarrow> real \<Rightarrow> real" where
  "mitchell t0 B C =
     (let tt = t0 * t0; t = (if t0 < 0 then - t0 else t0) in
      if t < 1 then
        (((12 - 9 * B - 6 * C) * (t * tt))
          + ((- 18 + 12 * B + 6 * C) * tt)
          + (6 - 2 * B)) / 6
      else if t < 2 then
        (((- 1 * B - 6 * C) * (t * tt))
          + ((6 * B + 30 * C) * tt)
          + ((- 12 * B - 48 * C) * t)
          + (8 * B + 24 * C)) / 6
      else 0)"

definition MITCHELL_SUPPORT :: real where "MITCHELL_SUPPORT = 2"

definition mitchell_filter :: "real \<Rightarrow> real" where
  "mitchell_filter t = mitchell t (1 / 3) (1 / 3)"

definition CATMULL_ROM_SUPPORT :: real where "CATMULL_ROM_SUPPORT = 2"

definition catmull_rom_filter :: "real \<Rightarrow> real" where
  "catmull_rom_filter t = mitchell t 0 0.5"

text \<open>
  \<^verbatim>\<open>sinc\<close>: the quotient is taken only where \<open>x\<close> is at least a hundredth away from
  zero.
\<close>

definition sinc :: "real \<Rightarrow> real" where
  "sinc x0 =
     (let x = x0 * M_PI in
      if x < 0.01 \<and> x > - 0.01 then 1 + x * x * (- 1 / 6 + x * x * (1 / 120))
      else sin x / x)"

definition clean :: "real \<Rightarrow> real" where
  "clean t = (if \<bar>t\<bar> < 0.0000125 then 0 else t)"

definition blackman_exact_window :: "real \<Rightarrow> real" where
  "blackman_exact_window x =
     0.42659071 + 0.49656062 * cos (M_PI * x) + 0.07684867 * cos ((2 * M_PI) * x)"

definition BLACKMAN_SUPPORT :: real where "BLACKMAN_SUPPORT = 3"

definition blackman_filter :: "real \<Rightarrow> real" where
  "blackman_filter t0 =
     (let t = (if t0 < 0 then - t0 else t0) in
      if t < 3 then clean (sinc t * blackman_exact_window (t / 3)) else 0)"

definition GAUSSIAN_SUPPORT :: real where "GAUSSIAN_SUPPORT = 1.25"

definition gaussian_filter :: "real \<Rightarrow> real" where
  "gaussian_filter t0 =
     (let t = (if t0 < 0 then - t0 else t0) in
      if t < GAUSSIAN_SUPPORT then
        clean (exp (- 2 * t * t) * sqrt (2 / M_PI) * blackman_exact_window (t / GAUSSIAN_SUPPORT))
      else 0)"

text \<open>The four Lanczos kernels of the source differ in the constant only.\<close>

definition lanczos :: "real \<Rightarrow> real \<Rightarrow> real" where
  "lanczos N t0 =
     (let t = (if t0 < 0 then - t0 else t0) in
      if t < N then clean (sinc t * sinc (t / N)) else 0)"

definition LANCZOS3_SUPPORT :: real where "LANCZOS3_SUPPORT = 3"
definition lanczos3_filter :: "real \<Rightarrow> real" where "lanczos3_filter = lanczos 3"
definition LANCZOS4_SUPPORT :: real where "LANCZOS4_SUPPORT = 4"
definition lanczos4_filter :: "real \<Rightarrow> real" where "lanczos4_filter = lanczos 4"
definition LANCZOS6_SUPPORT :: real where "LANCZOS6_SUPPORT = 6"
definition lanczos6_filter :: "real \<Rightarrow> real" where "lanczos6_filter = lanczos 6"
definition LANCZOS12_SUPPORT :: real where "LANCZOS12_SUPPORT = 12"
definition lanczos12_filter :: "real \<Rightarrow> real" where "lanczos12_filter = lanczos 12"

text \<open>
  \<^verbatim>\<open>bessel0\<close> is a loop with no bound on its iterations (the source marks it with a
  FIXME). The loop state is \<open>(k, pow, ds, sum)\<close>; a loop that does not end is the value
  \<open>None\<close>.
\<close>

definition bessel0 :: "real \<Rightarrow> real option" where
  "bessel0 x =
     (let xh = 0.5 * x in
      map_option (\<lambda>(k, pow, ds, sum). sum)
        (while_option
           (\<lambda>(k, pow, ds, sum). ds > sum * (1 / 10 ^ 16))
           (\<lambda>(k :: int, pow :: real, ds :: real, sum :: real).
              (let k' = k + 1; pow' = pow * (xh / of_int k'); ds' = pow' * pow'
               in (k', pow', ds', sum + ds')))
           (0, 1, 1, 1)))"

definition kaiser :: "real \<Rightarrow> real \<Rightarrow> real \<Rightarrow> fault + real" where
  "kaiser alpha half_width x =
     (let ratio = x / half_width in
      case bessel0 (alpha * sqrt (1 - ratio * ratio)) of
        None \<Rightarrow> Inl No_Return
      | Some a \<Rightarrow>
          (case bessel0 alpha of
             None \<Rightarrow> Inl No_Return
           | Some b \<Rightarrow> if b = 0 then Inl Non_Finite else Inr (a / b)))"

definition KAISER_SUPPORT :: real where "KAISER_SUPPORT = 3"

definition kaiser_filter :: filter_fn where
  "kaiser_filter t0 =
     (let t = (if t0 < 0 then - t0 else t0) in
      if t < KAISER_SUPPORT then
        (let att = 40;
             alpha = exp (ln (0.58417 * (att - 20.96)) * 0.4) + 0.07886 * (att - 20.96)
         in bnd (kaiser alpha KAISER_SUPPORT t) (\<lambda>v. Inr (clean (sinc t * v))))
      else Inr 0)"

text \<open>The filter table: name, evaluator, support.\<close>

definition returns :: "(real \<Rightarrow> real) \<Rightarrow> filter_fn" where
  "returns f = (\<lambda>t. Inr (f t))"

definition g_filters :: "(string \<times> filter_fn \<times> real) list" where
  "g_filters =
     [(''box'', returns box_filter, BOX_FILTER_SUPPORT),
      (''tent'', returns tent_filter, TENT_FILTER_SUPPORT),
      (''bell'', returns bell_filter, BELL_SUPPORT),
      (''b-spline'', returns B_spline_filter, B_SPLINE_SUPPORT),
      (''mitchell'', returns mitchell_filter, MITCHELL_SUPPORT),
      (''lanczos3'', returns lanczos3_filter, LANCZOS3_SUPPORT),
      (''blackman'', returns blackman_filter, BLACKMAN_SUPPORT),
      (''lanczos4'', returns lanczos4_filter, LANCZOS4_SUPPORT),
      (''lanczos6'', returns lanczos6_filter, LANCZOS6_SUPPORT),
      (''lanczos12'', returns lanczos12_filter, LANCZOS12_SUPPORT),
      (''kaiser'', kaiser_filter, KAISER_SUPPORT),
      (''gaussian'', returns gaussian_filter, GAUSSIAN_SUPPORT),
      (''catmullrom'', returns catmull_rom_filter, CATMULL_ROM_SUPPORT),
      (''quadratic_interp'', returns quadratic_interp_filter, QUADRATIC_SUPPORT),
      (''quadratic_approx'', returns quadratic_approx_filter, QUADRATIC_SUPPORT),
      (''quadratic_mix'', returns quadratic_mix_filter, QUADRATIC_SUPPORT)]"

definition NUM_FILTERS :: nat where
  "NUM_FILTERS = length g_filters"

section \<open>The contributor-list builder\<close>

text \<open>
  The three allocations of \<^verbatim>\<open>make_clist\<close>. \<^verbatim>\<open>calloc\<close> with a negative count
  (converted to a size beyond the address space) fails; otherwise the environment decides.
\<close>

datatype mc_site = Site_contrib | Site_bounds | Site_cpool

definition calloc_ok :: "(mc_site \<Rightarrow> bool) \<Rightarrow> mc_site \<Rightarrow> int \<Rightarrow> bool" where
  "calloc_ok ok site n = (ok site \<and> 0 \<le> n)"

definition NUDGE :: real where "NUDGE = 0.5"

record contrib_bounds =
  center :: real
  left :: int
  right :: int

text \<open>The body of the first loop: the footprint of destination sample \<open>i\<close>.\<close>

definition bounds_of :: "real \<Rightarrow> real \<Rightarrow> real \<Rightarrow> int \<Rightarrow> contrib_bounds" where
  "bounds_of xscale half_width src_ofs i =
     (let c0 = (of_int i + NUDGE) / xscale;
          c1 = c0 - NUDGE;
          c = c1 + src_ofs
      in \<lparr> center = c,
           left = cast_to_int (of_int \<lfloor>c - half_width\<rfloor>),
           right = cast_to_int (of_int \<lceil>c + half_width\<rceil>) \<rparr>)"

text \<open>The first inner loop: \<^verbatim>\<open>total_weight += (*Pfilter)(...)\<close> for \<open>j\<close> from left to right.\<close>

fun sum_loop :: "filter_fn \<Rightarrow> (int \<Rightarrow> real) \<Rightarrow> int list \<Rightarrow> real \<Rightarrow> fault + real" where
  "sum_loop Pfilter arg [] total_weight = Inr total_weight"
| "sum_loop Pfilter arg (j # js) total_weight =
     bnd (Pfilter (arg j)) (\<lambda>v. sum_loop Pfilter arg js (total_weight + v))"

text \<open>
  The state of the second inner loop: the entries written so far (\<^verbatim>\<open>Pcontrib[i].p\<close>,
  whose length is \<^verbatim>\<open>Pcontrib[i].n\<close>), \<^verbatim>\<open>total_weight\<close>, \<^verbatim>\<open>max_w\<close> and \<^verbatim>\<open>max_k\<close>.
\<close>

record emit_state =
  es_p :: "contrib list"
  es_total :: real
  es_max_w :: real
  es_max_k :: int

definition emit_init :: emit_state where
  "emit_init = \<lparr> es_p = [], es_total = 0, es_max_w = - (10 ^ 20), es_max_k = - 1 \<rparr>"

definition emit_entry :: "int \<Rightarrow> boundary_op \<Rightarrow> int \<Rightarrow> real \<Rightarrow> emit_state \<Rightarrow> emit_state" where
  "emit_entry src_x boundary_op j w st =
     (let n = reflect j src_x boundary_op;
          k = int (length (es_p st));
          st1 = st \<lparr> es_p := es_p st @ [\<lparr> weight = w, pixel = word_of_int n \<rparr>],
                     es_total := es_total st + w \<rparr>
      in if w > es_max_w st1 then st1 \<lparr> es_max_w := w, es_max_k := k \<rparr> else st1)"

fun emit_loop ::
  "int \<Rightarrow> boundary_op \<Rightarrow> filter_fn \<Rightarrow> (int \<Rightarrow> real) \<Rightarrow> real \<Rightarrow> int list \<Rightarrow> emit_state
    \<Rightarrow> fault + emit_state" where
  "emit_loop src_x boundary_op Pfilter arg nrm [] st = Inr st"
| "emit_loop src_x boundary_op Pfilter arg nrm (j # js) st =
     bnd (Pfilter (arg j)) (\<lambda>v.
       let w = v * nrm in
       if w = 0 then emit_loop src_x boundary_op Pfilter arg nrm js st
       else emit_loop src_x boundary_op Pfilter arg nrm js (emit_entry src_x boundary_op j w st))"

text \<open>The filter values over a footprint, used where the sum of the footprint is zero.\<close>

fun filter_values :: "filter_fn \<Rightarrow> (int \<Rightarrow> real) \<Rightarrow> int list \<Rightarrow> fault + real list" where
  "filter_values Pfilter arg [] = Inr []"
| "filter_values Pfilter arg (j # js) =
     bnd (Pfilter (arg j)) (\<lambda>v. bnd (filter_values Pfilter arg js) (\<lambda>vs. Inr (v # vs)))"

text \<open>
  The body of the second outer loop, for one destination sample: \<open>None\<close> is the
  \<^verbatim>\<open>return NULL\<close> of that loop.

  \<open>nrm\<close> is the \<^verbatim>\<open>norm\<close> of the source. When the filter values of the footprint sum to
  zero, it is an IEEE infinity.
  If every value is zero, every product \<^verbatim>\<open>0 * norm\<close> is a NaN, which is neither equal
  to zero nor greater than \<^verbatim>\<open>max_w\<close>: \<^verbatim>\<open>max_k\<close> stays \<open>-1\<close> and the function returns
  null. If some value is not zero, some weight is infinite and the list holds values that
  are not reals: the fault \<open>Non_Finite\<close>.
\<close>

definition make_row ::
  "int \<Rightarrow> boundary_op \<Rightarrow> filter_fn \<Rightarrow> (real \<Rightarrow> int \<Rightarrow> real) \<Rightarrow> contrib_bounds
    \<Rightarrow> fault + contrib list option" where
  "make_row src_x boundary_op Pfilter arg b =
     (let js = [left b..right b] in
      bnd (sum_loop Pfilter (arg (center b)) js 0) (\<lambda>total_weight.
        if total_weight = 0 then
          bnd (filter_values Pfilter (arg (center b)) js) (\<lambda>vs.
            if list_all (\<lambda>v. v = 0) vs then Inr None else Inl Non_Finite)
        else
          (let nrm = 1 / total_weight in
           bnd (emit_loop src_x boundary_op Pfilter (arg (center b)) nrm js emit_init) (\<lambda>st.
             if es_max_k st = - 1 \<or> length (es_p st) = 0 then Inr None
             else if es_total st \<noteq> 1 then
               (let k = nat (es_max_k st); c = es_p st ! k
                in Inr (Some ((es_p st)[k := c \<lparr> weight := weight c + (1 - es_total st) \<rparr>])))
             else Inr (Some (es_p st))))))"

text \<open>The second outer loop: it returns at the first sample whose list is empty.\<close>

fun rows_loop ::
  "(contrib_bounds \<Rightarrow> fault + contrib list option) \<Rightarrow> contrib_bounds list \<Rightarrow> contrib_list list
    \<Rightarrow> fault + contrib_list list option" where
  "rows_loop row [] Pcontrib = Inr (Some Pcontrib)"
| "rows_loop row (b # bs) Pcontrib =
     (case row b of
        Inl e \<Rightarrow> Inl e
      | Inr None \<Rightarrow> Inr None
      | Inr (Some r) \<Rightarrow> rows_loop row bs (Pcontrib @ [r]))"

text \<open>
  \<^verbatim>\<open>make_clist\<close>. \<open>None\<close> is the null result. A zero \<open>filter_scale\<close> or source length
  makes \<^verbatim>\<open>oo_filter_scale\<close> or \<^verbatim>\<open>xscale\<close> infinite. With \<open>dst_x = 0\<close> both loops are
  empty and \<open>n = 0\<close> returns null whatever \<^verbatim>\<open>half_width\<close> is.
\<close>

definition make_clist ::
  "(mc_site \<Rightarrow> bool) \<Rightarrow> int \<Rightarrow> int \<Rightarrow> boundary_op \<Rightarrow> filter_fn \<Rightarrow> real \<Rightarrow> real \<Rightarrow> real
    \<Rightarrow> fault + contrib_list list option" where
  "make_clist ok src_x dst_x boundary_op Pfilter filter_support filter_scale src_ofs =
     (if \<not> calloc_ok ok Site_contrib dst_x then Inr None
      else if \<not> calloc_ok ok Site_bounds dst_x then Inr None
      else if filter_scale = 0 \<or> src_x = 0 then Inl Non_Finite
      else
        (let oo_filter_scale = 1 / filter_scale;
             xscale = of_int dst_x / of_int src_x
         in if xscale < 1 then
              (let half_width = (filter_support / xscale) * filter_scale;
                   Pcontrib_bounds = map (bounds_of xscale half_width src_ofs) [0..dst_x - 1];
                   n = sum_list (map (\<lambda>b. right b - left b + 1) Pcontrib_bounds)
               in if n = 0 \<or> \<not> calloc_ok ok Site_cpool n then Inr None
                  else rows_loop
                         (make_row src_x boundary_op Pfilter
                            (\<lambda>c j. (c - of_int j) * xscale * oo_filter_scale))
                         Pcontrib_bounds [])
            else
              (let half_width = filter_support * filter_scale;
                   Pcontrib_bounds = map (bounds_of xscale half_width src_ofs) [0..dst_x - 1];
                   n = sum_list (map (\<lambda>b. right b - left b + 1) Pcontrib_bounds)
               in if n = 0 \<or> \<not> calloc_ok ok Site_cpool n then Inr None
                  else rows_loop
                         (make_row src_x boundary_op Pfilter
                            (\<lambda>c j. (c - of_int j) * oo_filter_scale))
                         Pcontrib_bounds [])))"

section \<open>The engine state\<close>

text \<open>
  Modelled from the spec: \<^verbatim>\<open>MAX_SCAN_BUF_SIZE\<close> is declared in \<^verbatim>\<open>resampler.h\<close>, which
  is not among the sources; the spec gives the reference value 1024. No proof below
  depends on the value, except the evaluations that name it.
\<close>

definition MAX_SCAN_BUF_SIZE :: nat where
  "MAX_SCAN_BUF_SIZE = 1024"

record scan_buf =
  scan_buf_y :: "int list"
  scan_buf_l :: "real list option list"

record resampler =
  m_resample_src_x :: int
  m_resample_src_y :: int
  m_resample_dst_x :: int
  m_resample_dst_y :: int
  m_boundary_op :: boundary_op
  m_lo :: real
  m_hi :: real
  m_delay_x_resample :: bool
  m_intermediate_x :: int
  m_Pdst_buf :: "real list option"
  m_Ptmp_buf :: "real list option"
  m_clist_x_forced :: bool
  m_Pclist_x :: "contrib_list list option"
  m_clist_y_forced :: bool
  m_Pclist_y :: "contrib_list list option"
  m_Psrc_y_count :: "int list option"
  m_Psrc_y_flag :: "bool list option"
  m_Pscan_buf :: "scan_buf option"
  m_cur_src_y :: int
  m_cur_dst_y :: int
  m_status :: status

subsection \<open>Memory accesses\<close>

definition deref :: "'a option \<Rightarrow> fault + 'a" where
  "deref p = (case p of None \<Rightarrow> Inl Null_Deref | Some v \<Rightarrow> Inr v)"

definition rd :: "'a list \<Rightarrow> int \<Rightarrow> fault + 'a" where
  "rd xs i = (if 0 \<le> i \<and> i < int (length xs) then Inr (xs ! nat i) else Inl Out_Of_Bounds)"

definition wr :: "'a list \<Rightarrow> int \<Rightarrow> 'a \<Rightarrow> fault + 'a list" where
  "wr xs i v = (if 0 \<le> i \<and> i < int (length xs) then Inr (xs[nat i := v]) else Inl Out_Of_Bounds)"

definition resampler_assert :: "bool \<Rightarrow> fault + unit" where
  "resampler_assert b = (if b then Inr () else Inl Assert_Failed)"

text \<open>\<^verbatim>\<open>resampler_assert(p)\<close> on a pointer, giving what it points to.\<close>

definition assert_ptr :: "'a option \<Rightarrow> fault + 'a" where
  "assert_ptr p = (case p of None \<Rightarrow> Inl Assert_Failed | Some v \<Rightarrow> Inr v)"

definition resampler_range_check :: "int \<Rightarrow> int \<Rightarrow> fault + int" where
  "resampler_range_check v h = bnd (resampler_assert (v \<ge> 0 \<and> v < h)) (\<lambda>_. Inr v)"

text \<open>
  A buffer fresh from \<^verbatim>\<open>malloc\<close>. Its contents are not initialised in the source; no
  function reads them before it has written them. The model fills it with zeros.
\<close>

definition fresh_buf :: "int \<Rightarrow> real list" where
  "fresh_buf n = replicate (nat n) 0"

text \<open>
  The search loops over the slot tags: the first index below \<^verbatim>\<open>MAX_SCAN_BUF_SIZE\<close>
  whose tag is \<open>v\<close>, and the bound itself when there is none.
\<close>

definition find_tag :: "int list \<Rightarrow> int \<Rightarrow> nat" where
  "find_tag tags v =
     (let j = length (takeWhile (\<lambda>t. t \<noteq> v) (take MAX_SCAN_BUF_SIZE tags))
      in if j < length (take MAX_SCAN_BUF_SIZE tags) then j else MAX_SCAN_BUF_SIZE)"

section \<open>The per-axis kernels\<close>

text \<open>The inner loop of \<^verbatim>\<open>resample_x\<close>: \<^verbatim>\<open>total += Psrc[p->pixel] * p->weight\<close>.\<close>

fun dot_loop :: "real list \<Rightarrow> contrib list \<Rightarrow> real \<Rightarrow> fault + real" where
  "dot_loop Psrc [] tot = Inr tot"
| "dot_loop Psrc (p # ps) tot =
     bnd (rd Psrc (uint (pixel p))) (\<lambda>v. dot_loop Psrc ps (tot + v * weight p))"

fun resample_x_loop ::
  "contrib_list list \<Rightarrow> real list \<Rightarrow> int list \<Rightarrow> real list \<Rightarrow> fault + real list" where
  "resample_x_loop Pclist Psrc [] Pdst = Inr Pdst"
| "resample_x_loop Pclist Psrc (i # is) Pdst =
     bnd (rd Pclist i) (\<lambda>cl.
     bnd (dot_loop Psrc cl 0) (\<lambda>tot.
     bnd (wr Pdst i tot) (\<lambda>Pdst'.
       resample_x_loop Pclist Psrc is Pdst')))"

text \<open>
  \<^verbatim>\<open>resample_x\<close> returns the new contents of the destination buffer. With no
  destination sample the loop does not run and \<^verbatim>\<open>m_Pclist_x\<close> is not read.
\<close>

definition resample_x ::
  "resampler \<Rightarrow> real list option \<Rightarrow> real list option \<Rightarrow> fault + real list" where
  "resample_x s Pdst Psrc =
     bnd (assert_ptr Pdst) (\<lambda>dst.
     bnd (assert_ptr Psrc) (\<lambda>src.
       if m_resample_dst_x s \<le> 0 then Inr dst
       else bnd (deref (m_Pclist_x s)) (\<lambda>Pclist.
              resample_x_loop Pclist src [0..m_resample_dst_x s - 1] dst)))"

text \<open>
  \<^verbatim>\<open>scale_y_mov\<close> and \<^verbatim>\<open>scale_y_add\<close> run over the first \<open>dst_x\<close> samples of both
  buffers; a buffer that is shorter is read or written outside.
\<close>

definition scale_y_mov :: "real list \<Rightarrow> real list \<Rightarrow> real \<Rightarrow> int \<Rightarrow> fault + real list" where
  "scale_y_mov Ptmp Psrc w dst_x =
     (if dst_x > 0 \<and> (int (length Ptmp) < dst_x \<or> int (length Psrc) < dst_x)
      then Inl Out_Of_Bounds
      else Inr (map (\<lambda>v. v * w) (take (nat dst_x) Psrc) @ drop (nat dst_x) Ptmp))"

definition scale_y_add :: "real list \<Rightarrow> real list \<Rightarrow> real \<Rightarrow> int \<Rightarrow> fault + real list" where
  "scale_y_add Ptmp Psrc w dst_x =
     (if dst_x > 0 \<and> (int (length Ptmp) < dst_x \<or> int (length Psrc) < dst_x)
      then Inl Out_Of_Bounds
      else Inr (map (\<lambda>(t, v). t + v * w) (zip (take (nat dst_x) Ptmp) (take (nat dst_x) Psrc))
                @ drop (nat dst_x) Ptmp))"

text \<open>
  Modelled from the spec: \<^verbatim>\<open>clamp_sample\<close> is declared in \<^verbatim>\<open>resampler.h\<close>, which is
  not among the sources; the spec says that it clamps a sample into \<open>[lo, hi]\<close>.
\<close>

definition clamp_sample :: "resampler \<Rightarrow> real \<Rightarrow> real" where
  "clamp_sample s f = (if f < m_lo s then m_lo s else if f > m_hi s then m_hi s else f)"

definition clamp :: "resampler \<Rightarrow> real list \<Rightarrow> int \<Rightarrow> fault + real list" where
  "clamp s Pdst n =
     (if n > 0 \<and> int (length Pdst) < n then Inl Out_Of_Bounds
      else Inr (map (clamp_sample s) (take (nat n) Pdst) @ drop (nat n) Pdst))"

text \<open>
  One turn of the contributor loop of \<^verbatim>\<open>resample_y\<close>, on the temporary line and the
  engine state; \<open>first\<close> is \<^verbatim>\<open>!i\<close>. A slot without a buffer hands a null pointer to
  \<^verbatim>\<open>scale_y_mov\<close> or \<^verbatim>\<open>scale_y_add\<close>, which read through it when the line is not empty.
\<close>

definition ry_step ::
  "bool \<Rightarrow> contrib \<Rightarrow> real list \<times> resampler \<Rightarrow> fault + real list \<times> resampler" where
  "ry_step first p ts =
     (let tmp = fst ts; s = snd ts in
      bnd (deref (m_Pscan_buf s)) (\<lambda>buf.
      (let j = find_tag (scan_buf_y buf) (uint (pixel p)) in
       bnd (resampler_assert (j < MAX_SCAN_BUF_SIZE)) (\<lambda>_.
       bnd (rd (scan_buf_l buf) (int j)) (\<lambda>Psrc.
       bnd (if m_intermediate_x s \<le> 0 then Inr tmp
            else bnd (deref Psrc) (\<lambda>src.
                   if first then scale_y_mov tmp src (weight p) (m_intermediate_x s)
                   else scale_y_add tmp src (weight p) (m_intermediate_x s))) (\<lambda>tmp'.
       bnd (resampler_range_check (uint (pixel p)) (m_resample_src_y s)) (\<lambda>y.
       bnd (deref (m_Psrc_y_count s)) (\<lambda>count.
       bnd (rd count y) (\<lambda>c.
       bnd (wr count y (c - 1)) (\<lambda>count'.
         if c - 1 = 0 then
           bnd (deref (m_Psrc_y_flag s)) (\<lambda>flag.
           bnd (wr flag y False) (\<lambda>flag'.
           bnd (wr (scan_buf_y buf) (int j) (- 1)) (\<lambda>tags'.
             Inr (tmp', s \<lparr> m_Psrc_y_count := Some count',
                            m_Psrc_y_flag := Some flag',
                            m_Pscan_buf := Some (buf \<lparr> scan_buf_y := tags' \<rparr>) \<rparr>))))
         else Inr (tmp', s \<lparr> m_Psrc_y_count := Some count' \<rparr>)))))))))))"

fun ry_loop ::
  "bool \<Rightarrow> contrib list \<Rightarrow> real list \<times> resampler \<Rightarrow> fault + real list \<times> resampler" where
  "ry_loop first [] ts = Inr ts"
| "ry_loop first (p # ps) ts = bnd (ry_step first p ts) (\<lambda>ts'. ry_loop False ps ts')"

text \<open>
  \<^verbatim>\<open>resample_y\<close> is called on \<^verbatim>\<open>m_Pdst_buf\<close> only. The temporary line is
  \<^verbatim>\<open>m_Ptmp_buf\<close> when the X pass is delayed and the destination buffer otherwise.
\<close>

definition resample_y :: "resampler \<Rightarrow> fault + resampler" where
  "resample_y s =
     bnd (deref (m_Pclist_y s)) (\<lambda>clist_y.
     bnd (rd clist_y (m_cur_dst_y s)) (\<lambda>Pclist.
     bnd (assert_ptr (if m_delay_x_resample s then m_Ptmp_buf s else m_Pdst_buf s)) (\<lambda>Ptmp.
     bnd (ry_loop True Pclist (Ptmp, s)) (\<lambda>ts.
     bnd (if m_delay_x_resample s then
            bnd (resample_x (snd ts) (m_Pdst_buf s) (Some (fst ts))) (\<lambda>dst.
              Inr ((snd ts) \<lparr> m_Ptmp_buf := Some (fst ts), m_Pdst_buf := Some dst \<rparr>))
          else Inr ((snd ts) \<lparr> m_Pdst_buf := Some (fst ts) \<rparr>)) (\<lambda>s2.
       if m_lo s2 < m_hi s2 then
         bnd (deref (m_Pdst_buf s2)) (\<lambda>dst.
         bnd (clamp s2 dst (m_resample_dst_x s2)) (\<lambda>dst'.
           Inr (s2 \<lparr> m_Pdst_buf := Some dst' \<rparr>)))
       else Inr s2)))))"

section \<open>The streaming interface\<close>

text \<open>
  \<^verbatim>\<open>memcpy\<close> of \<open>n\<close> samples. A negative count is a size beyond the address space.
\<close>

definition memcpy :: "real list \<Rightarrow> real list option \<Rightarrow> int \<Rightarrow> fault + real list" where
  "memcpy dst src n =
     (if n = 0 then Inr dst
      else if n < 0 then Inl Out_Of_Bounds
      else bnd (deref src) (\<lambda>l.
             if int (length l) < n \<or> int (length dst) < n then Inl Out_Of_Bounds
             else Inr (take (nat n) l @ drop (nat n) dst)))"

text \<open>
  \<^verbatim>\<open>put_line\<close>. \<open>alloc_ok\<close> says whether the \<^verbatim>\<open>malloc\<close> of the slot's buffer would
  succeed; \<open>Psrc\<close> is the caller's line. The result is the returned flag and the new state.
\<close>

definition put_line :: "bool \<Rightarrow> real list option \<Rightarrow> resampler \<Rightarrow> fault + bool \<times> resampler" where
  "put_line alloc_ok Psrc s =
     (if m_cur_src_y s \<ge> m_resample_src_y s then Inr (False, s)
      else
        bnd (resampler_range_check (m_cur_src_y s) (m_resample_src_y s)) (\<lambda>y.
        bnd (deref (m_Psrc_y_count s)) (\<lambda>count.
        bnd (rd count y) (\<lambda>c.
          if c = 0 then Inr (True, s \<lparr> m_cur_src_y := m_cur_src_y s + 1 \<rparr>)
          else
            bnd (deref (m_Pscan_buf s)) (\<lambda>buf.
            (let i = find_tag (scan_buf_y buf) (- 1) in
             if i = MAX_SCAN_BUF_SIZE then
               Inr (False, s \<lparr> m_status := STATUS_SCAN_BUFFER_FULL \<rparr>)
             else
               bnd (deref (m_Psrc_y_flag s)) (\<lambda>flag.
               bnd (wr flag y True) (\<lambda>flag'.
               bnd (wr (scan_buf_y buf) (int i) (m_cur_src_y s)) (\<lambda>tags'.
               bnd (rd (scan_buf_l buf) (int i)) (\<lambda>slot.
               (let s1 = s \<lparr> m_Psrc_y_flag := Some flag',
                             m_Pscan_buf := Some (buf \<lparr> scan_buf_y := tags' \<rparr>) \<rparr>
                in if slot = None \<and> \<not> alloc_ok then
                     Inr (False, s1 \<lparr> m_status := STATUS_OUT_OF_MEMORY \<rparr>)
                   else
                     (let line = (case slot of None \<Rightarrow> fresh_buf (m_intermediate_x s)
                                  | Some l \<Rightarrow> l)
                      in bnd (if m_delay_x_resample s then
                                bnd (resampler_assert (m_intermediate_x s = m_resample_src_x s))
                                  (\<lambda>_. memcpy line Psrc (m_intermediate_x s))
                              else
                                bnd (resampler_assert (m_intermediate_x s = m_resample_dst_x s))
                                  (\<lambda>_. resample_x s1 (Some line) Psrc)) (\<lambda>line'.
                         bnd (wr (scan_buf_l buf) (int i) (Some line')) (\<lambda>lines'.
                           Inr (True,
                                s1 \<lparr> m_Pscan_buf :=
                                        Some (buf \<lparr> scan_buf_y := tags', scan_buf_l := lines' \<rparr>),
                                      m_cur_src_y := m_cur_src_y s + 1 \<rparr>)))))))))))))))"

text \<open>The loop of \<^verbatim>\<open>get_line\<close> over the contributors of the current destination line.\<close>

fun present_loop :: "resampler \<Rightarrow> contrib list \<Rightarrow> fault + bool" where
  "present_loop s [] = Inr True"
| "present_loop s (p # ps) =
     bnd (resampler_range_check (uint (pixel p)) (m_resample_src_y s)) (\<lambda>y.
     bnd (deref (m_Psrc_y_flag s)) (\<lambda>flag.
     bnd (rd flag y) (\<lambda>f.
       if \<not> f then Inr False else present_loop s ps)))"

text \<open>
  \<^verbatim>\<open>get_line\<close>. The result is the returned pointer, as the contents of the destination
  buffer at the return or \<open>None\<close> for null, and the new state.
\<close>

definition get_line :: "resampler \<Rightarrow> fault + real list option \<times> resampler" where
  "get_line s =
     (if m_cur_dst_y s = m_resample_dst_y s then Inr (None, s)
      else
        bnd (deref (m_Pclist_y s)) (\<lambda>clist_y.
        bnd (rd clist_y (m_cur_dst_y s)) (\<lambda>Pclist.
        bnd (present_loop s Pclist) (\<lambda>all_present.
          if \<not> all_present then Inr (None, s)
          else bnd (resample_y s) (\<lambda>s'.
                 Inr (m_Pdst_buf s', s' \<lparr> m_cur_dst_y := m_cur_dst_y s' + 1 \<rparr>))))))"

text \<open>The counting loops shared by the constructor and \<^verbatim>\<open>restart\<close>.\<close>

fun count_row :: "int \<Rightarrow> contrib list \<Rightarrow> int list \<Rightarrow> fault + int list" where
  "count_row src_y [] count = Inr count"
| "count_row src_y (p # ps) count =
     bnd (resampler_range_check (uint (pixel p)) src_y) (\<lambda>y.
     bnd (rd count y) (\<lambda>c.
     bnd (wr count y (c + 1)) (\<lambda>count'.
       count_row src_y ps count')))"

fun count_rows :: "int \<Rightarrow> contrib_list list \<Rightarrow> int list \<Rightarrow> int list \<Rightarrow> fault + int list" where
  "count_rows src_y clist_y [] count = Inr count"
| "count_rows src_y clist_y (i # is) count =
     bnd (rd clist_y i) (\<lambda>row.
     bnd (count_row src_y row count) (\<lambda>count'.
       count_rows src_y clist_y is count'))"

definition restart :: "resampler \<Rightarrow> fault + resampler" where
  "restart s =
     (if STATUS_OKAY \<noteq> m_status s then Inr s
      else
        bnd (if m_resample_src_y s \<le> 0 then Inr (m_Psrc_y_count s, m_Psrc_y_flag s)
             else bnd (deref (m_Psrc_y_count s)) (\<lambda>count.
                  bnd (deref (m_Psrc_y_flag s)) (\<lambda>flag.
                    if int (length count) < m_resample_src_y s
                       \<or> int (length flag) < m_resample_src_y s
                    then Inl Out_Of_Bounds
                    else Inr (Some (replicate (nat (m_resample_src_y s)) 0
                                      @ drop (nat (m_resample_src_y s)) count),
                              Some (replicate (nat (m_resample_src_y s)) False
                                      @ drop (nat (m_resample_src_y s)) flag))))) (\<lambda>cf.
        bnd (if m_resample_dst_y s \<le> 0 then Inr (fst cf)
             else bnd (deref (m_Pclist_y s)) (\<lambda>clist_y.
                  bnd (deref (fst cf)) (\<lambda>count.
                  bnd (count_rows (m_resample_src_y s) clist_y [0..m_resample_dst_y s - 1] count)
                    (\<lambda>count'. Inr (Some count'))))) (\<lambda>count.
        bnd (deref (m_Pscan_buf s)) (\<lambda>buf.
          Inr (s \<lparr> m_cur_src_y := 0, m_cur_dst_y := 0,
                   m_Psrc_y_count := count, m_Psrc_y_flag := snd cf,
                   m_Pscan_buf := Some \<lparr> scan_buf_y = replicate MAX_SCAN_BUF_SIZE (- 1),
                                          scan_buf_l = replicate MAX_SCAN_BUF_SIZE None \<rparr> \<rparr>)))))"

section \<open>The constructor\<close>

text \<open>
  The environment of a construction: which allocations succeed; the build-time default
  filter name \<^verbatim>\<open>RESAMPLER_DEFAULT_FILTER\<close>, declared in \<^verbatim>\<open>resampler.h\<close>, which is not
  among the sources; and the indeterminate values that the two cursors hold until the
  constructor assigns them, which it does only after all the early returns but the last.
\<close>

datatype ctor_site =
    Site_dst_buf
  | Site_clist_x mc_site
  | Site_clist_y mc_site
  | Site_src_y_count
  | Site_src_y_flag
  | Site_scan_buf
  | Site_tmp_buf

record env =
  alloc_ok :: "ctor_site \<Rightarrow> bool"
  RESAMPLER_DEFAULT_FILTER :: string
  junk_cur_src_y :: int
  junk_cur_dst_y :: int

text \<open>A value of type \<^verbatim>\<open>int\<close> that the arithmetic of the constructor computes.\<close>

definition int32 :: "int \<Rightarrow> fault + int" where
  "int32 v = (if - (2 ^ 31) \<le> v \<and> v < 2 ^ 31 then Inr v else Inl Int_Overflow)"

text \<open>
  Modelled from the spec: \<^verbatim>\<open>count_ops\<close> is defined in \<^verbatim>\<open>resampler.h\<close>, which is not
  among the sources; the spec says that the operation count of an axis is the sum of the
  lengths of its contributor lists.
\<close>

fun count_ops_loop :: "contrib_list list \<Rightarrow> int list \<Rightarrow> int \<Rightarrow> fault + int" where
  "count_ops_loop Pclist [] t = Inr t"
| "count_ops_loop Pclist (i # is) t =
     bnd (rd Pclist i) (\<lambda>cl.
     bnd (int32 (t + int (length cl))) (\<lambda>t'.
       count_ops_loop Pclist is t'))"

definition count_ops :: "contrib_list list \<Rightarrow> int \<Rightarrow> fault + int" where
  "count_ops Pclist k = count_ops_loop Pclist [0..k - 1] 0"

text \<open>
  The two estimates and the choice of the axis order. \<open>y4\<close> is the product
  \<^verbatim>\<open>4 * y_ops\<close>, which both estimates compute first.
\<close>

definition choose_order :: "resampler \<Rightarrow> int \<Rightarrow> int \<Rightarrow> fault + resampler" where
  "choose_order s x_ops y_ops =
     bnd (int32 (x_ops * m_resample_src_y s)) (\<lambda>a.
     bnd (int32 (4 * y_ops)) (\<lambda>y4.
     bnd (int32 (y4 * m_resample_dst_x s)) (\<lambda>b.
     bnd (int32 (a + b sdiv 3)) (\<lambda>xy_ops.
     bnd (int32 (y4 * m_resample_src_x s)) (\<lambda>c.
     bnd (int32 (x_ops * m_resample_dst_y s)) (\<lambda>d.
     bnd (int32 (c sdiv 3 + d)) (\<lambda>yx_ops.
       if xy_ops > yx_ops \<or> (xy_ops = yx_ops \<and> m_resample_src_x s < m_resample_dst_x s) then
         Inr (s \<lparr> m_delay_x_resample := True, m_intermediate_x := m_resample_src_x s \<rparr>)
       else
         Inr (s \<lparr> m_delay_x_resample := False, m_intermediate_x := m_resample_dst_x s \<rparr>))))))))"

text \<open>
  The constructor, in four parts, last part first: the axis order and the temporary
  line; the reference counts and the pool; the contributor lists; the entry with the
  assertions, the field initialisations, the destination buffer and the filter lookup.
\<close>

definition ctor_order ::
  "env \<Rightarrow> resampler \<Rightarrow> contrib_list list \<Rightarrow> contrib_list list \<Rightarrow> fault + resampler" where
  "ctor_order e s7 clist_x clist_y =
     bnd (count_ops clist_x (m_resample_dst_x s7)) (\<lambda>x_ops.
     bnd (count_ops clist_y (m_resample_dst_y s7)) (\<lambda>y_ops.
     bnd (choose_order s7 x_ops y_ops) (\<lambda>s8.
       if m_delay_x_resample s8 then
         (if \<not> alloc_ok e Site_tmp_buf then Inr (s8 \<lparr> m_status := STATUS_OUT_OF_MEMORY \<rparr>)
          else Inr (s8 \<lparr> m_Ptmp_buf := Some (fresh_buf (m_intermediate_x s8)) \<rparr>))
       else Inr s8)))"

definition ctor_tables ::
  "env \<Rightarrow> resampler \<Rightarrow> contrib_list list \<Rightarrow> contrib_list list \<Rightarrow> fault + resampler" where
  "ctor_tables e s3 clist_x clist_y =
     (if \<not> alloc_ok e Site_src_y_count then Inr (s3 \<lparr> m_status := STATUS_OUT_OF_MEMORY \<rparr>)
      else
        (let s4 = s3 \<lparr> m_Psrc_y_count := Some (replicate (nat (m_resample_src_y s3)) 0) \<rparr> in
         if \<not> alloc_ok e Site_src_y_flag then Inr (s4 \<lparr> m_status := STATUS_OUT_OF_MEMORY \<rparr>)
         else
           (let s5 = s4 \<lparr> m_Psrc_y_flag := Some (replicate (nat (m_resample_src_y s3)) False) \<rparr> in
            bnd (count_rows (m_resample_src_y s3) clist_y [0..m_resample_dst_y s3 - 1]
                   (replicate (nat (m_resample_src_y s3)) 0)) (\<lambda>count.
              (let s6 = s5 \<lparr> m_Psrc_y_count := Some count \<rparr> in
               if \<not> alloc_ok e Site_scan_buf then Inr (s6 \<lparr> m_status := STATUS_OUT_OF_MEMORY \<rparr>)
               else
                 ctor_order e
                   (s6 \<lparr> m_Pscan_buf :=
                           Some \<lparr> scan_buf_y = replicate MAX_SCAN_BUF_SIZE (- 1),
                                  scan_buf_l = replicate MAX_SCAN_BUF_SIZE None \<rparr>,
                         m_cur_src_y := 0, m_cur_dst_y := 0 \<rparr>)
                   clist_x clist_y)))))"

definition ctor_clists ::
  "env \<Rightarrow> resampler \<Rightarrow> filter_fn \<Rightarrow> real \<Rightarrow> contrib_list list option \<Rightarrow> contrib_list list option
    \<Rightarrow> real \<Rightarrow> real \<Rightarrow> real \<Rightarrow> real \<Rightarrow> fault + resampler" where
  "ctor_clists e s1 func support Pclist_x Pclist_y filter_x_scale filter_y_scale
     src_x_ofs src_y_ofs =
     bnd (case Pclist_x of
            None \<Rightarrow> make_clist (\<lambda>t. alloc_ok e (Site_clist_x t)) (m_resample_src_x s1)
                      (m_resample_dst_x s1) (m_boundary_op s1) func support filter_x_scale src_x_ofs
          | Some cl \<Rightarrow> Inr (Some cl)) (\<lambda>cx.
       case cx of
         None \<Rightarrow> Inr (s1 \<lparr> m_status := STATUS_OUT_OF_MEMORY \<rparr>)
       | Some clist_x \<Rightarrow>
           (let s2 = s1 \<lparr> m_Pclist_x := Some clist_x, m_clist_x_forced := (Pclist_x \<noteq> None) \<rparr> in
            bnd (case Pclist_y of
                   None \<Rightarrow> make_clist (\<lambda>t. alloc_ok e (Site_clist_y t)) (m_resample_src_y s1)
                             (m_resample_dst_y s1) (m_boundary_op s1) func support filter_y_scale
                             src_y_ofs
                 | Some cl \<Rightarrow> Inr (Some cl)) (\<lambda>cy.
              case cy of
                None \<Rightarrow> Inr (s2 \<lparr> m_status := STATUS_OUT_OF_MEMORY \<rparr>)
              | Some clist_y \<Rightarrow>
                  ctor_tables e
                    (s2 \<lparr> m_Pclist_y := Some clist_y, m_clist_y_forced := (Pclist_y \<noteq> None) \<rparr>)
                    clist_x clist_y)))"

definition Resampler ::
  "env \<Rightarrow> int \<Rightarrow> int \<Rightarrow> int \<Rightarrow> int \<Rightarrow> boundary_op \<Rightarrow> real \<Rightarrow> real \<Rightarrow> string option
    \<Rightarrow> contrib_list list option \<Rightarrow> contrib_list list option \<Rightarrow> real \<Rightarrow> real \<Rightarrow> real \<Rightarrow> real
    \<Rightarrow> fault + resampler" where
  "Resampler e src_x src_y dst_x dst_y boundary_op sample_low sample_high Pfilter_name
     Pclist_x Pclist_y filter_x_scale filter_y_scale src_x_ofs src_y_ofs =
     bnd (resampler_assert (src_x > 0)) (\<lambda>_.
     bnd (resampler_assert (src_y > 0)) (\<lambda>_.
     bnd (resampler_assert (dst_x > 0)) (\<lambda>_.
     bnd (resampler_assert (dst_y > 0)) (\<lambda>_.
       (let s0 = \<lparr> m_resample_src_x = src_x, m_resample_src_y = src_y,
                   m_resample_dst_x = dst_x, m_resample_dst_y = dst_y,
                   m_boundary_op = boundary_op,
                   m_lo = sample_low, m_hi = sample_high,
                   m_delay_x_resample = False, m_intermediate_x = 0,
                   m_Pdst_buf = None, m_Ptmp_buf = None,
                   m_clist_x_forced = False, m_Pclist_x = None,
                   m_clist_y_forced = False, m_Pclist_y = None,
                   m_Psrc_y_count = None, m_Psrc_y_flag = None, m_Pscan_buf = None,
                   m_cur_src_y = junk_cur_src_y e, m_cur_dst_y = junk_cur_dst_y e,
                   m_status = STATUS_OKAY \<rparr>
        in if \<not> alloc_ok e Site_dst_buf then Inr (s0 \<lparr> m_status := STATUS_OUT_OF_MEMORY \<rparr>)
           else
             (let s1 = s0 \<lparr> m_Pdst_buf := Some (fresh_buf dst_x) \<rparr>;
                  name = (case Pfilter_name of None \<Rightarrow> RESAMPLER_DEFAULT_FILTER e | Some n \<Rightarrow> n)
              in case find (\<lambda>f. fst f = name) g_filters of
                   None \<Rightarrow> Inr (s1 \<lparr> m_status := STATUS_BAD_FILTER_NAME \<rparr>)
                 | Some f \<Rightarrow>
                     ctor_clists e s1 (fst (snd f)) (snd (snd f)) Pclist_x Pclist_y
                       filter_x_scale filter_y_scale src_x_ofs src_y_ofs))))))"

section \<open>Sequences of calls\<close>

datatype call = Put_line bool "real list option" | Get_line

datatype reply = Put_reply bool | Get_reply "real list option"

definition do_call :: "call \<Rightarrow> resampler \<Rightarrow> fault + reply \<times> resampler" where
  "do_call c s =
     (case c of
        Put_line a Psrc \<Rightarrow> bnd (put_line a Psrc s) (\<lambda>r. Inr (Put_reply (fst r), snd r))
      | Get_line \<Rightarrow> bnd (get_line s) (\<lambda>r. Inr (Get_reply (fst r), snd r)))"

fun run :: "call list \<Rightarrow> resampler \<Rightarrow> fault + reply list \<times> resampler" where
  "run [] s = Inr ([], s)"
| "run (c # cs) s =
     bnd (do_call c s) (\<lambda>r.
     bnd (run cs (snd r)) (\<lambda>rs. Inr (fst r # fst rs, snd rs)))"

section \<open>Notions used in the statements\<close>

text \<open>
  What the inner loop of \<open>make_row\<close> maintains: \<^verbatim>\<open>total_weight\<close> is the sum of the weights
  written so far, \<^verbatim>\<open>max_k\<close> is \<open>-1\<close> or the index of an entry, and every pixel is a
  boundary-resolved index converted to \<^verbatim>\<open>unsigned short\<close>.
\<close>

definition emit_ok :: "int \<Rightarrow> boundary_op \<Rightarrow> emit_state \<Rightarrow> bool" where
  "emit_ok src_x op st \<longleftrightarrow>
     es_total st = sum_list (map weight (es_p st)) \<and>
     (es_max_k st = - 1 \<or> (0 \<le> es_max_k st \<and> es_max_k st < int (length (es_p st)))) \<and>
     (\<forall>p \<in> set (es_p st). \<exists>j. pixel p = word_of_int (reflect j src_x op))"

text \<open>A finished contributor list: not empty, of unit weight, with resolved pixels.\<close>

definition row_ok :: "int \<Rightarrow> boundary_op \<Rightarrow> contrib list \<Rightarrow> bool" where
  "row_ok src_x op row \<longleftrightarrow>
     row \<noteq> [] \<and> sum_list (map weight row) = 1 \<and>
     (\<forall>p \<in> set row. \<exists>j. pixel p = word_of_int (reflect j src_x op))"

text \<open>
  The contributor lists of the Y axis that the engine reads: the first \<open>dst_y\<close> of them.
\<close>

definition y_rows :: "resampler \<Rightarrow> contrib_list list" where
  "y_rows s =
     (case m_Pclist_y s of None \<Rightarrow> [] | Some cl \<Rightarrow> take (nat (m_resample_dst_y s)) cl)"

text \<open>The number of entries of the given lists that refer to source line \<open>y\<close>.\<close>

definition refs :: "contrib_list list \<Rightarrow> int \<Rightarrow> int" where
  "refs rows y = int (length (filter (\<lambda>p. uint (pixel p) = y) (concat rows)))"

text \<open>
  The parts of a well-formed engine state. The first does not change after construction:
  positive dimensions, the Y lists with pixels inside the source, and buffers of the
  widths that the axis order asks for.
\<close>

definition static_ok :: "resampler \<Rightarrow> bool" where
  "static_ok s \<longleftrightarrow>
     0 < m_resample_src_x s \<and> 0 < m_resample_src_y s \<and>
     0 < m_resample_dst_x s \<and> 0 < m_resample_dst_y s \<and>
     length (y_rows s) = nat (m_resample_dst_y s) \<and>
     (\<forall>row \<in> set (y_rows s). \<forall>p \<in> set row. uint (pixel p) < m_resample_src_y s) \<and>
     (case m_Pdst_buf s of None \<Rightarrow> False | Some dst \<Rightarrow> length dst = nat (m_resample_dst_x s)) \<and>
     (if m_delay_x_resample s then
        m_intermediate_x s = m_resample_src_x s \<and>
        (case m_Ptmp_buf s of None \<Rightarrow> False | Some tmp \<Rightarrow> length tmp = nat (m_resample_src_x s))
      else m_intermediate_x s = m_resample_dst_x s)"

text \<open>
  The reference counts: line \<open>y\<close> is counted once for every entry that refers to it in
  \<open>pend\<close>, the entries of the current destination line that are still to be processed,
  and in the destination lines from \<open>d\<close> on.
\<close>

definition counts_ok :: "contrib list \<Rightarrow> nat \<Rightarrow> resampler \<Rightarrow> bool" where
  "counts_ok pend d s \<longleftrightarrow>
     (case m_Psrc_y_count s of
        None \<Rightarrow> False
      | Some count \<Rightarrow>
          length count = nat (m_resample_src_y s) \<and>
          (\<forall>y < length count. count ! y = refs (pend # drop d (y_rows s)) (int y)))"

text \<open>
  The present flags: a line is present when it has been put and is still referred to.
\<close>

definition flags_ok :: "resampler \<Rightarrow> bool" where
  "flags_ok s \<longleftrightarrow>
     0 \<le> m_cur_src_y s \<and> m_cur_src_y s \<le> m_resample_src_y s \<and>
     (case (m_Psrc_y_count s, m_Psrc_y_flag s) of
        (Some count, Some flag) \<Rightarrow>
          length flag = nat (m_resample_src_y s) \<and> length count = nat (m_resample_src_y s) \<and>
          (\<forall>y < length flag. flag ! y \<longleftrightarrow> (int y < m_cur_src_y s \<and> count ! y \<noteq> 0))
      | _ \<Rightarrow> False)"

text \<open>
  The pool: a tagged slot holds a present line and a buffer, no two slots hold the same
  line, every present line is in a slot, and every buffer has the intermediate width.
\<close>

definition pool_ok :: "resampler \<Rightarrow> bool" where
  "pool_ok s \<longleftrightarrow>
     (case (m_Pscan_buf s, m_Psrc_y_flag s) of
        (Some buf, Some flag) \<Rightarrow>
          length (scan_buf_y buf) = MAX_SCAN_BUF_SIZE \<and>
          length (scan_buf_l buf) = MAX_SCAN_BUF_SIZE \<and>
          (\<forall>j < MAX_SCAN_BUF_SIZE. scan_buf_y buf ! j \<noteq> - 1 \<longrightarrow>
             0 \<le> scan_buf_y buf ! j \<and> scan_buf_y buf ! j < int (length flag) \<and>
             flag ! nat (scan_buf_y buf ! j) \<and> scan_buf_l buf ! j \<noteq> None) \<and>
          (\<forall>j < MAX_SCAN_BUF_SIZE. \<forall>j' < MAX_SCAN_BUF_SIZE.
             scan_buf_y buf ! j \<noteq> - 1 \<longrightarrow> scan_buf_y buf ! j' = scan_buf_y buf ! j \<longrightarrow> j' = j) \<and>
          (\<forall>y < length flag. flag ! y \<longrightarrow> int y \<in> set (scan_buf_y buf)) \<and>
          (\<forall>l \<in> set (scan_buf_l buf). case l of None \<Rightarrow> True
             | Some line \<Rightarrow> length line = nat (m_intermediate_x s))
      | _ \<Rightarrow> False)"

definition engine_inv :: "resampler \<Rightarrow> bool" where
  "engine_inv s \<longleftrightarrow>
     static_ok s \<and> counts_ok [] (nat (m_cur_dst_y s)) s \<and> flags_ok s \<and> pool_ok s \<and>
     0 \<le> m_cur_dst_y s \<and> m_cur_dst_y s \<le> m_resample_dst_y s"

text \<open>The X lists that the engine reads have their pixels inside a source line.\<close>

definition x_rows_ok :: "resampler \<Rightarrow> bool" where
  "x_rows_ok s \<longleftrightarrow>
     (case m_Pclist_x s of
        None \<Rightarrow> False
      | Some cl \<Rightarrow>
          nat (m_resample_dst_x s) \<le> length cl \<and>
          (\<forall>row \<in> set (take (nat (m_resample_dst_x s)) cl).
             \<forall>p \<in> set row. uint (pixel p) < m_resample_src_x s))"

text \<open>
  What the contributor loop of \<open>resample_y\<close> maintains, with \<open>pend\<close> the entries still to
  be processed: every pending line has been put, and the temporary line has the
  intermediate width.
\<close>

definition loop_inv :: "contrib list \<Rightarrow> nat \<Rightarrow> real list \<times> resampler \<Rightarrow> bool" where
  "loop_inv pend d ts \<longleftrightarrow>
     static_ok (snd ts) \<and> counts_ok pend d (snd ts) \<and> flags_ok (snd ts) \<and> pool_ok (snd ts) \<and>
     (\<forall>p \<in> set pend. uint (pixel p) < m_cur_src_y (snd ts)) \<and>
     length (fst ts) = nat (m_intermediate_x (snd ts))"

text \<open>Two states that differ in the reference counts, the flags and the pool only.\<close>

definition frame :: "resampler \<Rightarrow> resampler \<Rightarrow> bool" where
  "frame s s' \<longleftrightarrow>
     s' = s \<lparr> m_Psrc_y_count := m_Psrc_y_count s', m_Psrc_y_flag := m_Psrc_y_flag s',
               m_Pscan_buf := m_Pscan_buf s' \<rparr>"

text \<open>
  The axis-order rule in the words of the spec: the operation count of an axis is the sum
  of the lengths of its contributor lists, and the two estimates weight the Y count by 4/3
  with an integer division.
\<close>

definition spec_ops :: "contrib_list list \<Rightarrow> int \<Rightarrow> int" where
  "spec_ops clist dst_len = sum_list (map (\<lambda>l. int (length l)) (take (nat dst_len) clist))"

definition spec_xy_ops :: "int \<Rightarrow> int \<Rightarrow> int \<Rightarrow> int \<Rightarrow> int" where
  "spec_xy_ops x_ops y_ops src_y dst_x = x_ops * src_y + (4 * y_ops * dst_x) div 3"

definition spec_yx_ops :: "int \<Rightarrow> int \<Rightarrow> int \<Rightarrow> int \<Rightarrow> int" where
  "spec_yx_ops x_ops y_ops src_x dst_y = (4 * y_ops * src_x) div 3 + x_ops * dst_y"

definition spec_delay :: "int \<Rightarrow> int \<Rightarrow> int \<Rightarrow> int \<Rightarrow> int \<Rightarrow> int \<Rightarrow> bool" where
  "spec_delay x_ops y_ops src_x src_y dst_x dst_y \<longleftrightarrow>
     spec_xy_ops x_ops y_ops src_y dst_x > spec_yx_ops x_ops y_ops src_x dst_y \<or>
     (spec_xy_ops x_ops y_ops src_y dst_x = spec_yx_ops x_ops y_ops src_x dst_y \<and> src_x < dst_x)"

section \<open>Example engines\<close>

text \<open>An environment in which every allocation succeeds.\<close>

definition demo_env :: env where
  "demo_env = \<lparr> alloc_ok = (\<lambda>_. True), RESAMPLER_DEFAULT_FILTER = ''lanczos4'',
                 junk_cur_src_y = 0, junk_cur_dst_y = 0 \<rparr>"

text \<open>
  An engine from two source lines of one sample to one destination line, with supplied
  lists: the destination line is source line 1, and source line 0 is never referred to.
\<close>

definition dead_row_engine :: "fault + resampler" where
  "dead_row_engine =
     Resampler demo_env 1 2 1 1 BOUNDARY_CLAMP 0 0 (Some ''box'')
       (Some [[\<lparr> weight = 1, pixel = 0 \<rparr>]]) (Some [[\<lparr> weight = 1, pixel = 1 \<rparr>]]) 1 1 0 0"

definition dead_row_state :: resampler where
  "dead_row_state =
     \<lparr> m_resample_src_x = 1, m_resample_src_y = 2, m_resample_dst_x = 1, m_resample_dst_y = 1,
       m_boundary_op = BOUNDARY_CLAMP, m_lo = 0, m_hi = 0,
       m_delay_x_resample = True, m_intermediate_x = 1,
       m_Pdst_buf = Some [0], m_Ptmp_buf = Some [0],
       m_clist_x_forced = True, m_Pclist_x = Some [[\<lparr> weight = 1, pixel = 0 \<rparr>]],
       m_clist_y_forced = True, m_Pclist_y = Some [[\<lparr> weight = 1, pixel = 1 \<rparr>]],
       m_Psrc_y_count = Some [0, 1], m_Psrc_y_flag = Some [False, False],
       m_Pscan_buf = Some \<lparr> scan_buf_y = replicate MAX_SCAN_BUF_SIZE (- 1),
                              scan_buf_l = replicate MAX_SCAN_BUF_SIZE None \<rparr>,
       m_cur_src_y = 0, m_cur_dst_y = 0, m_status = STATUS_OKAY \<rparr>"

text \<open>
  Both source lines are put and the destination line is pulled, followed by one more pull.
\<close>

definition dead_row_calls :: "call list" where
  "dead_row_calls = [Put_line True (Some [7]), Put_line True (Some [5]), Get_line, Get_line]"

definition dead_row_final :: resampler where
  "dead_row_final =
     dead_row_state
       \<lparr> m_Pdst_buf := Some [5], m_Ptmp_buf := Some [5],
         m_Psrc_y_count := Some [0, 0],
         m_Pscan_buf := Some \<lparr> scan_buf_y = replicate MAX_SCAN_BUF_SIZE (- 1),
                                scan_buf_l = (replicate MAX_SCAN_BUF_SIZE None)[0 := Some [5]] \<rparr>,
         m_cur_src_y := 2, m_cur_dst_y := 1 \<rparr>"

text \<open>
  An engine from two source lines of one sample to two destination lines, with supplied
  lists: destination line \<open>i\<close> is source line \<open>i\<close>.
\<close>

definition two_row_engine :: "fault + resampler" where
  "two_row_engine =
     Resampler demo_env 1 2 1 2 BOUNDARY_CLAMP 0 0 (Some ''box'')
       (Some [[\<lparr> weight = 1, pixel = 0 \<rparr>]])
       (Some [[\<lparr> weight = 1, pixel = 0 \<rparr>], [\<lparr> weight = 1, pixel = 1 \<rparr>]]) 1 1 0 0"

definition two_row_state :: resampler where
  "two_row_state =
     \<lparr> m_resample_src_x = 1, m_resample_src_y = 2, m_resample_dst_x = 1, m_resample_dst_y = 2,
       m_boundary_op = BOUNDARY_CLAMP, m_lo = 0, m_hi = 0,
       m_delay_x_resample = False, m_intermediate_x = 1,
       m_Pdst_buf = Some [0], m_Ptmp_buf = None,
       m_clist_x_forced = True, m_Pclist_x = Some [[\<lparr> weight = 1, pixel = 0 \<rparr>]],
       m_clist_y_forced = True,
       m_Pclist_y = Some [[\<lparr> weight = 1, pixel = 0 \<rparr>], [\<lparr> weight = 1, pixel = 1 \<rparr>]],
       m_Psrc_y_count = Some [1, 1], m_Psrc_y_flag = Some [False, False],
       m_Pscan_buf = Some \<lparr> scan_buf_y = replicate MAX_SCAN_BUF_SIZE (- 1),
                              scan_buf_l = replicate MAX_SCAN_BUF_SIZE None \<rparr>,
       m_cur_src_y = 0, m_cur_dst_y = 0, m_status = STATUS_OKAY \<rparr>"

text \<open>
  The state of that engine after line 0 has been put and the allocation for line 1 has
  failed, and its state after the calls that follow in \<open>oom_calls\<close>.
\<close>

definition oom_state :: resampler where
  "oom_state =
     two_row_state
       \<lparr> m_Psrc_y_flag := Some [True, True],
         m_Pscan_buf := Some \<lparr> scan_buf_y = 0 # 1 # replicate (MAX_SCAN_BUF_SIZE - 2) (- 1),
                                scan_buf_l = Some [7] # None # replicate (MAX_SCAN_BUF_SIZE - 2) None \<rparr>,
         m_cur_src_y := 1, m_status := STATUS_OUT_OF_MEMORY \<rparr>"

definition oom_calls :: "call list" where
  "oom_calls = [Get_line, Put_line True (Some [5]), Get_line]"

definition oom_final :: resampler where
  "oom_final =
     oom_state
       \<lparr> m_Pdst_buf := Some [5],
         m_Psrc_y_count := Some [0, 0], m_Psrc_y_flag := Some [False, False],
         m_Pscan_buf := Some \<lparr> scan_buf_y = - 1 # 1 # replicate (MAX_SCAN_BUF_SIZE - 2) (- 1),
                                scan_buf_l = Some [5] # None # replicate (MAX_SCAN_BUF_SIZE - 2) None \<rparr>,
         m_cur_src_y := 2, m_cur_dst_y := 2 \<rparr>"

text \<open>
  The local quantities of \<open>make_clist\<close>, by the names that the statements use: the scale
  \<^verbatim>\<open>xscale\<close>, the half width of the footprint in the two branches, the footprint of
  destination sample \<open>i\<close>, and the argument at which the filter is evaluated for a centre
  \<open>c\<close> and a source sample \<open>j\<close>.
\<close>

definition clist_xscale :: "int \<Rightarrow> int \<Rightarrow> real" where
  "clist_xscale src_x dst_x = of_int dst_x / of_int src_x"

definition clist_half_width :: "int \<Rightarrow> int \<Rightarrow> real \<Rightarrow> real \<Rightarrow> real" where
  "clist_half_width src_x dst_x filter_support filter_scale =
     (if clist_xscale src_x dst_x < 1
      then (filter_support / clist_xscale src_x dst_x) * filter_scale
      else filter_support * filter_scale)"

definition clist_bounds :: "int \<Rightarrow> int \<Rightarrow> real \<Rightarrow> real \<Rightarrow> real \<Rightarrow> int \<Rightarrow> contrib_bounds" where
  "clist_bounds src_x dst_x filter_support filter_scale src_ofs i =
     bounds_of (clist_xscale src_x dst_x)
       (clist_half_width src_x dst_x filter_support filter_scale) src_ofs i"

definition clist_arg :: "int \<Rightarrow> int \<Rightarrow> real \<Rightarrow> real \<Rightarrow> int \<Rightarrow> real" where
  "clist_arg src_x dst_x filter_scale c j =
     (if clist_xscale src_x dst_x < 1
      then (c - of_int j) * clist_xscale src_x dst_x * (1 / filter_scale)
      else (c - of_int j) * (1 / filter_scale))"

section \<open>Constant images\<close>

text \<open>
  Every buffer of a tagged slot of the pool holds the constant line of value \<open>c\<close>.
\<close>

definition const_pool :: "real \<Rightarrow> resampler \<Rightarrow> bool" where
  "const_pool c s \<longleftrightarrow>
     (case m_Pscan_buf s of
        None \<Rightarrow> False
      | Some buf \<Rightarrow>
          \<forall>j < MAX_SCAN_BUF_SIZE. scan_buf_y buf ! j \<noteq> - 1 \<longrightarrow>
            scan_buf_l buf ! j = Some (replicate (nat (m_intermediate_x s)) c))"

text \<open>
  The contributor lists that the engine reads have unit weight, and those of the Y axis
  are not empty.
\<close>

definition unit_lists :: "resampler \<Rightarrow> bool" where
  "unit_lists s \<longleftrightarrow>
     (\<forall>row \<in> set (y_rows s). row \<noteq> [] \<and> sum_list (map weight row) = 1) \<and>
     (case m_Pclist_x s of
        None \<Rightarrow> False
      | Some cl \<Rightarrow> \<forall>row \<in> set (take (nat (m_resample_dst_x s)) cl). sum_list (map weight row) = 1)"

text \<open>
  The calls that put only the constant line of \<open>n\<close> samples of value \<open>c\<close>, and the replies
  whose lines are all the constant line of \<open>n\<close> samples of value \<open>c\<close>.
\<close>

definition const_calls :: "real \<Rightarrow> int \<Rightarrow> call list \<Rightarrow> bool" where
  "const_calls c n cs \<longleftrightarrow>
     (\<forall>k \<in> set cs. case k of Put_line a Psrc \<Rightarrow> Psrc = Some (replicate (nat n) c)
                            | Get_line \<Rightarrow> True)"

definition const_replies :: "real \<Rightarrow> int \<Rightarrow> reply list \<Rightarrow> bool" where
  "const_replies c n rs \<longleftrightarrow>
     (\<forall>r \<in> set rs. case r of Get_reply (Some row) \<Rightarrow> row = replicate (nat n) c
                            | _ \<Rightarrow> True)"

section \<open>The range of the operation counts\<close>

text \<open>
  The values that the constructor computes in \<^verbatim>\<open>int\<close> when it chooses the axis order:
  the two operation counts, the five products and the two estimates.
\<close>

definition in_int32 :: "int \<Rightarrow> bool" where
  "in_int32 v \<longleftrightarrow> - (2 ^ 31) \<le> v \<and> v < 2 ^ 31"

definition ops_in_range :: "int \<Rightarrow> int \<Rightarrow> int \<Rightarrow> int \<Rightarrow> int \<Rightarrow> int \<Rightarrow> bool" where
  "ops_in_range x_ops y_ops src_x src_y dst_x dst_y \<longleftrightarrow>
     in_int32 x_ops \<and> in_int32 y_ops \<and>
     in_int32 (x_ops * src_y) \<and> in_int32 (4 * y_ops) \<and> in_int32 (4 * y_ops * dst_x) \<and>
     in_int32 (spec_xy_ops x_ops y_ops src_y dst_x) \<and>
     in_int32 (4 * y_ops * src_x) \<and> in_int32 (x_ops * dst_y) \<and>
     in_int32 (spec_yx_ops x_ops y_ops src_x dst_y)"

text \<open>
  A construction with one destination sample whose supplied X list has 65535 entries, the
  most that the \<^verbatim>\<open>unsigned short\<close> length of a list can hold, and 32769 source lines.
\<close>

definition overflow_engine :: "fault + resampler" where
  "overflow_engine =
     Resampler demo_env 1 32769 1 1 BOUNDARY_CLAMP 0 0 (Some ''box'')
       (Some [replicate 65535 \<lparr> weight = 0, pixel = 0 \<rparr>])
       (Some [[\<lparr> weight = 1, pixel = 0 \<rparr>]]) 1 1 0 0"

section \<open>The destination line in the words of the spec\<close>

text \<open>
  The line of the pool slot that holds source line \<open>y\<close>: the buffer of the first slot
  whose tag is \<open>y\<close>.
\<close>

definition slot_line :: "resampler \<Rightarrow> int \<Rightarrow> real list" where
  "slot_line s y =
     (case m_Pscan_buf s of
        None \<Rightarrow> []
      | Some buf \<Rightarrow>
          (case scan_buf_l buf ! find_tag (scan_buf_y buf) y of None \<Rightarrow> [] | Some l \<Rightarrow> l))"

text \<open>
  The X kernel: for each destination index \<open>i\<close>, the sum of \<open>src[p.pixel] * p.weight\<close> over
  \<open>clist_x[i]\<close>.
\<close>

definition spec_resample_x :: "contrib_list list \<Rightarrow> int \<Rightarrow> real list \<Rightarrow> real list" where
  "spec_resample_x clist dst_x src =
     map (\<lambda>i. sum_list (map (\<lambda>p. src ! unat (pixel p) * weight p) (clist ! i))) [0..<nat dst_x]"

text \<open>
  The temporary line of the Y kernel: \<open>tmp[k]\<close> is the sum of \<open>slot[k] * p.weight\<close> over the
  contributors of the list, for \<open>k\<close> in \<open>[0, intermediate_x)\<close>. With no contributor the
  temporary line stays as it is.
\<close>

definition spec_tmp :: "resampler \<Rightarrow> contrib list \<Rightarrow> real list" where
  "spec_tmp s list =
     (if list = [] then
        (case (if m_delay_x_resample s then m_Ptmp_buf s else m_Pdst_buf s) of
           None \<Rightarrow> [] | Some t \<Rightarrow> t)
      else
        map (\<lambda>k. sum_list (map (\<lambda>p. slot_line s (uint (pixel p)) ! k * weight p) list))
          [0..<nat (m_intermediate_x s)])"

text \<open>
  Destination line \<open>cur_dst_y\<close>: the Y kernel over \<open>clist_y[cur_dst_y]\<close>, then the X kernel
  when the X pass is delayed, then the clamp into \<open>[lo, hi]\<close> when \<open>lo < hi\<close>.
\<close>

definition spec_dst_row :: "resampler \<Rightarrow> real list" where
  "spec_dst_row s =
     (case (m_Pclist_x s, m_Pclist_y s) of
        (Some clx, Some cly) \<Rightarrow>
          (let tmp = spec_tmp s (cly ! nat (m_cur_dst_y s));
               dst = (if m_delay_x_resample s
                      then spec_resample_x clx (m_resample_dst_x s) tmp else tmp)
           in if m_lo s < m_hi s then map (clamp_sample s) dst else dst)
      | _ \<Rightarrow> [])"

text \<open>
  What every engine keeps after a construction that succeeded, whatever happens to its
  status later: the Y lists that it reads index inside the source, there is a flag for
  every source line, and the destination cursor is inside \<open>[0, dst_y]\<close>.
\<close>

definition lists_ok :: "resampler \<Rightarrow> bool" where
  "lists_ok s \<longleftrightarrow>
     length (y_rows s) = nat (m_resample_dst_y s) \<and>
     (\<forall>row \<in> set (y_rows s). \<forall>p \<in> set row. uint (pixel p) < m_resample_src_y s) \<and>
     (case m_Psrc_y_flag s of None \<Rightarrow> False
      | Some flag \<Rightarrow> length flag = nat (m_resample_src_y s)) \<and>
     0 \<le> m_cur_dst_y s \<and> m_cur_dst_y s \<le> m_resample_dst_y s"

section \<open>More example engines\<close>

text \<open>
  The state of \<open>two_row_engine\<close> after line 0 has been put, the allocation for line 1 has
  failed and destination line 0 has been pulled.
\<close>

definition oom_pending :: resampler where
  "oom_pending =
     oom_state
       \<lparr> m_Pdst_buf := Some [7],
         m_Psrc_y_count := Some [0, 1], m_Psrc_y_flag := Some [False, True],
         m_Pscan_buf := Some \<lparr> scan_buf_y = - 1 # 1 # replicate (MAX_SCAN_BUF_SIZE - 2) (- 1),
                                scan_buf_l = Some [7] # None # replicate (MAX_SCAN_BUF_SIZE - 2) None \<rparr>,
         m_cur_dst_y := 1 \<rparr>"

text \<open>
  An engine from two source lines of one sample to one destination line, with supplied
  lists: the destination line is the mean of the two source lines, the X list doubles
  it, and the result is clamped into \<open>[0, 8]\<close>. Its states: after the construction, after
  the line \<open>[6]\<close> has been put, after the line \<open>[4]\<close> has been put too, and after the
  destination line has been pulled.
\<close>

definition mean_engine :: "fault + resampler" where
  "mean_engine =
     Resampler demo_env 1 2 1 1 BOUNDARY_CLAMP 0 8 (Some ''box'')
       (Some [[\<lparr> weight = 2, pixel = 0 \<rparr>]])
       (Some [[\<lparr> weight = 1 / 2, pixel = 0 \<rparr>, \<lparr> weight = 1 / 2, pixel = 1 \<rparr>]]) 1 1 0 0"

definition mean_state :: resampler where
  "mean_state =
     \<lparr> m_resample_src_x = 1, m_resample_src_y = 2, m_resample_dst_x = 1, m_resample_dst_y = 1,
       m_boundary_op = BOUNDARY_CLAMP, m_lo = 0, m_hi = 8,
       m_delay_x_resample = True, m_intermediate_x = 1,
       m_Pdst_buf = Some [0], m_Ptmp_buf = Some [0],
       m_clist_x_forced = True, m_Pclist_x = Some [[\<lparr> weight = 2, pixel = 0 \<rparr>]],
       m_clist_y_forced = True,
       m_Pclist_y = Some [[\<lparr> weight = 1 / 2, pixel = 0 \<rparr>, \<lparr> weight = 1 / 2, pixel = 1 \<rparr>]],
       m_Psrc_y_count = Some [1, 1], m_Psrc_y_flag = Some [False, False],
       m_Pscan_buf = Some \<lparr> scan_buf_y = replicate MAX_SCAN_BUF_SIZE (- 1),
                              scan_buf_l = replicate MAX_SCAN_BUF_SIZE None \<rparr>,
       m_cur_src_y = 0, m_cur_dst_y = 0, m_status = STATUS_OKAY \<rparr>"

definition mean_half :: resampler where
  "mean_half =
     mean_state
       \<lparr> m_Psrc_y_flag := Some [True, False],
         m_Pscan_buf := Some \<lparr> scan_buf_y = 0 # - 1 # replicate (MAX_SCAN_BUF_SIZE - 2) (- 1),
                                scan_buf_l = Some [6] # None # replicate (MAX_SCAN_BUF_SIZE - 2) None \<rparr>,
         m_cur_src_y := 1 \<rparr>"

definition mean_ready :: resampler where
  "mean_ready =
     mean_state
       \<lparr> m_Psrc_y_flag := Some [True, True],
         m_Pscan_buf := Some \<lparr> scan_buf_y = 0 # 1 # replicate (MAX_SCAN_BUF_SIZE - 2) (- 1),
                                scan_buf_l = Some [6] # Some [4] # replicate (MAX_SCAN_BUF_SIZE - 2) None \<rparr>,
         m_cur_src_y := 2 \<rparr>"

definition mean_final :: resampler where
  "mean_final =
     mean_ready
       \<lparr> m_Pdst_buf := Some [8], m_Ptmp_buf := Some [5],
         m_Psrc_y_count := Some [0, 0], m_Psrc_y_flag := Some [False, False],
         m_Pscan_buf := Some \<lparr> scan_buf_y = - 1 # - 1 # replicate (MAX_SCAN_BUF_SIZE - 2) (- 1),
                                scan_buf_l = Some [6] # Some [4] # replicate (MAX_SCAN_BUF_SIZE - 2) None \<rparr>,
         m_cur_dst_y := 1 \<rparr>"

text \<open>
  An engine with generated lists: the box filter from two lines of two samples to one
  line of one sample, clamped into \<open>[0, 5]\<close>. Both lists are the mean of the two source
  samples. Its states after the construction and after the calls of \<open>box_calls\<close>, which
  put the constant image of value 3 and pull twice.
\<close>

definition box_engine :: "fault + resampler" where
  "box_engine =
     Resampler demo_env 2 2 1 1 BOUNDARY_CLAMP 0 5 (Some ''box'') None None 1 1 0 0"

definition box_state :: resampler where
  "box_state =
     \<lparr> m_resample_src_x = 2, m_resample_src_y = 2, m_resample_dst_x = 1, m_resample_dst_y = 1,
       m_boundary_op = BOUNDARY_CLAMP, m_lo = 0, m_hi = 5,
       m_delay_x_resample = False, m_intermediate_x = 1,
       m_Pdst_buf = Some [0], m_Ptmp_buf = None,
       m_clist_x_forced = False,
       m_Pclist_x = Some [[\<lparr> weight = 1 / 2, pixel = 0 \<rparr>, \<lparr> weight = 1 / 2, pixel = 1 \<rparr>]],
       m_clist_y_forced = False,
       m_Pclist_y = Some [[\<lparr> weight = 1 / 2, pixel = 0 \<rparr>, \<lparr> weight = 1 / 2, pixel = 1 \<rparr>]],
       m_Psrc_y_count = Some [1, 1], m_Psrc_y_flag = Some [False, False],
       m_Pscan_buf = Some \<lparr> scan_buf_y = replicate MAX_SCAN_BUF_SIZE (- 1),
                              scan_buf_l = replicate MAX_SCAN_BUF_SIZE None \<rparr>,
       m_cur_src_y = 0, m_cur_dst_y = 0, m_status = STATUS_OKAY \<rparr>"

definition box_calls :: "call list" where
  "box_calls = [Put_line True (Some [3, 3]), Put_line True (Some [3, 3]), Get_line, Get_line]"

definition box_final :: resampler where
  "box_final =
     box_state
       \<lparr> m_Pdst_buf := Some [3],
         m_Psrc_y_count := Some [0, 0],
         m_Pscan_buf := Some \<lparr> scan_buf_y = - 1 # - 1 # replicate (MAX_SCAN_BUF_SIZE - 2) (- 1),
                                scan_buf_l = Some [3] # Some [3] # replicate (MAX_SCAN_BUF_SIZE - 2) None \<rparr>,
         m_cur_src_y := 2, m_cur_dst_y := 1 \<rparr>"

section \<open>Basic facts\<close>

lemma bnd_Inr [simp]: "bnd (Inr v) f = f v" by (simp add: bnd_def)
lemma bnd_Inl [simp]: "bnd (Inl e) f = Inl e" by (simp add: bnd_def)
lemma bnd_eq_Inr: "bnd m f = Inr y \<longleftrightarrow> (\<exists>v. m = Inr v \<and> f v = Inr y)"
  by (cases m) auto

lemma posmod_range: "0 < y \<Longrightarrow> 0 \<le> posmod x y \<and> posmod x y < y"
  apply (auto simp: posmod_def Let_def smod_int_alt_def sgn_if)
  apply (smt (verit) pos_mod_bound pos_mod_sign)+
  done

lemma reflect_range: "1 \<le> src_x \<Longrightarrow> 0 \<le> reflect j src_x op \<and> reflect j src_x op < src_x"
  using posmod_range[of src_x j]
  by (auto simp: reflect_def Let_def)

lemma emit_ok_init: "emit_ok src_x op emit_init"
  by (simp add: emit_ok_def emit_init_def)

lemma emit_ok_entry: "emit_ok src_x op st \<Longrightarrow> emit_ok src_x op (emit_entry src_x op j w st)"
  by (auto simp: emit_ok_def emit_entry_def Let_def)

lemma emit_loop_ok:
  "emit_loop src_x op Pf arg nrm js st = Inr st' \<Longrightarrow> emit_ok src_x op st \<Longrightarrow> emit_ok src_x op st'"
proof (induction js arbitrary: st)
  case Nil
  then show ?case by simp
next
  case (Cons j js)
  then show ?case
    by (auto simp: bnd_eq_Inr Let_def emit_ok_entry split: if_splits)
qed

lemma sum_weight_update:
  "k < length xs \<Longrightarrow>
   sum_list (map weight (xs[k := (xs ! k) \<lparr> weight := weight (xs ! k) + d \<rparr>])) = sum_list (map weight xs) + d"
proof (induction xs arbitrary: k)
  case Nil
  then show ?case by simp
next
  case (Cons x xs)
  then show ?case by (cases k) auto
qed

lemma pixel_update:
  "p \<in> set (xs[k := (xs ! k) \<lparr> weight := w \<rparr>]) \<Longrightarrow> \<exists>q \<in> set xs. pixel p = pixel q"
proof (induction xs arbitrary: k)
  case Nil
  then show ?case by simp
next
  case (Cons x xs)
  then show ?case by (cases k) auto
qed

lemma make_row_ok:
  assumes "make_row src_x op Pf arg b = Inr (Some row)"
  shows "row_ok src_x op row"
proof -
  from assms obtain tw st where
    tw: "tw \<noteq> 0"
    and el: "emit_loop src_x op Pf (arg (center b)) (1 / tw) [left b..right b] emit_init = Inr st"
    and fin: "(if es_max_k st = - 1 \<or> length (es_p st) = 0 then Inr None
               else if es_total st \<noteq> 1 then
                 (let k = nat (es_max_k st); c = es_p st ! k
                  in Inr (Some ((es_p st)[k := c \<lparr> weight := weight c + (1 - es_total st) \<rparr>])))
               else Inr (Some (es_p st))) = Inr (Some row)"
    by (auto simp: make_row_def Let_def bnd_eq_Inr split: if_splits)
  have ok: "emit_ok src_x op st"
    using emit_loop_ok[OF el emit_ok_init] .
  from fin have k: "es_max_k st \<noteq> - 1" "es_p st \<noteq> []"
    by (auto split: if_splits)
  with ok have kr: "nat (es_max_k st) < length (es_p st)"
    by (auto simp: emit_ok_def)
  show ?thesis
  proof (cases "es_total st = 1")
    case True
    with fin k have "row = es_p st" by (auto split: if_splits)
    with ok True k show ?thesis by (auto simp: row_ok_def emit_ok_def)
  next
    case False
    with fin k have row: "row = (es_p st)[nat (es_max_k st) :=
        (es_p st ! nat (es_max_k st)) \<lparr> weight := weight (es_p st ! nat (es_max_k st)) + (1 - es_total st) \<rparr>]"
      by (auto simp: Let_def split: if_splits)
    have "sum_list (map weight row) = 1"
      using ok unfolding row by (simp add: sum_weight_update[OF kr] emit_ok_def)
    moreover have "row \<noteq> []" using k unfolding row by simp
    moreover have "\<forall>p \<in> set row. \<exists>j. pixel p = word_of_int (reflect j src_x op)"
      using ok pixel_update unfolding row emit_ok_def by metis
    ultimately show ?thesis by (simp add: row_ok_def)
  qed
qed

lemma rows_loop_all2:
  "rows_loop row bs acc = Inr (Some cl) \<Longrightarrow>
   \<exists>rs. cl = acc @ rs \<and> list_all2 (\<lambda>b r. row b = Inr (Some r)) bs rs"
proof (induction bs arbitrary: acc)
  case Nil
  then show ?case by simp
next
  case (Cons b bs)
  from Cons.prems obtain r where r: "row b = Inr (Some r)"
    and rest: "rows_loop row bs (acc @ [r]) = Inr (Some cl)"
    by (auto split: sum.splits option.splits)
  from Cons.IH[OF rest] obtain rs where "cl = (acc @ [r]) @ rs"
    "list_all2 (\<lambda>b r. row b = Inr (Some r)) bs rs" by blast
  with r show ?case by (intro exI[of _ "r # rs"]) simp
qed

lemma make_clist_rows:
  assumes "make_clist ok src_x dst_x op Pf support scale ofs = Inr (Some cl)"
  shows "\<exists>arg xscale hw. list_all2 (\<lambda>b r. make_row src_x op Pf arg b = Inr (Some r))
            (map (bounds_of xscale hw ofs) [0..dst_x - 1]) cl"
  using assms
  apply (simp add: make_clist_def Let_def split: if_splits)
   apply (drule rows_loop_all2, fastforce)
  apply (drule rows_loop_all2, fastforce)
  done

lemma make_clist_length:
  assumes "make_clist ok src_x dst_x op Pf support scale ofs = Inr (Some cl)"
  shows "length cl = nat dst_x"
proof -
  from make_clist_rows[OF assms] obtain arg xscale hw where
    "list_all2 (\<lambda>b r. make_row src_x op Pf arg b = Inr (Some r))
            (map (bounds_of xscale hw ofs) [0..dst_x - 1]) cl" by blast
  then have "length cl = length [0..dst_x - 1]"
    by (auto dest: list_all2_lengthD)
  then show ?thesis by simp
qed

lemma make_clist_row_ok:
  assumes "make_clist ok src_x dst_x op Pf support scale ofs = Inr (Some cl)" "row \<in> set cl"
  shows "row_ok src_x op row"
proof -
  from make_clist_rows[OF assms(1)] obtain arg xscale hw where
    a: "list_all2 (\<lambda>b r. make_row src_x op Pf arg b = Inr (Some r))
            (map (bounds_of xscale hw ofs) [0..dst_x - 1]) cl" by blast
  from assms(2) obtain k where "k < length cl" "row = cl ! k"
    by (auto simp: in_set_conv_nth)
  with a have "make_row src_x op Pf arg (map (bounds_of xscale hw ofs) [0..dst_x - 1] ! k) = Inr (Some row)"
    by (auto simp: list_all2_conv_all_nth)
  then show ?thesis by (rule make_row_ok)
qed

lemma bnd_InrE:
  assumes "bnd m f = Inr y"
  obtains v where "m = Inr v" "f v = Inr y"
  using assms by (auto simp: bnd_eq_Inr)

lemma rd_Inr: "rd xs i = Inr v \<longleftrightarrow> 0 \<le> i \<and> i < int (length xs) \<and> v = xs ! nat i"
  by (auto simp: rd_def)

lemma wr_Inr: "wr xs i v = Inr ys \<longleftrightarrow> 0 \<le> i \<and> i < int (length xs) \<and> ys = xs[nat i := v]"
  by (auto simp: wr_def)

lemma deref_Inr: "deref p = Inr v \<longleftrightarrow> p = Some v"
  by (auto simp: deref_def split: option.splits)

lemma assert_ptr_Inr: "assert_ptr p = Inr v \<longleftrightarrow> p = Some v"
  by (auto simp: assert_ptr_def split: option.splits)

lemma resampler_assert_Inr: "resampler_assert b = Inr u \<longleftrightarrow> b"
  by (auto simp: resampler_assert_def)

lemma range_check_Inr: "resampler_range_check v h = Inr y \<longleftrightarrow> 0 \<le> v \<and> v < h \<and> y = v"
  by (auto simp: resampler_range_check_def bnd_eq_Inr resampler_assert_Inr)

lemmas access_simps = rd_Inr wr_Inr deref_Inr assert_ptr_Inr resampler_assert_Inr range_check_Inr

section \<open>The slot search and the reference counts\<close>

lemma find_tag_le: "find_tag tags v \<le> MAX_SCAN_BUF_SIZE"
  by (auto simp: find_tag_def Let_def)

lemma find_tag_found:
  assumes "find_tag tags v < MAX_SCAN_BUF_SIZE" "length tags = MAX_SCAN_BUF_SIZE"
  shows "tags ! find_tag tags v = v"
proof -
  let ?j = "length (takeWhile (\<lambda>t. t \<noteq> v) tags)"
  from assms have j: "find_tag tags v = ?j" "?j < length tags"
    by (auto simp: find_tag_def Let_def split: if_splits)
  from nth_length_takeWhile[OF j(2)] j(1) show ?thesis by simp
qed

lemma find_tag_first:
  assumes "j < find_tag tags v" "length tags = MAX_SCAN_BUF_SIZE"
  shows "tags ! j \<noteq> v"
proof -
  let ?k = "length (takeWhile (\<lambda>t. t \<noteq> v) tags)"
  from assms have "j < ?k"
    using length_takeWhile_le[of "\<lambda>t. t \<noteq> v" tags]
    by (auto simp: find_tag_def Let_def split: if_splits)
  then show ?thesis
    using nth_mem[of j "takeWhile (\<lambda>t. t \<noteq> v) tags"] takeWhile_nth[of j "\<lambda>t. t \<noteq> v" tags]
    by (auto dest: set_takeWhileD)
qed

lemma find_tag_mem:
  assumes "v \<in> set tags" "length tags = MAX_SCAN_BUF_SIZE"
  shows "find_tag tags v < MAX_SCAN_BUF_SIZE"
proof -
  have "length (takeWhile (\<lambda>t. t \<noteq> v) tags) \<noteq> length tags"
  proof
    assume "length (takeWhile (\<lambda>t. t \<noteq> v) tags) = length tags"
    then have "takeWhile (\<lambda>t. t \<noteq> v) tags = tags"
      by (metis takeWhile_eq_take take_all order_refl)
    with assms(1) show False by (metis (mono_tags, lifting) set_takeWhileD)
  qed
  then have "length (takeWhile (\<lambda>t. t \<noteq> v) tags) < length tags"
    using length_takeWhile_le[of "\<lambda>t. t \<noteq> v" tags] by linarith
  with assms(2) show ?thesis by (simp add: find_tag_def Let_def)
qed

lemma find_tag_none:
  assumes "v \<notin> set tags" "length tags = MAX_SCAN_BUF_SIZE"
  shows "find_tag tags v = MAX_SCAN_BUF_SIZE"
  using assms find_tag_found[of tags v] find_tag_le[of tags v]
  by (metis le_neq_implies_less nth_mem)

lemma refs_Cons_Cons:
  "refs ((p # ps) # rows) y = (if uint (pixel p) = y then 1 else 0) + refs (ps # rows) y"
  by (simp add: refs_def)

lemma refs_Nil_Cons: "refs ([] # row # rows) y = refs (row # rows) y"
  by (simp add: refs_def)

lemma refs_nonneg: "0 \<le> refs rows y"
  by (simp add: refs_def)

section \<open>Frames\<close>

lemma frame_refl: "frame s s" by (simp add: frame_def)

lemma frame_trans: "frame s s' \<Longrightarrow> frame s' s'' \<Longrightarrow> frame s s''"
  unfolding frame_def
  by (cases s; cases s'; cases s'') simp

lemma ry_step_frame: "ry_step first p ts = Inr ts' \<Longrightarrow> frame (snd ts) (snd ts')"
  unfolding ry_step_def Let_def frame_def
  by (auto split: if_splits elim!: bnd_InrE)

lemma frame_fields:
  assumes "frame s s'"
  shows "m_resample_src_x s' = m_resample_src_x s" "m_resample_src_y s' = m_resample_src_y s"
    "m_resample_dst_x s' = m_resample_dst_x s" "m_resample_dst_y s' = m_resample_dst_y s"
    "m_Pclist_y s' = m_Pclist_y s" "m_Pclist_x s' = m_Pclist_x s"
    "m_Pdst_buf s' = m_Pdst_buf s" "m_Ptmp_buf s' = m_Ptmp_buf s"
    "m_delay_x_resample s' = m_delay_x_resample s" "m_intermediate_x s' = m_intermediate_x s"
    "m_cur_src_y s' = m_cur_src_y s" "m_cur_dst_y s' = m_cur_dst_y s"
    "m_status s' = m_status s" "m_lo s' = m_lo s" "m_hi s' = m_hi s"
    "y_rows s' = y_rows s"
proof -
  from assms have e: "s' = s \<lparr> m_Psrc_y_count := m_Psrc_y_count s', m_Psrc_y_flag := m_Psrc_y_flag s',
               m_Pscan_buf := m_Pscan_buf s' \<rparr>" by (simp add: frame_def)
  show "m_resample_src_x s' = m_resample_src_x s" by (subst e) simp
  show "m_resample_src_y s' = m_resample_src_y s" by (subst e) simp
  show "m_resample_dst_x s' = m_resample_dst_x s" by (subst e) simp
  show dy: "m_resample_dst_y s' = m_resample_dst_y s" by (subst e) simp
  show cy: "m_Pclist_y s' = m_Pclist_y s" by (subst e) simp
  show "m_Pclist_x s' = m_Pclist_x s" by (subst e) simp
  show "m_Pdst_buf s' = m_Pdst_buf s" by (subst e) simp
  show "m_Ptmp_buf s' = m_Ptmp_buf s" by (subst e) simp
  show "m_delay_x_resample s' = m_delay_x_resample s" by (subst e) simp
  show "m_intermediate_x s' = m_intermediate_x s" by (subst e) simp
  show "m_cur_src_y s' = m_cur_src_y s" by (subst e) simp
  show "m_cur_dst_y s' = m_cur_dst_y s" by (subst e) simp
  show "m_status s' = m_status s" by (subst e) simp
  show "m_lo s' = m_lo s" by (subst e) simp
  show "m_hi s' = m_hi s" by (subst e) simp
  show "y_rows s' = y_rows s" by (simp add: y_rows_def dy cy cong: option.case_cong)
qed

lemma frame_static: "frame s s' \<Longrightarrow> static_ok s \<Longrightarrow> static_ok s'"
  by (simp add: static_ok_def frame_fields cong: option.case_cong if_cong)

section \<open>One turn of the contributor loop\<close>

lemma uint_less_int: "uint (w :: 16 word) < int n \<longleftrightarrow> unat w < n"
  by (metis nat_int nat_less_iff uint_nonnegative unat_eq_nat_uint zless_nat_eq_int_zless int_nat_eq)

lemma ry_step_common:
  assumes "ry_step first p ts = Inr ts'"
  shows "\<exists>buf count.
     m_Pscan_buf (snd ts) = Some buf \<and> m_Psrc_y_count (snd ts) = Some count \<and>
     find_tag (scan_buf_y buf) (uint (pixel p)) < MAX_SCAN_BUF_SIZE \<and>
     find_tag (scan_buf_y buf) (uint (pixel p)) < length (scan_buf_l buf) \<and>
     unat (pixel p) < length count \<and> uint (pixel p) < m_resample_src_y (snd ts) \<and>
     m_Psrc_y_count (snd ts') = Some (count[unat (pixel p) := count ! unat (pixel p) - 1])"
  using assms unfolding ry_step_def Let_def
  by (auto split: if_splits elim!: bnd_InrE simp: access_simps uint_less_int)

lemma ry_step_last:
  assumes "ry_step first p ts = Inr ts'" "m_Psrc_y_count (snd ts) = Some count"
    "count ! unat (pixel p) = 1"
  shows "\<exists>buf flag.
     m_Pscan_buf (snd ts) = Some buf \<and> m_Psrc_y_flag (snd ts) = Some flag \<and>
     unat (pixel p) < length flag \<and>
     find_tag (scan_buf_y buf) (uint (pixel p)) < length (scan_buf_y buf) \<and>
     m_Psrc_y_flag (snd ts') = Some (flag[unat (pixel p) := False]) \<and>
     m_Pscan_buf (snd ts') = Some (buf \<lparr> scan_buf_y :=
                (scan_buf_y buf)[find_tag (scan_buf_y buf) (uint (pixel p)) := - 1] \<rparr>)"
  using assms unfolding ry_step_def Let_def
  by (auto split: if_splits elim!: bnd_InrE simp: access_simps uint_less_int)

lemma ry_step_more:
  assumes "ry_step first p ts = Inr ts'" "m_Psrc_y_count (snd ts) = Some count"
    "count ! unat (pixel p) \<noteq> 1"
  shows "m_Psrc_y_flag (snd ts') = m_Psrc_y_flag (snd ts) \<and>
         m_Pscan_buf (snd ts') = m_Pscan_buf (snd ts)"
  using assms unfolding ry_step_def Let_def
  by (auto split: if_splits elim!: bnd_InrE simp: access_simps uint_less_int)

lemma ry_step_tmp:
  assumes "ry_step first p ts = Inr ts'"
  shows "if m_intermediate_x (snd ts) \<le> 0 then fst ts' = fst ts
      else \<exists>buf src. m_Pscan_buf (snd ts) = Some buf \<and>
             scan_buf_l buf ! find_tag (scan_buf_y buf) (uint (pixel p)) = Some src \<and>
             (if first then scale_y_mov (fst ts) src (weight p) (m_intermediate_x (snd ts))
              else scale_y_add (fst ts) src (weight p) (m_intermediate_x (snd ts))) = Inr (fst ts')"
  using assms unfolding ry_step_def Let_def
  by (auto split: if_splits elim!: bnd_InrE simp: access_simps uint_less_int)

lemma uint_eq_int: "uint (w :: 16 word) = int y \<longleftrightarrow> unat w = y"
  by (metis int_nat_eq nat_int uint_nonnegative unat_eq_nat_uint)

lemma ry_step_counts:
  assumes "ry_step first p ts = Inr ts'" "counts_ok (p # ps) d (snd ts)"
  shows "counts_ok ps d (snd ts')"
proof -
  have yr: "y_rows (snd ts') = y_rows (snd ts)" "m_resample_src_y (snd ts') = m_resample_src_y (snd ts)"
    using frame_fields[OF ry_step_frame[OF assms(1)]] by simp_all
  from ry_step_common[OF assms(1)] obtain count where
    c: "m_Psrc_y_count (snd ts) = Some count"
    and y: "unat (pixel p) < length count"
    and c': "m_Psrc_y_count (snd ts') = Some (count[unat (pixel p) := count ! unat (pixel p) - 1])"
    by auto
  from assms(2) c have len: "length count = nat (m_resample_src_y (snd ts))"
    and cnt: "\<And>y. y < length count \<Longrightarrow> count ! y = refs ((p # ps) # drop d (y_rows (snd ts))) (int y)"
    by (auto simp: counts_ok_def)
  have "count[unat (pixel p) := count ! unat (pixel p) - 1] ! y
          = refs (ps # drop d (y_rows (snd ts))) (int y)" if "y < length count" for y
    using cnt[OF that] that
    by (cases "y = unat (pixel p)") (simp_all add: refs_Cons_Cons uint_eq_int)
  then show ?thesis
    unfolding counts_ok_def c' yr using len by simp
qed

lemma counts_ok_pending:
  assumes "counts_ok (p # ps) d s" "m_Psrc_y_count s = Some count" "unat (pixel p) < length count"
  shows "1 \<le> count ! unat (pixel p)"
proof -
  from assms have "count ! unat (pixel p) = refs ((p # ps) # drop d (y_rows s)) (int (unat (pixel p)))"
    by (auto simp: counts_ok_def)
  then show ?thesis
    using refs_nonneg[of "ps # drop d (y_rows s)" "uint (pixel p)"]
    by (simp add: refs_Cons_Cons)
qed

lemma ry_step_flags:
  assumes "ry_step first p ts = Inr ts'" "counts_ok (p # ps) d (snd ts)" "flags_ok (snd ts)"
    and "uint (pixel p) < m_cur_src_y (snd ts)"
  shows "flags_ok (snd ts')"
proof -
  note ff = frame_fields[OF ry_step_frame[OF assms(1)]]
  from ry_step_common[OF assms(1)] obtain count where
    c: "m_Psrc_y_count (snd ts) = Some count"
    and y: "unat (pixel p) < length count"
    and c': "m_Psrc_y_count (snd ts') = Some (count[unat (pixel p) := count ! unat (pixel p) - 1])"
    by auto
  from counts_ok_pending[OF assms(2) c y] have c1: "1 \<le> count ! unat (pixel p)" .
  from assms(3) c obtain flag where
    f: "m_Psrc_y_flag (snd ts) = Some flag"
    and fl: "length flag = nat (m_resample_src_y (snd ts))" "length count = nat (m_resample_src_y (snd ts))"
    and fi: "\<And>y. y < length flag \<Longrightarrow> flag ! y \<longleftrightarrow> (int y < m_cur_src_y (snd ts) \<and> count ! y \<noteq> 0)"
    and cur: "0 \<le> m_cur_src_y (snd ts)" "m_cur_src_y (snd ts) \<le> m_resample_src_y (snd ts)"
    by (auto simp: flags_ok_def split: option.splits)
  have py: "int (unat (pixel p)) < m_cur_src_y (snd ts)"
    using assms(4) by simp
  show ?thesis
  proof (cases "count ! unat (pixel p) = 1")
    case True
    from ry_step_last[OF assms(1) c True] f
    have f': "m_Psrc_y_flag (snd ts') = Some (flag[unat (pixel p) := False])" by auto
    have "flag[unat (pixel p) := False] ! y \<longleftrightarrow>
            (int y < m_cur_src_y (snd ts) \<and> count[unat (pixel p) := count ! unat (pixel p) - 1] ! y \<noteq> 0)"
      if "y < length flag" for y
      using fi[OF that] that fl True
      by (cases "y = unat (pixel p)") simp_all
    then show ?thesis
      unfolding flags_ok_def ff c' f' using fl cur by simp
  next
    case False
    from ry_step_more[OF assms(1) c False] f
    have f': "m_Psrc_y_flag (snd ts') = Some flag" by auto
    have "flag ! y \<longleftrightarrow>
            (int y < m_cur_src_y (snd ts) \<and> count[unat (pixel p) := count ! unat (pixel p) - 1] ! y \<noteq> 0)"
      if "y < length flag" for y
      using fi[OF that] that fl False c1 py
      by (cases "y = unat (pixel p)") simp_all
    then show ?thesis
      unfolding flags_ok_def ff c' f' using fl cur by simp
  qed
qed

lemma pool_okD:
  assumes "pool_ok s" "m_Pscan_buf s = Some buf" "m_Psrc_y_flag s = Some flag"
  shows "length (scan_buf_y buf) = MAX_SCAN_BUF_SIZE"
    and "length (scan_buf_l buf) = MAX_SCAN_BUF_SIZE"
    and "\<And>j. j < MAX_SCAN_BUF_SIZE \<Longrightarrow> scan_buf_y buf ! j \<noteq> - 1 \<Longrightarrow>
             0 \<le> scan_buf_y buf ! j \<and> scan_buf_y buf ! j < int (length flag) \<and>
             flag ! nat (scan_buf_y buf ! j) \<and> scan_buf_l buf ! j \<noteq> None"
    and "\<And>j j'. j < MAX_SCAN_BUF_SIZE \<Longrightarrow> j' < MAX_SCAN_BUF_SIZE \<Longrightarrow>
             scan_buf_y buf ! j \<noteq> - 1 \<Longrightarrow> scan_buf_y buf ! j' = scan_buf_y buf ! j \<Longrightarrow> j' = j"
    and "\<And>y. y < length flag \<Longrightarrow> flag ! y \<Longrightarrow> int y \<in> set (scan_buf_y buf)"
    and "\<And>line. Some line \<in> set (scan_buf_l buf) \<Longrightarrow> length line = nat (m_intermediate_x s)"
  using assms unfolding pool_ok_def
  by (simp_all split: option.splits)

lemma pool_okI:
  assumes "m_Pscan_buf s = Some buf" "m_Psrc_y_flag s = Some flag"
    and "length (scan_buf_y buf) = MAX_SCAN_BUF_SIZE"
    and "length (scan_buf_l buf) = MAX_SCAN_BUF_SIZE"
    and "\<And>j. j < MAX_SCAN_BUF_SIZE \<Longrightarrow> scan_buf_y buf ! j \<noteq> - 1 \<Longrightarrow>
             0 \<le> scan_buf_y buf ! j \<and> scan_buf_y buf ! j < int (length flag) \<and>
             flag ! nat (scan_buf_y buf ! j) \<and> scan_buf_l buf ! j \<noteq> None"
    and "\<And>j j'. j < MAX_SCAN_BUF_SIZE \<Longrightarrow> j' < MAX_SCAN_BUF_SIZE \<Longrightarrow>
             scan_buf_y buf ! j \<noteq> - 1 \<Longrightarrow> scan_buf_y buf ! j' = scan_buf_y buf ! j \<Longrightarrow> j' = j"
    and "\<And>y. y < length flag \<Longrightarrow> flag ! y \<Longrightarrow> int y \<in> set (scan_buf_y buf)"
    and "\<And>line. Some line \<in> set (scan_buf_l buf) \<Longrightarrow> length line = nat (m_intermediate_x s)"
  shows "pool_ok s"
  unfolding pool_ok_def using assms
  by (auto split: option.splits)


lemma ry_step_pool:
  assumes step: "ry_step first p ts = Inr ts'" and pool: "pool_ok (snd ts)"
  shows "pool_ok (snd ts')"
proof -
  note ff = frame_fields[OF ry_step_frame[OF step]]
  from ry_step_common[OF step] obtain buf count where
    b: "m_Pscan_buf (snd ts) = Some buf"
    and c: "m_Psrc_y_count (snd ts) = Some count"
    and j: "find_tag (scan_buf_y buf) (uint (pixel p)) < MAX_SCAN_BUF_SIZE"
    by auto
  from pool b obtain flag where f: "m_Psrc_y_flag (snd ts) = Some flag"
    by (auto simp: pool_ok_def split: option.splits)
  note P = pool_okD[OF pool b f]
  let ?j = "find_tag (scan_buf_y buf) (uint (pixel p))"
  let ?y = "unat (pixel p)"
  have tj: "scan_buf_y buf ! ?j = uint (pixel p)"
    using find_tag_found[OF j P(1)] .
  show ?thesis
  proof (cases "count ! ?y = 1")
    case False
    from ry_step_more[OF step c False] have
      "m_Psrc_y_flag (snd ts') = m_Psrc_y_flag (snd ts)" "m_Pscan_buf (snd ts') = m_Pscan_buf (snd ts)"
      by auto
    with pool show ?thesis by (simp add: pool_ok_def ff cong: option.case_cong)
  next
    case True
    from ry_step_last[OF step c True] b f have
      yl: "?y < length flag"
      and f': "m_Psrc_y_flag (snd ts') = Some (flag[?y := False])"
      and b': "m_Pscan_buf (snd ts') = Some (buf \<lparr> scan_buf_y := (scan_buf_y buf)[?j := - 1] \<rparr>)"
      by auto
    let ?tags' = "(scan_buf_y buf)[?j := - 1]"
    have neq: "scan_buf_y buf ! i \<noteq> uint (pixel p)" if "i < MAX_SCAN_BUF_SIZE" "i \<noteq> ?j" for i
    proof
      assume "scan_buf_y buf ! i = uint (pixel p)"
      then have "scan_buf_y buf ! i = scan_buf_y buf ! ?j" using tj by simp
      moreover have "scan_buf_y buf ! ?j \<noteq> - 1"
        using tj uint_nonnegative[of "pixel p"] by linarith
      ultimately have "i = ?j" using P(4)[OF j that(1)] by simp
      with that(2) show False by simp
    qed
    show ?thesis
    proof (rule pool_okI[OF b' f'])
      show "length (scan_buf_y (buf \<lparr> scan_buf_y := ?tags' \<rparr>)) = MAX_SCAN_BUF_SIZE"
        using P(1) by simp
      show "length (scan_buf_l (buf \<lparr> scan_buf_y := ?tags' \<rparr>)) = MAX_SCAN_BUF_SIZE"
        using P(2) by simp
    next
      fix i assume i: "i < MAX_SCAN_BUF_SIZE"
        and t: "scan_buf_y (buf \<lparr> scan_buf_y := ?tags' \<rparr>) ! i \<noteq> - 1"
      from i t P(1) have ij: "i \<noteq> ?j" by (auto simp: nth_list_update)
      with i t P(1) have t0: "scan_buf_y buf ! i \<noteq> - 1" by (simp add: nth_list_update)
      from P(3)[OF i t0] have a: "0 \<le> scan_buf_y buf ! i" "scan_buf_y buf ! i < int (length flag)"
        "flag ! nat (scan_buf_y buf ! i)" "scan_buf_l buf ! i \<noteq> None" by auto
      have "nat (scan_buf_y buf ! i) \<noteq> ?y"
        using neq[OF i ij] a(1) by (metis int_nat_eq uint_eq_int nat_int)
      with a ij i P(1)
      show "0 \<le> scan_buf_y (buf \<lparr> scan_buf_y := ?tags' \<rparr>) ! i \<and>
            scan_buf_y (buf \<lparr> scan_buf_y := ?tags' \<rparr>) ! i < int (length (flag[?y := False])) \<and>
            flag[?y := False] ! nat (scan_buf_y (buf \<lparr> scan_buf_y := ?tags' \<rparr>) ! i) \<and>
            scan_buf_l (buf \<lparr> scan_buf_y := ?tags' \<rparr>) ! i \<noteq> None"
        by (simp add: nth_list_update)
    next
      fix i i' assume i: "i < MAX_SCAN_BUF_SIZE" "i' < MAX_SCAN_BUF_SIZE"
        and t: "scan_buf_y (buf \<lparr> scan_buf_y := ?tags' \<rparr>) ! i \<noteq> - 1"
        and e: "scan_buf_y (buf \<lparr> scan_buf_y := ?tags' \<rparr>) ! i' = scan_buf_y (buf \<lparr> scan_buf_y := ?tags' \<rparr>) ! i"
      from i t P(1) have ij: "i \<noteq> ?j" by (auto simp: nth_list_update)
      with i t P(1) have t0: "scan_buf_y buf ! i \<noteq> - 1" by (simp add: nth_list_update)
      from e t i P(1) have i'j: "i' \<noteq> ?j" by (auto simp: nth_list_update)
      from e ij i'j i P(1) have "scan_buf_y buf ! i' = scan_buf_y buf ! i" by (simp add: nth_list_update)
      with P(4)[OF i t0] show "i' = i" by simp
    next
      fix y assume y: "y < length (flag[?y := False])" and fy: "flag[?y := False] ! y"
      then have yy: "y \<noteq> ?y" "y < length flag" "flag ! y"
        by (cases "y = ?y"; simp)+
      from P(5)[OF yy(2,3)] obtain i where i: "i < length (scan_buf_y buf)" "scan_buf_y buf ! i = int y"
        by (auto simp: in_set_conv_nth)
      have "i \<noteq> ?j" using i(2) tj yy(1) by (auto simp: uint_eq_int)
      with i have "?tags' ! i = int y" "i < length ?tags'" by simp_all
      then show "int y \<in> set (scan_buf_y (buf \<lparr> scan_buf_y := ?tags' \<rparr>))"
        by (metis nth_mem scan_buf.select_convs(1) scan_buf.surjective scan_buf.update_convs(1))
    next
      fix line assume "Some line \<in> set (scan_buf_l (buf \<lparr> scan_buf_y := ?tags' \<rparr>))"
      then show "length line = nat (m_intermediate_x (snd ts'))"
        using P(6) by (simp add: ff)
    qed
  qed
qed

lemma scale_y_mov_length:
  "scale_y_mov tmp src w n = Inr tmp' \<Longrightarrow> length tmp' = length tmp"
  by (auto simp: scale_y_mov_def split: if_splits)

lemma scale_y_add_length:
  "scale_y_add tmp src w n = Inr tmp' \<Longrightarrow> length tmp' = length tmp"
  by (auto simp: scale_y_add_def split: if_splits)

lemma ry_step_tmp_length:
  assumes "ry_step first p ts = Inr ts'"
  shows "length (fst ts') = length (fst ts)"
  using ry_step_tmp[OF assms]
  by (auto split: if_splits dest: scale_y_mov_length scale_y_add_length)

lemma ry_step_inv:
  assumes "ry_step first p ts = Inr ts'" "loop_inv (p # ps) d ts"
  shows "loop_inv ps d ts'"
proof -
  note ff = frame_fields[OF ry_step_frame[OF assms(1)]]
  from assms(2) have a: "static_ok (snd ts)" "counts_ok (p # ps) d (snd ts)" "flags_ok (snd ts)"
    "pool_ok (snd ts)" "\<forall>q \<in> set (p # ps). uint (pixel q) < m_cur_src_y (snd ts)"
    "length (fst ts) = nat (m_intermediate_x (snd ts))"
    by (auto simp: loop_inv_def)
  have "static_ok (snd ts')"
    using frame_static[OF ry_step_frame[OF assms(1)] a(1)] .
  moreover have "counts_ok ps d (snd ts')"
    using ry_step_counts[OF assms(1) a(2)] .
  moreover have "flags_ok (snd ts')"
    using ry_step_flags[OF assms(1) a(2) a(3)] a(5) by simp
  moreover have "pool_ok (snd ts')"
    using ry_step_pool[OF assms(1) a(4)] .
  moreover have "\<forall>q \<in> set ps. uint (pixel q) < m_cur_src_y (snd ts')"
    using a(5) by (simp add: ff)
  moreover have "length (fst ts') = nat (m_intermediate_x (snd ts'))"
    using ry_step_tmp_length[OF assms(1)] a(6) by (simp add: ff)
  ultimately show ?thesis by (simp add: loop_inv_def)
qed

lemma ry_step_total:
  assumes "loop_inv (p # ps) d ts"
  shows "\<exists>ts'. ry_step first p ts = Inr ts'"
proof -
  let ?s = "snd ts"
  let ?y = "unat (pixel p)"
  from assms have a: "static_ok ?s" "counts_ok (p # ps) d ?s" "flags_ok ?s"
    "pool_ok ?s" "uint (pixel p) < m_cur_src_y ?s"
    "length (fst ts) = nat (m_intermediate_x ?s)"
    by (auto simp: loop_inv_def)
  from a(3) obtain count flag where
    c: "m_Psrc_y_count ?s = Some count" and f: "m_Psrc_y_flag ?s = Some flag"
    and fl: "length flag = nat (m_resample_src_y ?s)" "length count = nat (m_resample_src_y ?s)"
    and fi: "\<And>y. y < length flag \<Longrightarrow> flag ! y \<longleftrightarrow> (int y < m_cur_src_y ?s \<and> count ! y \<noteq> 0)"
    and cur: "0 \<le> m_cur_src_y ?s" "m_cur_src_y ?s \<le> m_resample_src_y ?s"
    by (auto simp: flags_ok_def split: option.splits)
  from a(4) f obtain buf where b: "m_Pscan_buf ?s = Some buf"
    by (auto simp: pool_ok_def split: option.splits)
  note P = pool_okD[OF a(4) b f]
  have ylt: "uint (pixel p) < m_resample_src_y ?s" using a(5) cur by linarith
  then have "uint (pixel p) < int (nat (m_resample_src_y ?s))"
    using cur by simp
  then have yl: "?y < length count" "?y < length flag"
    using fl by (simp_all only: uint_less_int)
  from counts_ok_pending[OF a(2) c yl(1)] have c1: "1 \<le> count ! ?y" .
  have "flag ! ?y" using fi[OF yl(2)] a(5) c1 by simp
  from P(5)[OF yl(2) this] have mem: "uint (pixel p) \<in> set (scan_buf_y buf)" by simp
  let ?j = "find_tag (scan_buf_y buf) (uint (pixel p))"
  have j: "?j < MAX_SCAN_BUF_SIZE" using find_tag_mem[OF mem P(1)] .
  have tj: "scan_buf_y buf ! ?j = uint (pixel p)" using find_tag_found[OF j P(1)] .
  then have "scan_buf_y buf ! ?j \<noteq> - 1" using uint_nonnegative[of "pixel p"] by linarith
  from P(3)[OF j this] obtain src where src: "scan_buf_l buf ! ?j = Some src" by auto
  have "Some src \<in> set (scan_buf_l buf)"
    using src j P(2) by (metis nth_mem)
  from P(6)[OF this] have sl: "length src = nat (m_intermediate_x ?s)" .
  have sc: "\<exists>t. (if first then scale_y_mov (fst ts) src (weight p) (m_intermediate_x ?s)
                   else scale_y_add (fst ts) src (weight p) (m_intermediate_x ?s)) = Inr t"
    using sl a(6) by (auto simp: scale_y_mov_def scale_y_add_def)
  then obtain t where t: "(if first then scale_y_mov (fst ts) src (weight p) (m_intermediate_x ?s)
                   else scale_y_add (fst ts) src (weight p) (m_intermediate_x ?s)) = Inr t" by blast
  show ?thesis
    unfolding ry_step_def Let_def
    using b c f j src t ylt yl P(1) P(2)
    by (simp add: deref_def resampler_assert_def rd_def wr_def resampler_range_check_def
          uint_less_int)
qed

section \<open>The contributor loop\<close>

lemma ry_loop_frame: "ry_loop first ps ts = Inr ts' \<Longrightarrow> frame (snd ts) (snd ts')"
proof (induction ps arbitrary: first ts)
  case Nil
  then show ?case by (simp add: frame_refl)
next
  case (Cons p ps)
  from Cons.prems obtain t1 where s: "ry_step first p ts = Inr t1" and l: "ry_loop False ps t1 = Inr ts'"
    by (auto elim!: bnd_InrE)
  from frame_trans[OF ry_step_frame[OF s] Cons.IH[OF l]] show ?case .
qed

lemma ry_loop_inv:
  "ry_loop first ps ts = Inr ts' \<Longrightarrow> loop_inv ps d ts \<Longrightarrow> loop_inv [] d ts'"
proof (induction ps arbitrary: first ts)
  case Nil
  then show ?case by simp
next
  case (Cons p ps)
  from Cons.prems(1) obtain t1 where s: "ry_step first p ts = Inr t1" and l: "ry_loop False ps t1 = Inr ts'"
    by (auto elim!: bnd_InrE)
  from Cons.IH[OF l ry_step_inv[OF s Cons.prems(2)]] show ?case .
qed

lemma ry_loop_total:
  "loop_inv ps d ts \<Longrightarrow> \<exists>ts'. ry_loop first ps ts = Inr ts'"
proof (induction ps arbitrary: first ts)
  case Nil
  then show ?case by simp
next
  case (Cons p ps)
  from ry_step_total[OF Cons.prems] obtain t1 where s: "ry_step first p ts = Inr t1" by blast
  from Cons.IH[OF ry_step_inv[OF s Cons.prems]] obtain ts' where "ry_loop False ps t1 = Inr ts'" by blast
  with s show ?case by simp
qed

lemma ry_loop_tmp_length: "ry_loop first ps ts = Inr ts' \<Longrightarrow> length (fst ts') = length (fst ts)"
proof (induction ps arbitrary: first ts)
  case Nil
  then show ?case by simp
next
  case (Cons p ps)
  from Cons.prems obtain t1 where s: "ry_step first p ts = Inr t1" and l: "ry_loop False ps t1 = Inr ts'"
    by (auto elim!: bnd_InrE)
  from Cons.IH[OF l] ry_step_tmp_length[OF s] show ?case by simp
qed

lemma wr_length: "wr xs i v = Inr ys \<Longrightarrow> length ys = length xs"
  by (auto simp: wr_Inr)

lemma resample_x_loop_length:
  "resample_x_loop Pclist Psrc is Pdst = Inr Pdst' \<Longrightarrow> length Pdst' = length Pdst"
proof (induction "is" arbitrary: Pdst)
  case Nil
  then show ?case by simp
next
  case (Cons i "is")
  from Cons.prems obtain d1 v where "wr Pdst i v = Inr d1" "resample_x_loop Pclist Psrc is d1 = Inr Pdst'"
    by (auto elim!: bnd_InrE)
  with Cons.IH[of d1] show ?case by (simp add: wr_length)
qed

lemma resample_x_length:
  "resample_x s Pdst Psrc = Inr dst' \<Longrightarrow> \<exists>dst. Pdst = Some dst \<and> length dst' = length dst"
  unfolding resample_x_def
  by (auto elim!: bnd_InrE simp: access_simps split: if_splits dest: resample_x_loop_length)

lemma clamp_length: "clamp s dst n = Inr dst' \<Longrightarrow> length dst' = length dst"
  by (auto simp: clamp_def split: if_splits)

lemma present_loop_True:
  "present_loop s ps = Inr True \<Longrightarrow> m_Psrc_y_flag s = Some flag \<Longrightarrow>
   \<forall>p \<in> set ps. unat (pixel p) < length flag \<and> flag ! unat (pixel p)"
proof (induction ps)
  case Nil
  then show ?case by simp
next
  case (Cons p ps)
  from Cons.prems have "unat (pixel p) < length flag \<and> flag ! unat (pixel p)"
    and "present_loop s ps = Inr True"
    by (auto elim!: bnd_InrE simp: access_simps uint_less_int split: if_splits)
  with Cons.IH Cons.prems(2) show ?case by simp
qed

lemma counts_ok_start:
  assumes "counts_ok [] d s" "d < length (y_rows s)"
  shows "counts_ok (y_rows s ! d) (Suc d) s"
proof -
  have "drop d (y_rows s) = y_rows s ! d # drop (Suc d) (y_rows s)"
    using assms(2) by (simp add: Cons_nth_drop_Suc)
  then have "refs ([] # drop d (y_rows s)) y = refs (y_rows s ! d # drop (Suc d) (y_rows s)) y" for y
    by (simp add: refs_def)
  with assms(1) show ?thesis by (auto simp: counts_ok_def split: option.splits)
qed

section \<open>The vertical pass\<close>

lemma tmp_buf_same: "m_Ptmp_buf r = v \<Longrightarrow> r \<lparr> m_Ptmp_buf := v \<rparr> = r"
  by auto

lemma resample_y_post:
  assumes "resample_y s = Inr s'"
  shows "\<exists>cly row tmp ts dst.
     m_Pclist_y s = Some cly \<and> rd cly (m_cur_dst_y s) = Inr row \<and>
     (if m_delay_x_resample s then m_Ptmp_buf s else m_Pdst_buf s) = Some tmp \<and>
     ry_loop True row (tmp, s) = Inr ts \<and>
     s' = (snd ts) \<lparr> m_Ptmp_buf := (if m_delay_x_resample s then Some (fst ts) else m_Ptmp_buf s),
                      m_Pdst_buf := Some dst \<rparr> \<and>
     (if m_delay_x_resample s then \<exists>d0. m_Pdst_buf s = Some d0 \<and> length dst = length d0
      else length dst = length (fst ts))"
proof -
  from assms obtain cly row tmp ts s2 where
    a: "m_Pclist_y s = Some cly" "rd cly (m_cur_dst_y s) = Inr row"
      "(if m_delay_x_resample s then m_Ptmp_buf s else m_Pdst_buf s) = Some tmp"
      "ry_loop True row (tmp, s) = Inr ts"
    and b: "(if m_delay_x_resample s then
            bnd (resample_x (snd ts) (m_Pdst_buf s) (Some (fst ts))) (\<lambda>dst.
              Inr ((snd ts) \<lparr> m_Ptmp_buf := Some (fst ts), m_Pdst_buf := Some dst \<rparr>))
          else Inr ((snd ts) \<lparr> m_Pdst_buf := Some (fst ts) \<rparr>)) = Inr s2"
    and c: "(if m_lo s2 < m_hi s2 then
         bnd (deref (m_Pdst_buf s2)) (\<lambda>dst.
         bnd (clamp s2 dst (m_resample_dst_x s2)) (\<lambda>dst'.
           Inr (s2 \<lparr> m_Pdst_buf := Some dst' \<rparr>)))
       else Inr s2) = Inr s'"
    unfolding resample_y_def
    by (auto elim!: bnd_InrE simp: access_simps)
  note ff = frame_fields[OF ry_loop_frame[OF a(4)], simplified]
  from b obtain d1 where
    s2: "s2 = (snd ts) \<lparr> m_Ptmp_buf := (if m_delay_x_resample s then Some (fst ts) else m_Ptmp_buf s),
                      m_Pdst_buf := Some d1 \<rparr>"
    and l1: "(if m_delay_x_resample s then \<exists>d0. m_Pdst_buf s = Some d0 \<and> length d1 = length d0
      else length d1 = length (fst ts))"
    using ff(8)
    by (auto elim!: bnd_InrE split: if_splits dest!: resample_x_length simp: tmp_buf_same)
  from c s2 obtain d2 where
    d2: "s' = (snd ts) \<lparr> m_Ptmp_buf := (if m_delay_x_resample s then Some (fst ts) else m_Ptmp_buf s),
                      m_Pdst_buf := Some d2 \<rparr>" "length d2 = length d1"
    by (auto elim!: bnd_InrE split: if_splits simp: access_simps dest!: clamp_length)
  show ?thesis
    apply (rule exI[of _ cly])
    apply (rule exI[of _ row])
    apply (rule exI[of _ tmp])
    apply (rule exI[of _ ts])
    apply (rule exI[of _ d2])
    using a l1 d2 by (simp split: if_splits)
qed

lemma buf_update_preds:
  "y_rows (s \<lparr> m_Ptmp_buf := a, m_Pdst_buf := b \<rparr>) = y_rows s"
  "counts_ok pend d (s \<lparr> m_Ptmp_buf := a, m_Pdst_buf := b \<rparr>) = counts_ok pend d s"
  "flags_ok (s \<lparr> m_Ptmp_buf := a, m_Pdst_buf := b \<rparr>) = flags_ok s"
  "pool_ok (s \<lparr> m_Ptmp_buf := a, m_Pdst_buf := b \<rparr>) = pool_ok s"
  by (simp_all add: y_rows_def counts_ok_def flags_ok_def pool_ok_def cong: option.case_cong)

lemma cur_dst_update_preds:
  "y_rows (s \<lparr> m_cur_dst_y := v \<rparr>) = y_rows s"
  "counts_ok pend d (s \<lparr> m_cur_dst_y := v \<rparr>) = counts_ok pend d s"
  "flags_ok (s \<lparr> m_cur_dst_y := v \<rparr>) = flags_ok s"
  "pool_ok (s \<lparr> m_cur_dst_y := v \<rparr>) = pool_ok s"
  "static_ok (s \<lparr> m_cur_dst_y := v \<rparr>) = static_ok s"
  by (simp_all add: y_rows_def counts_ok_def flags_ok_def pool_ok_def static_ok_def
        cong: option.case_cong if_cong)

lemma static_ok_bufs:
  assumes "static_ok s" "length dst = nat (m_resample_dst_x s)"
    "m_delay_x_resample s \<Longrightarrow> \<exists>t. a = Some t \<and> length t = nat (m_resample_src_x s)"
  shows "static_ok (s \<lparr> m_Ptmp_buf := a, m_Pdst_buf := Some dst \<rparr>)"
  using assms by (auto simp: static_ok_def y_rows_def cong: option.case_cong)

lemma y_rows_nth:
  assumes "m_Pclist_y s = Some cly" "rd cly c = Inr row" "c < m_resample_dst_y s"
  shows "y_rows s ! nat c = row"
  using assms by (auto simp: y_rows_def rd_Inr)

lemma flags_okE:
  assumes "flags_ok s"
  obtains count flag where
    "m_Psrc_y_count s = Some count" "m_Psrc_y_flag s = Some flag"
    "length flag = nat (m_resample_src_y s)" "length count = nat (m_resample_src_y s)"
    "\<And>y. y < length flag \<Longrightarrow> flag ! y \<longleftrightarrow> (int y < m_cur_src_y s \<and> count ! y \<noteq> 0)"
    "0 \<le> m_cur_src_y s" "m_cur_src_y s \<le> m_resample_src_y s"
  using assms by (auto simp: flags_ok_def split: option.splits)

lemma flags_ok_flag: "flags_ok s \<Longrightarrow> \<exists>flag. m_Psrc_y_flag s = Some flag"
  by (auto simp: flags_ok_def split: option.splits)

lemma flags_ok_present:
  assumes "flags_ok s" "m_Psrc_y_flag s = Some flag" "y < length flag" "flag ! y"
  shows "int y < m_cur_src_y s"
  using assms by (auto simp: flags_ok_def split: option.splits)

lemma loop_inv_start:
  assumes inv: "engine_inv s" and ne: "m_cur_dst_y s \<noteq> m_resample_dst_y s"
    and cly: "m_Pclist_y s = Some cly" and row: "rd cly (m_cur_dst_y s) = Inr row"
    and pres: "present_loop s row = Inr True"
    and tmp: "(if m_delay_x_resample s then m_Ptmp_buf s else m_Pdst_buf s) = Some tmp"
  shows "loop_inv row (Suc (nat (m_cur_dst_y s))) (tmp, s)"
proof -
  from inv have a: "static_ok s" "counts_ok [] (nat (m_cur_dst_y s)) s" "flags_ok s" "pool_ok s"
    "0 \<le> m_cur_dst_y s" "m_cur_dst_y s \<le> m_resample_dst_y s"
    by (auto simp: engine_inv_def)
  from a(6) ne have lt: "m_cur_dst_y s < m_resample_dst_y s" by simp
  from a(1) have len: "length (y_rows s) = nat (m_resample_dst_y s)" by (simp add: static_ok_def)
  have d: "nat (m_cur_dst_y s) < length (y_rows s)" using lt a(5) len by simp
  have r: "y_rows s ! nat (m_cur_dst_y s) = row" using y_rows_nth[OF cly row lt] .
  have c: "counts_ok row (Suc (nat (m_cur_dst_y s))) s"
    using counts_ok_start[OF a(2) d] r by simp
  from flags_ok_flag[OF a(3)] obtain flag where f: "m_Psrc_y_flag s = Some flag" by blast
  have p: "\<forall>p \<in> set row. uint (pixel p) < m_cur_src_y s"
  proof
    fix p assume "p \<in> set row"
    with present_loop_True[OF pres f] have "unat (pixel p) < length flag" "flag ! unat (pixel p)"
      by auto
    with flags_ok_present[OF a(3) f] have "int (unat (pixel p)) < m_cur_src_y s" by blast
    then show "uint (pixel p) < m_cur_src_y s" by (metis uint_nat)
  qed
  have t: "length tmp = nat (m_intermediate_x s)"
    using a(1) tmp by (auto simp: static_ok_def split: if_splits option.splits)
  show ?thesis using a c p t by (simp add: loop_inv_def)
qed

lemma resample_y_inv:
  assumes inv: "engine_inv s" and ne: "m_cur_dst_y s \<noteq> m_resample_dst_y s"
    and cly: "m_Pclist_y s = Some cly" and row: "rd cly (m_cur_dst_y s) = Inr row"
    and pres: "present_loop s row = Inr True"
    and ry: "resample_y s = Inr s'"
  shows "engine_inv (s' \<lparr> m_cur_dst_y := m_cur_dst_y s' + 1 \<rparr>)"
proof -
  from resample_y_post[OF ry] cly row obtain tmp ts dst where
    tmp: "(if m_delay_x_resample s then m_Ptmp_buf s else m_Pdst_buf s) = Some tmp"
    and loop: "ry_loop True row (tmp, s) = Inr ts"
    and s': "s' = (snd ts) \<lparr> m_Ptmp_buf := (if m_delay_x_resample s then Some (fst ts) else m_Ptmp_buf s),
                      m_Pdst_buf := Some dst \<rparr>"
    and dl: "(if m_delay_x_resample s then \<exists>d0. m_Pdst_buf s = Some d0 \<and> length dst = length d0
      else length dst = length (fst ts))"
    by auto
  note ff = frame_fields[OF ry_loop_frame[OF loop], simplified]
  from inv have a: "static_ok s" "0 \<le> m_cur_dst_y s" "m_cur_dst_y s \<le> m_resample_dst_y s"
    by (auto simp: engine_inv_def)
  from ry_loop_inv[OF loop loop_inv_start[OF inv ne cly row pres tmp]]
  have li: "static_ok (snd ts)" "counts_ok [] (Suc (nat (m_cur_dst_y s))) (snd ts)"
    "flags_ok (snd ts)" "pool_ok (snd ts)" "length (fst ts) = nat (m_intermediate_x (snd ts))"
    by (auto simp: loop_inv_def)
  have dlen: "length dst = nat (m_resample_dst_x (snd ts))"
    using dl a(1) li(5) by (auto simp: ff static_ok_def split: if_splits option.splits)
  have tl: "m_delay_x_resample (snd ts) \<Longrightarrow>
      \<exists>t. (if m_delay_x_resample s then Some (fst ts) else m_Ptmp_buf s) = Some t
          \<and> length t = nat (m_resample_src_x (snd ts))"
    using li(5) a(1) by (auto simp: ff static_ok_def)
  have st: "static_ok s'"
    unfolding s' using static_ok_bufs[OF li(1) dlen tl] by simp
  have cur: "m_cur_dst_y s' = m_cur_dst_y s" "m_resample_dst_y s' = m_resample_dst_y s"
    unfolding s' by (simp_all add: ff)
  have n: "nat (m_cur_dst_y s + 1) = Suc (nat (m_cur_dst_y s))" using a(2) by simp
  show ?thesis
    unfolding engine_inv_def cur_dst_update_preds
    using st li a ne
    by (simp add: cur n) (simp add: s' buf_update_preds)
qed

section \<open>The calls of the streaming interface\<close>

lemma put_line_status:
  "put_line a Psrc s = Inr (b, s') \<Longrightarrow> m_status s \<noteq> STATUS_OKAY \<Longrightarrow> m_status s' \<noteq> STATUS_OKAY"
  unfolding put_line_def Let_def
  by (auto split: if_splits elim!: bnd_InrE)

lemma resample_y_status: "resample_y s = Inr s' \<Longrightarrow> m_status s' = m_status s"
proof -
  assume "resample_y s = Inr s'"
  from resample_y_post[OF this] obtain row tmp ts dst where
    loop: "ry_loop True row (tmp, s) = Inr ts"
    and s': "s' = (snd ts) \<lparr> m_Ptmp_buf := (if m_delay_x_resample s then Some (fst ts) else m_Ptmp_buf s),
                      m_Pdst_buf := Some dst \<rparr>"
    by auto
  from frame_fields(13)[OF ry_loop_frame[OF loop]] s' show ?thesis by simp
qed

lemma get_line_cases:
  assumes "get_line s = Inr (r, s')"
  shows "(r = None \<and> s' = s) \<or>
         (\<exists>cly row s1. m_cur_dst_y s \<noteq> m_resample_dst_y s \<and> m_Pclist_y s = Some cly \<and>
            rd cly (m_cur_dst_y s) = Inr row \<and> present_loop s row = Inr True \<and>
            resample_y s = Inr s1 \<and> r = m_Pdst_buf s1 \<and>
            s' = s1 \<lparr> m_cur_dst_y := m_cur_dst_y s1 + 1 \<rparr>)"
  using assms unfolding get_line_def
  by (auto split: if_splits elim!: bnd_InrE simp: access_simps)

lemma get_line_status: "get_line s = Inr (r, s') \<Longrightarrow> m_status s' = m_status s"
  by (auto dest!: get_line_cases resample_y_status)

lemma get_line_inv:
  assumes "get_line s = Inr (r, s')" "engine_inv s"
  shows "engine_inv s'"
  using get_line_cases[OF assms(1)] assms(2)
  by (auto dest: resample_y_inv)

lemma resample_y_dst: "resample_y s = Inr s' \<Longrightarrow> m_Pdst_buf s' \<noteq> None"
  by (auto dest!: resample_y_post)

lemma memcpy_length: "memcpy dst src n = Inr d' \<Longrightarrow> length d' = length dst"
  by (auto simp: memcpy_def split: if_splits elim!: bnd_InrE)

lemma fresh_buf_length: "length (fresh_buf n) = nat n"
  by (simp add: fresh_buf_def)

lemma put_line_frame:
  assumes "put_line a Psrc s = Inr (b, s')"
  shows "s' = s \<lparr> m_Psrc_y_flag := m_Psrc_y_flag s', m_Pscan_buf := m_Pscan_buf s',
                   m_cur_src_y := m_cur_src_y s', m_status := m_status s' \<rparr>"
  using assms unfolding put_line_def Let_def
  by (auto split: if_splits elim!: bnd_InrE)

lemma put_line_False:
  assumes "put_line a Psrc s = Inr (False, s')" "m_status s' = STATUS_OKAY"
  shows "s' = s"
  using assms unfolding put_line_def Let_def
  by (auto split: if_splits elim!: bnd_InrE)

lemma put_line_True:
  assumes "put_line a Psrc s = Inr (True, s')"
  shows "\<exists>count. m_Psrc_y_count s = Some count \<and> 0 \<le> m_cur_src_y s \<and>
            m_cur_src_y s < m_resample_src_y s \<and> m_cur_src_y s < int (length count) \<and>
            m_cur_src_y s' = m_cur_src_y s + 1 \<and> m_status s' = m_status s"
  using assms unfolding put_line_def Let_def
  by (auto split: if_splits elim!: bnd_InrE simp: access_simps)

lemma put_line_dead:
  assumes "put_line a Psrc s = Inr (True, s')" "m_Psrc_y_count s = Some count"
    "count ! nat (m_cur_src_y s) = 0"
  shows "m_Psrc_y_flag s' = m_Psrc_y_flag s \<and> m_Pscan_buf s' = m_Pscan_buf s"
  using assms unfolding put_line_def Let_def
  by (auto split: if_splits elim!: bnd_InrE simp: access_simps)

lemma put_line_live_ptrs:
  assumes "put_line a Psrc s = Inr (True, s')" "m_Psrc_y_count s = Some count"
    "count ! nat (m_cur_src_y s) \<noteq> 0"
  shows "\<exists>buf flag. m_Pscan_buf s = Some buf \<and> m_Psrc_y_flag s = Some flag"
  using assms unfolding put_line_def Let_def
  by (auto split: if_splits elim!: bnd_InrE simp: access_simps)

lemma find_tag_neq: "find_tag tags v \<noteq> MAX_SCAN_BUF_SIZE \<longleftrightarrow> find_tag tags v < MAX_SCAN_BUF_SIZE"
  using find_tag_le[of tags v] by linarith

lemma put_line_live:
  assumes "put_line a Psrc s = Inr (True, s')" "m_Psrc_y_count s = Some count"
    "count ! nat (m_cur_src_y s) \<noteq> 0"
    "m_Pscan_buf s = Some buf" "m_Psrc_y_flag s = Some flag"
  shows "m_cur_src_y s < int (length flag) \<and>
      find_tag (scan_buf_y buf) (- 1) < MAX_SCAN_BUF_SIZE \<and>
      find_tag (scan_buf_y buf) (- 1) < length (scan_buf_y buf) \<and>
      find_tag (scan_buf_y buf) (- 1) < length (scan_buf_l buf) \<and>
      m_Psrc_y_flag s' = Some (flag[nat (m_cur_src_y s) := True]) \<and>
      (\<exists>line'.
        length line' = (case scan_buf_l buf ! find_tag (scan_buf_y buf) (- 1) of
                        None \<Rightarrow> nat (m_intermediate_x s) | Some l \<Rightarrow> length l) \<and>
        m_Pscan_buf s' = Some (buf \<lparr>
          scan_buf_y := (scan_buf_y buf)[find_tag (scan_buf_y buf) (- 1) := m_cur_src_y s],
          scan_buf_l := (scan_buf_l buf)[find_tag (scan_buf_y buf) (- 1) := Some line'] \<rparr>))"
  using assms unfolding put_line_def Let_def
  apply (auto split: if_splits option.splits elim!: bnd_InrE
        simp: access_simps fresh_buf_length find_tag_neq
        dest!: memcpy_length resample_x_length)
  apply blast+
  done

lemma put_update_preds:
  "y_rows (s \<lparr> m_Psrc_y_flag := f, m_Pscan_buf := b, m_cur_src_y := c, m_status := st \<rparr>) = y_rows s"
  "counts_ok pend d (s \<lparr> m_Psrc_y_flag := f, m_Pscan_buf := b, m_cur_src_y := c, m_status := st \<rparr>)
     = counts_ok pend d s"
  "static_ok (s \<lparr> m_Psrc_y_flag := f, m_Pscan_buf := b, m_cur_src_y := c, m_status := st \<rparr>)
     = static_ok s"
  by (simp_all add: y_rows_def counts_ok_def static_ok_def cong: option.case_cong if_cong)

lemma put_line_fields:
  assumes "put_line a Psrc s = Inr (b, s')"
  shows "m_resample_src_y s' = m_resample_src_y s" "m_resample_dst_y s' = m_resample_dst_y s"
    "m_cur_dst_y s' = m_cur_dst_y s" "m_Psrc_y_count s' = m_Psrc_y_count s"
    "m_intermediate_x s' = m_intermediate_x s"
    "static_ok s' = static_ok s" "counts_ok pend d s' = counts_ok pend d s"
proof -
  note e = put_line_frame[OF assms]
  show "m_resample_src_y s' = m_resample_src_y s" by (subst e) simp
  show "m_resample_dst_y s' = m_resample_dst_y s" by (subst e) simp
  show "m_cur_dst_y s' = m_cur_dst_y s" by (subst e) simp
  show "m_Psrc_y_count s' = m_Psrc_y_count s" by (subst e) simp
  show "m_intermediate_x s' = m_intermediate_x s" by (subst e) simp
  show "static_ok s' = static_ok s" by (subst e) (simp only: put_update_preds)
  show "counts_ok pend d s' = counts_ok pend d s" by (subst e) (simp only: put_update_preds)
qed

lemma flags_okI:
  assumes "m_Psrc_y_count s = Some count" "m_Psrc_y_flag s = Some flag"
    "length flag = nat (m_resample_src_y s)" "length count = nat (m_resample_src_y s)"
    "\<And>y. y < length flag \<Longrightarrow> flag ! y \<longleftrightarrow> (int y < m_cur_src_y s \<and> count ! y \<noteq> 0)"
    "0 \<le> m_cur_src_y s" "m_cur_src_y s \<le> m_resample_src_y s"
  shows "flags_ok s"
  using assms by (auto simp: flags_ok_def)

lemma flags_okD:
  assumes "flags_ok s" "m_Psrc_y_count s = Some count" "m_Psrc_y_flag s = Some flag"
  shows "length flag = nat (m_resample_src_y s)" "length count = nat (m_resample_src_y s)"
    "\<And>y. y < length flag \<Longrightarrow> flag ! y \<longleftrightarrow> (int y < m_cur_src_y s \<and> count ! y \<noteq> 0)"
    "0 \<le> m_cur_src_y s" "m_cur_src_y s \<le> m_resample_src_y s"
  using assms by (auto simp: flags_ok_def)

lemma pool_ok_buf: "pool_ok s \<Longrightarrow> \<exists>buf. m_Pscan_buf s = Some buf"
  by (auto simp: pool_ok_def split: option.splits)

lemma put_line_inv_dead:
  assumes put: "put_line a Psrc s = Inr (True, s')" and inv: "engine_inv s"
    and c: "m_Psrc_y_count s = Some count" and z: "count ! nat (m_cur_src_y s) = 0"
  shows "engine_inv s'"
proof -
  note pf = put_line_fields[OF put]
  from put_line_True[OF put] c have
    cur: "0 \<le> m_cur_src_y s" "m_cur_src_y s < m_resample_src_y s" "m_cur_src_y s' = m_cur_src_y s + 1"
    by auto
  from put_line_dead[OF put c z] have
    same: "m_Psrc_y_flag s' = m_Psrc_y_flag s" "m_Pscan_buf s' = m_Pscan_buf s" by auto
  from inv have a: "static_ok s" "counts_ok [] (nat (m_cur_dst_y s)) s" "flags_ok s" "pool_ok s"
    "0 \<le> m_cur_dst_y s" "m_cur_dst_y s \<le> m_resample_dst_y s"
    by (auto simp: engine_inv_def)
  from flags_ok_flag[OF a(3)] obtain flag where f: "m_Psrc_y_flag s = Some flag" by blast
  note F = flags_okD[OF a(3) c f]
  have "flags_ok s'"
  proof (rule flags_okI)
    show "m_Psrc_y_count s' = Some count" using c pf(4) by simp
    show "m_Psrc_y_flag s' = Some flag" using f same by simp
    show "length flag = nat (m_resample_src_y s')" using F(1) pf(1) by simp
    show "length count = nat (m_resample_src_y s')" using F(2) pf(1) by simp
    show "0 \<le> m_cur_src_y s'" using cur by simp
    show "m_cur_src_y s' \<le> m_resample_src_y s'" using cur pf(1) by simp
    fix y assume y: "y < length flag"
    show "flag ! y \<longleftrightarrow> (int y < m_cur_src_y s' \<and> count ! y \<noteq> 0)"
    proof (cases "int y = m_cur_src_y s")
      case True
      then have "nat (m_cur_src_y s) = y" by simp
      with z F(3)[OF y] True show ?thesis by simp
    next
      case False
      with F(3)[OF y] cur(3) show ?thesis by auto
    qed
  qed
  moreover have "pool_ok s'"
    using a(4) same by (simp add: pool_ok_def pf(5) cong: option.case_cong)
  ultimately show ?thesis
    using a by (simp add: engine_inv_def pf)
qed

lemma put_line_inv_live:
  assumes put: "put_line a Psrc s = Inr (True, s')" and inv: "engine_inv s"
    and c: "m_Psrc_y_count s = Some count" and nz: "count ! nat (m_cur_src_y s) \<noteq> 0"
  shows "engine_inv s'"
proof -
  note pf = put_line_fields[OF put]
  from put_line_True[OF put] c have
    cur: "0 \<le> m_cur_src_y s" "m_cur_src_y s < m_resample_src_y s" "m_cur_src_y s' = m_cur_src_y s + 1"
    by auto
  from inv have a: "static_ok s" "counts_ok [] (nat (m_cur_dst_y s)) s" "flags_ok s" "pool_ok s"
    "0 \<le> m_cur_dst_y s" "m_cur_dst_y s \<le> m_resample_dst_y s"
    by (auto simp: engine_inv_def)
  from flags_ok_flag[OF a(3)] obtain flag where f: "m_Psrc_y_flag s = Some flag" by blast
  from pool_ok_buf[OF a(4)] obtain buf where b: "m_Pscan_buf s = Some buf" by blast
  note F = flags_okD[OF a(3) c f]
  note P = pool_okD[OF a(4) b f]
  let ?c = "nat (m_cur_src_y s)"
  let ?i = "find_tag (scan_buf_y buf) (- 1)"
  let ?tags' = "(scan_buf_y buf)[?i := m_cur_src_y s]"
  from put_line_live[OF put c nz b f] obtain line' where
    i: "?i < MAX_SCAN_BUF_SIZE"
    and f': "m_Psrc_y_flag s' = Some (flag[?c := True])"
    and ll: "length line' = (case scan_buf_l buf ! ?i of
                        None \<Rightarrow> nat (m_intermediate_x s) | Some l \<Rightarrow> length l)"
    and b': "m_Pscan_buf s' = Some (buf \<lparr> scan_buf_y := ?tags',
          scan_buf_l := (scan_buf_l buf)[?i := Some line'] \<rparr>)"
    by auto
  have ti: "scan_buf_y buf ! ?i = - 1" using find_tag_found[OF i P(1)] .
  have cl: "?c < length flag" using cur F(1) by simp
  have ic: "int ?c = m_cur_src_y s" using cur by simp
  have cl': "0 \<le> m_cur_src_y s \<and> m_cur_src_y s < int (length flag)" using cl cur(1) by linarith
  have notc: "scan_buf_y buf ! j \<noteq> m_cur_src_y s" if "j < MAX_SCAN_BUF_SIZE" for j
  proof
    assume e: "scan_buf_y buf ! j = m_cur_src_y s"
    then have "scan_buf_y buf ! j \<noteq> - 1" using cur by simp
    from P(3)[OF that this] e have "flag ! ?c" by simp
    with F(3)[OF cl] ic show False by simp
  qed
  have "flags_ok s'"
  proof (rule flags_okI)
    show "m_Psrc_y_count s' = Some count" using c pf(4) by simp
    show "m_Psrc_y_flag s' = Some (flag[?c := True])" using f' .
    show "length (flag[?c := True]) = nat (m_resample_src_y s')" using F(1) pf(1) by simp
    show "length count = nat (m_resample_src_y s')" using F(2) pf(1) by simp
    show "0 \<le> m_cur_src_y s'" using cur by simp
    show "m_cur_src_y s' \<le> m_resample_src_y s'" using cur pf(1) by simp
    fix y assume "y < length (flag[?c := True])"
    then have y: "y < length flag" by simp
    show "flag[?c := True] ! y \<longleftrightarrow> (int y < m_cur_src_y s' \<and> count ! y \<noteq> 0)"
    proof (cases "y = ?c")
      case True
      with nz y cur show ?thesis by simp
    next
      case False
      then have "int y \<noteq> m_cur_src_y s" using ic by linarith
      with F(3)[OF y] cur(3) False y show ?thesis by auto
    qed
  qed
  moreover have "pool_ok s'"
  proof (rule pool_okI[OF b' f'])
    show "length (scan_buf_y (buf \<lparr> scan_buf_y := ?tags',
          scan_buf_l := (scan_buf_l buf)[?i := Some line'] \<rparr>)) = MAX_SCAN_BUF_SIZE"
      using P(1) by simp
    show "length (scan_buf_l (buf \<lparr> scan_buf_y := ?tags',
          scan_buf_l := (scan_buf_l buf)[?i := Some line'] \<rparr>)) = MAX_SCAN_BUF_SIZE"
      using P(2) by simp
  next
    fix j assume j: "j < MAX_SCAN_BUF_SIZE"
      and t: "scan_buf_y (buf \<lparr> scan_buf_y := ?tags',
          scan_buf_l := (scan_buf_l buf)[?i := Some line'] \<rparr>) ! j \<noteq> - 1"
    show "0 \<le> scan_buf_y (buf \<lparr> scan_buf_y := ?tags',
          scan_buf_l := (scan_buf_l buf)[?i := Some line'] \<rparr>) ! j \<and>
        scan_buf_y (buf \<lparr> scan_buf_y := ?tags',
          scan_buf_l := (scan_buf_l buf)[?i := Some line'] \<rparr>) ! j < int (length (flag[?c := True])) \<and>
        flag[?c := True] ! nat (scan_buf_y (buf \<lparr> scan_buf_y := ?tags',
          scan_buf_l := (scan_buf_l buf)[?i := Some line'] \<rparr>) ! j) \<and>
        scan_buf_l (buf \<lparr> scan_buf_y := ?tags',
          scan_buf_l := (scan_buf_l buf)[?i := Some line'] \<rparr>) ! j \<noteq> None"
    proof (cases "j = ?i")
      case True
      then show ?thesis using i P(1) P(2) cl cl' by simp
    next
      case False
      with t j P(1) have t0: "scan_buf_y buf ! j \<noteq> - 1" by simp
      from P(3)[OF j t0] have q: "0 \<le> scan_buf_y buf ! j" "scan_buf_y buf ! j < int (length flag)"
        "flag ! nat (scan_buf_y buf ! j)" "scan_buf_l buf ! j \<noteq> None" by auto
      from q(1,2) have "nat (scan_buf_y buf ! j) < length flag" by linarith
      with q(3) have "flag[?c := True] ! nat (scan_buf_y buf ! j)"
        by (cases "nat (scan_buf_y buf ! j) = ?c") simp_all
      with q False j P(1) P(2) show ?thesis by simp
    qed
  next
    fix j j' assume j: "j < MAX_SCAN_BUF_SIZE" "j' < MAX_SCAN_BUF_SIZE"
      and t: "scan_buf_y (buf \<lparr> scan_buf_y := ?tags',
          scan_buf_l := (scan_buf_l buf)[?i := Some line'] \<rparr>) ! j \<noteq> - 1"
      and e: "scan_buf_y (buf \<lparr> scan_buf_y := ?tags',
          scan_buf_l := (scan_buf_l buf)[?i := Some line'] \<rparr>) ! j' =
          scan_buf_y (buf \<lparr> scan_buf_y := ?tags',
          scan_buf_l := (scan_buf_l buf)[?i := Some line'] \<rparr>) ! j"
    show "j' = j"
    proof (cases "j = ?i")
      case True
      with e j P(1) have "?tags' ! j' = m_cur_src_y s" by simp
      with notc[OF j(2)] j P(1) have "j' = ?i" by (cases "j' = ?i") simp_all
      with True show ?thesis by simp
    next
      case False
      with t j P(1) have t0: "scan_buf_y buf ! j \<noteq> - 1" by simp
      have "j' \<noteq> ?i"
      proof
        assume "j' = ?i"
        with e False j P(1) have "scan_buf_y buf ! j = m_cur_src_y s" by simp
        with notc[OF j(1)] show False by simp
      qed
      with e False j P(1) have "scan_buf_y buf ! j' = scan_buf_y buf ! j" by simp
      with P(4)[OF j t0] show ?thesis by simp
    qed
  next
    fix y assume y: "y < length (flag[?c := True])" and fy: "flag[?c := True] ! y"
    show "int y \<in> set (scan_buf_y (buf \<lparr> scan_buf_y := ?tags',
          scan_buf_l := (scan_buf_l buf)[?i := Some line'] \<rparr>))"
    proof (cases "y = ?c")
      case True
      have "?tags' ! ?i = int y" using i P(1) True ic by simp
      moreover have "?i < length ?tags'" using i P(1) by simp
      ultimately have "int y \<in> set ?tags'" by (metis nth_mem)
      then show ?thesis by simp
    next
      case False
      with y fy have "y < length flag" "flag ! y" by simp_all
      from P(5)[OF this] obtain k where k: "k < length (scan_buf_y buf)" "scan_buf_y buf ! k = int y"
        by (auto simp: in_set_conv_nth)
      have "k \<noteq> ?i" using k(2) ti by auto
      with k have "?tags' ! k = int y" "k < length ?tags'" by simp_all
      then have "int y \<in> set ?tags'" by (metis nth_mem)
      then show ?thesis by simp
    qed
  next
    fix line assume "Some line \<in> set (scan_buf_l (buf \<lparr> scan_buf_y := ?tags',
          scan_buf_l := (scan_buf_l buf)[?i := Some line'] \<rparr>))"
    then have mem: "Some line \<in> set ((scan_buf_l buf)[?i := Some line'])" by simp
    have "length line = nat (m_intermediate_x s)"
    proof (cases "line = line'")
      case True
      show ?thesis
      proof (cases "scan_buf_l buf ! ?i")
        case None
        with ll True show ?thesis by simp
      next
        case (Some l)
        then have "Some l \<in> set (scan_buf_l buf)" using i P(2) by (metis nth_mem)
        from P(6)[OF this] ll Some True show ?thesis by simp
      qed
    next
      case False
      with mem have "Some line \<in> set (scan_buf_l buf)"
        by (metis insertE option.inject set_update_subset_insert subsetD)
      from P(6)[OF this] show ?thesis .
    qed
    then show "length line = nat (m_intermediate_x s')" by (simp add: pf)
  qed
  ultimately show ?thesis
    using a by (simp add: engine_inv_def pf)
qed

lemma put_line_inv:
  assumes "put_line a Psrc s = Inr (b, s')" "engine_inv s" "m_status s' = STATUS_OKAY"
  shows "engine_inv s'"
proof (cases b)
  case False
  with put_line_False[of a Psrc s s'] assms show ?thesis by simp
next
  case True
  with assms(1) have put: "put_line a Psrc s = Inr (True, s')" by simp
  from put_line_True[OF put] obtain count where c: "m_Psrc_y_count s = Some count" by blast
  show ?thesis
    using put_line_inv_dead[OF put assms(2) c] put_line_inv_live[OF put assms(2) c]
    by (cases "count ! nat (m_cur_src_y s) = 0") simp_all
qed

section \<open>Sequences of calls\<close>

lemma do_call_status:
  "do_call c s = Inr (r, s') \<Longrightarrow> m_status s \<noteq> STATUS_OKAY \<Longrightarrow> m_status s' \<noteq> STATUS_OKAY"
  unfolding do_call_def
  by (cases c) (auto elim!: bnd_InrE dest: put_line_status get_line_status)

lemma do_call_inv:
  "do_call c s = Inr (r, s') \<Longrightarrow> engine_inv s \<Longrightarrow> m_status s' = STATUS_OKAY \<Longrightarrow> engine_inv s'"
  unfolding do_call_def
  by (cases c) (auto elim!: bnd_InrE dest: put_line_inv get_line_inv)

lemma run_status:
  "run cs s = Inr (rs, s') \<Longrightarrow> m_status s \<noteq> STATUS_OKAY \<Longrightarrow> m_status s' \<noteq> STATUS_OKAY"
proof (induction cs arbitrary: s rs)
  case Nil
  then show ?case by simp
next
  case (Cons c cs)
  from Cons.prems(1) obtain r s1 rs1 where
    d: "do_call c s = Inr (r, s1)" and r: "run cs s1 = Inr (rs1, s')"
    by (auto elim!: bnd_InrE)
  from Cons.IH[OF r do_call_status[OF d Cons.prems(2)]] show ?case .
qed

lemma run_inv:
  "run cs s = Inr (rs, s') \<Longrightarrow> engine_inv s \<Longrightarrow> m_status s' = STATUS_OKAY \<Longrightarrow> engine_inv s'"
proof (induction cs arbitrary: s rs)
  case Nil
  then show ?case by simp
next
  case (Cons c cs)
  from Cons.prems(1) obtain r s1 rs1 where
    d: "do_call c s = Inr (r, s1)" and r: "run cs s1 = Inr (rs1, s')"
    by (auto elim!: bnd_InrE)
  have "m_status s1 = STATUS_OKAY"
    using run_status[OF r] Cons.prems(3) by blast
  from Cons.IH[OF r do_call_inv[OF d Cons.prems(2) this] Cons.prems(3)] show ?case .
qed

lemma refs_all_zero:
  "refs [[]] y = 0"
  by (simp add: refs_def)

lemma engine_inv_end:
  assumes "engine_inv s" "m_cur_dst_y s = m_resample_dst_y s"
  shows "m_Psrc_y_count s = Some (replicate (nat (m_resample_src_y s)) 0) \<and>
         map_option scan_buf_y (m_Pscan_buf s) = Some (replicate MAX_SCAN_BUF_SIZE (- 1))"
proof -
  from assms have a: "static_ok s" "counts_ok [] (nat (m_resample_dst_y s)) s" "flags_ok s" "pool_ok s"
    by (auto simp: engine_inv_def)
  from a(1) have "length (y_rows s) = nat (m_resample_dst_y s)" by (simp add: static_ok_def)
  then have dr: "drop (nat (m_resample_dst_y s)) (y_rows s) = []" by simp
  from flags_ok_flag[OF a(3)] obtain flag where f: "m_Psrc_y_flag s = Some flag" by blast
  from pool_ok_buf[OF a(4)] obtain buf where b: "m_Pscan_buf s = Some buf" by blast
  from a(2) obtain count where c: "m_Psrc_y_count s = Some count"
    and cl: "length count = nat (m_resample_src_y s)"
    and cz: "\<And>y. y < length count \<Longrightarrow> count ! y = 0"
    by (auto simp: counts_ok_def dr refs_all_zero split: option.splits)
  note F = flags_okD[OF a(3) c f]
  note P = pool_okD[OF a(4) b f]
  have "count = replicate (nat (m_resample_src_y s)) 0"
    using cl cz by (simp add: list_eq_iff_nth_eq)
  moreover have "scan_buf_y buf ! j = - 1" if "j < MAX_SCAN_BUF_SIZE" for j
  proof (rule ccontr)
    assume t: "scan_buf_y buf ! j \<noteq> - 1"
    from P(3)[OF that t] have q: "0 \<le> scan_buf_y buf ! j" "scan_buf_y buf ! j < int (length flag)"
      "flag ! nat (scan_buf_y buf ! j)" by auto
    from q(1,2) have "nat (scan_buf_y buf ! j) < length flag" by linarith
    from F(3)[OF this] q(3) cz[of "nat (scan_buf_y buf ! j)"] F(1) F(2) this show False by simp
  qed
  then have "scan_buf_y buf = replicate MAX_SCAN_BUF_SIZE (- 1)"
    using P(1) by (simp add: list_eq_iff_nth_eq)
  ultimately show ?thesis using c b by simp
qed

section \<open>The constructor\<close>

lemma refs_single_Cons:
  "refs [p # ps] y = (if uint (pixel p) = y then 1 else 0) + refs [ps] y"
  by (simp add: refs_def)

lemma refs_append: "refs (rs @ rs') y = refs rs y + refs rs' y"
  by (simp add: refs_def)

lemma refs_Nil: "refs [] y = 0"
  by (simp add: refs_def)

lemma count_row_result:
  "count_row src_y ps count = Inr count' \<Longrightarrow>
   length count' = length count \<and> (\<forall>p \<in> set ps. uint (pixel p) < src_y) \<and>
   (\<forall>y < length count. count' ! y = count ! y + refs [ps] (int y))"
proof (induction ps arbitrary: count)
  case Nil
  then show ?case by (simp add: refs_all_zero)
next
  case (Cons p ps)
  from Cons.prems obtain c1 where
    r: "uint (pixel p) < src_y" "unat (pixel p) < length count"
    and c1: "c1 = count[unat (pixel p) := count ! unat (pixel p) + 1]"
    and rest: "count_row src_y ps c1 = Inr count'"
    by (auto elim!: bnd_InrE simp: access_simps uint_less_int)
  from Cons.IH[OF rest] have ih: "length count' = length c1" "\<forall>p \<in> set ps. uint (pixel p) < src_y"
    "\<forall>y < length c1. count' ! y = c1 ! y + refs [ps] (int y)" by auto
  have "count' ! y = count ! y + refs [p # ps] (int y)" if "y < length count" for y
    using ih(3) that c1
    by (cases "y = unat (pixel p)") (simp_all add: refs_single_Cons uint_eq_int)
  with ih r c1 show ?case by simp
qed

lemma count_rows_result:
  "count_rows src_y cly is count = Inr count' \<Longrightarrow>
   length count' = length count \<and> (\<forall>i \<in> set is. 0 \<le> i \<and> i < int (length cly)) \<and>
   (\<forall>i \<in> set is. \<forall>p \<in> set (cly ! nat i). uint (pixel p) < src_y) \<and>
   (\<forall>y < length count. count' ! y = count ! y + refs (map (\<lambda>i. cly ! nat i) is) (int y))"
proof (induction "is" arbitrary: count)
  case Nil
  then show ?case by (simp add: refs_Nil)
next
  case (Cons i "is")
  from Cons.prems obtain c1 where
    i: "0 \<le> i" "i < int (length cly)"
    and row: "count_row src_y (cly ! nat i) count = Inr c1"
    and rest: "count_rows src_y cly is c1 = Inr count'"
    by (auto elim!: bnd_InrE simp: access_simps)
  note R = count_row_result[OF row]
  note IH = Cons.IH[OF rest]
  have "count' ! y = count ! y + refs (map (\<lambda>i. cly ! nat i) (i # is)) (int y)" if "y < length count" for y
    using R IH that by (simp add: refs_def)
  with R IH i show ?case by simp
qed

lemma map_nth_upto:
  "n \<le> length xs \<Longrightarrow> map (\<lambda>i. xs ! nat i) [0..int n - 1] = take n xs"
proof (induction n)
  case 0
  then show ?case by simp
next
  case (Suc n)
  have "[0..int (Suc n) - 1] = [0..int n - 1] @ [int n]"
    using upto_rec2[of 0 "int n"] by simp
  with Suc show ?case by (simp add: take_Suc_conv_app_nth)
qed

lemma set_upto_nat: "i \<in> set [0..d - 1] \<longleftrightarrow> 0 \<le> i \<and> i < d"
  by auto

lemma int32_Inr: "int32 v = Inr t \<longleftrightarrow> - (2 ^ 31) \<le> v \<and> v < 2 ^ 31 \<and> t = v"
  by (auto simp: int32_def)

lemma count_ops_loop_result:
  "count_ops_loop cl is t0 = Inr t \<Longrightarrow>
   t = t0 + sum_list (map (\<lambda>i. int (length (cl ! nat i))) is) \<and>
   (\<forall>i \<in> set is. 0 \<le> i \<and> i < int (length cl))"
proof (induction "is" arbitrary: t0)
  case Nil
  then show ?case by simp
next
  case (Cons i "is")
  from Cons.prems have i: "0 \<le> i" "i < int (length cl)"
    and rest: "count_ops_loop cl is (t0 + int (length (cl ! nat i))) = Inr t"
    by (auto elim!: bnd_InrE simp: access_simps int32_Inr)
  from Cons.IH[OF rest] i show ?case by simp
qed

lemma count_ops_result:
  assumes "count_ops cl k = Inr t" "0 < k"
  shows "t = spec_ops cl k \<and> nat k \<le> length cl \<and> 0 \<le> t"
proof -
  from count_ops_loop_result[OF assms(1)[unfolded count_ops_def]]
  have t: "t = sum_list (map (\<lambda>i. int (length (cl ! nat i))) [0..k - 1])"
    and r: "\<forall>i \<in> set [0..k - 1]. 0 \<le> i \<and> i < int (length cl)" by auto
  from r assms(2) have "k - 1 < int (length cl)" by auto
  then have le: "nat k \<le> length cl" by linarith
  have k: "k = int (nat k)" using assms(2) by simp
  have "map (\<lambda>i. cl ! nat i) [0..int (nat k) - 1] = take (nat k) cl"
    using map_nth_upto[OF le] .
  then have "map (\<lambda>l. int (length l)) (map (\<lambda>i. cl ! nat i) [0..k - 1]) = map (\<lambda>l. int (length l)) (take (nat k) cl)"
    using k by simp
  then have "map (\<lambda>i. int (length (cl ! nat i))) [0..k - 1] = map (\<lambda>l. int (length l)) (take (nat k) cl)"
    by (simp add: comp_def)
  with t have "t = spec_ops cl k" by (simp add: spec_ops_def)
  moreover have "0 \<le> spec_ops cl k"
    unfolding spec_ops_def by (rule sum_list_nonneg) auto
  ultimately show ?thesis using le by simp
qed

lemma sdiv_nonneg: "0 \<le> a \<Longrightarrow> a sdiv 3 = a div (3 :: int)"
  by (simp add: signed_divide_int_def sgn_if)

lemma choose_order_result:
  assumes "choose_order s x_ops y_ops = Inr s'" "0 \<le> x_ops" "0 \<le> y_ops"
    "0 < m_resample_src_x s" "0 < m_resample_dst_x s"
  shows "s' = s \<lparr> m_delay_x_resample := m_delay_x_resample s', m_intermediate_x := m_intermediate_x s' \<rparr>"
    and "m_intermediate_x s' = (if m_delay_x_resample s' then m_resample_src_x s else m_resample_dst_x s)"
    and "m_delay_x_resample s' = spec_delay x_ops y_ops (m_resample_src_x s) (m_resample_src_y s)
            (m_resample_dst_x s) (m_resample_dst_y s)"
proof -
  have p: "0 \<le> 4 * y_ops * m_resample_dst_x s" "0 \<le> 4 * y_ops * m_resample_src_x s"
    using assms(3,4,5) by simp_all
  from assms(1) have
    d: "m_delay_x_resample s' =
         (x_ops * m_resample_src_y s + (4 * y_ops * m_resample_dst_x s) sdiv 3
            > (4 * y_ops * m_resample_src_x s) sdiv 3 + x_ops * m_resample_dst_y s \<or>
          (x_ops * m_resample_src_y s + (4 * y_ops * m_resample_dst_x s) sdiv 3
            = (4 * y_ops * m_resample_src_x s) sdiv 3 + x_ops * m_resample_dst_y s \<and>
           m_resample_src_x s < m_resample_dst_x s))"
    and e: "s' = s \<lparr> m_delay_x_resample := m_delay_x_resample s', m_intermediate_x := m_intermediate_x s' \<rparr>"
    and i: "m_intermediate_x s' = (if m_delay_x_resample s' then m_resample_src_x s else m_resample_dst_x s)"
    unfolding choose_order_def
    by (auto elim!: bnd_InrE simp: int32_Inr split: if_splits)
  show "s' = s \<lparr> m_delay_x_resample := m_delay_x_resample s', m_intermediate_x := m_intermediate_x s' \<rparr>"
    using e .
  show "m_intermediate_x s' = (if m_delay_x_resample s' then m_resample_src_x s else m_resample_dst_x s)"
    using i .
  show "m_delay_x_resample s' = spec_delay x_ops y_ops (m_resample_src_x s) (m_resample_src_y s)
            (m_resample_dst_x s) (m_resample_dst_y s)"
    unfolding d spec_delay_def spec_xy_ops_def spec_yx_ops_def
    by (simp only: sdiv_nonneg[OF p(1)] sdiv_nonneg[OF p(2)])
qed

lemma ctor_order_result:
  assumes "ctor_order e s7 clx cly = Inr s"
    "0 < m_resample_src_x s7" "0 < m_resample_dst_x s7" "0 < m_resample_dst_y s7"
  shows "s = s7 \<lparr> m_delay_x_resample := m_delay_x_resample s, m_intermediate_x := m_intermediate_x s,
                  m_Ptmp_buf := m_Ptmp_buf s, m_status := m_status s \<rparr>"
    and "m_intermediate_x s = (if m_delay_x_resample s then m_resample_src_x s7 else m_resample_dst_x s7)"
    and "m_delay_x_resample s =
           spec_delay (spec_ops clx (m_resample_dst_x s7)) (spec_ops cly (m_resample_dst_y s7))
             (m_resample_src_x s7) (m_resample_src_y s7) (m_resample_dst_x s7) (m_resample_dst_y s7)"
    and "nat (m_resample_dst_x s7) \<le> length clx" and "nat (m_resample_dst_y s7) \<le> length cly"
    and "m_status s7 = STATUS_OKAY \<Longrightarrow> m_status s = STATUS_OKAY \<Longrightarrow>
           m_Ptmp_buf s = (if m_delay_x_resample s then Some (fresh_buf (m_intermediate_x s))
                           else m_Ptmp_buf s7)"
    and "m_status s7 \<noteq> STATUS_OKAY \<Longrightarrow> m_status s \<noteq> STATUS_OKAY"
proof -
  from assms(1) obtain x_ops y_ops s8 where
    x: "count_ops clx (m_resample_dst_x s7) = Inr x_ops"
    and y: "count_ops cly (m_resample_dst_y s7) = Inr y_ops"
    and ch: "choose_order s7 x_ops y_ops = Inr s8"
    and fin: "(if m_delay_x_resample s8 then
         (if \<not> alloc_ok e Site_tmp_buf then Inr (s8 \<lparr> m_status := STATUS_OUT_OF_MEMORY \<rparr>)
          else Inr (s8 \<lparr> m_Ptmp_buf := Some (fresh_buf (m_intermediate_x s8)) \<rparr>))
       else Inr s8) = (Inr s :: fault + resampler)"
    unfolding ctor_order_def by (elim bnd_InrE) blast
  note X = count_ops_result[OF x assms(3)]
  note Y = count_ops_result[OF y assms(4)]
  have xn: "0 \<le> x_ops" and yn: "0 \<le> y_ops" using X Y by simp_all
  note C = choose_order_result[OF ch xn yn assms(2) assms(3)]
  from fin have s: "s = s8 \<lparr> m_Ptmp_buf := m_Ptmp_buf s, m_status := m_status s \<rparr>"
    and d: "m_delay_x_resample s = m_delay_x_resample s8"
    and i: "m_intermediate_x s = m_intermediate_x s8"
    by (auto split: if_splits)
  show "s = s7 \<lparr> m_delay_x_resample := m_delay_x_resample s, m_intermediate_x := m_intermediate_x s,
                  m_Ptmp_buf := m_Ptmp_buf s, m_status := m_status s \<rparr>"
    by (subst s, subst C(1)) (simp add: d i)
  show "m_intermediate_x s = (if m_delay_x_resample s then m_resample_src_x s7 else m_resample_dst_x s7)"
    using C(2) d i by simp
  show "m_delay_x_resample s =
           spec_delay (spec_ops clx (m_resample_dst_x s7)) (spec_ops cly (m_resample_dst_y s7))
             (m_resample_src_x s7) (m_resample_src_y s7) (m_resample_dst_x s7) (m_resample_dst_y s7)"
    using C(3) d X Y by simp
  show "nat (m_resample_dst_x s7) \<le> length clx" using X by simp
  show "nat (m_resample_dst_y s7) \<le> length cly" using Y by simp
  have st8: "m_status s8 = m_status s7" "m_Ptmp_buf s8 = m_Ptmp_buf s7"
    by (subst C(1), simp)+
  show "m_Ptmp_buf s = (if m_delay_x_resample s then Some (fresh_buf (m_intermediate_x s))
                           else m_Ptmp_buf s7)"
    if "m_status s7 = STATUS_OKAY" "m_status s = STATUS_OKAY"
    using fin that st8 by (auto split: if_splits)
  show "m_status s \<noteq> STATUS_OKAY" if "m_status s7 \<noteq> STATUS_OKAY"
    using fin that st8 by (auto split: if_splits)
qed

lemma ctor_tables_reached:
  assumes "ctor_tables e s3 clx cly = Inr s"
    and "m_Pscan_buf s3 = None"
    and "m_Pscan_buf s \<noteq> None \<or> (m_status s3 = STATUS_OKAY \<and> m_status s = STATUS_OKAY)"
    and "0 < m_resample_src_x s3" "0 < m_resample_dst_x s3" "0 < m_resample_dst_y s3"
  shows "\<exists>count.
     count_rows (m_resample_src_y s3) cly [0..m_resample_dst_y s3 - 1]
        (replicate (nat (m_resample_src_y s3)) 0) = Inr count \<and>
     ctor_order e
       (s3 \<lparr> m_Psrc_y_flag := Some (replicate (nat (m_resample_src_y s3)) False),
              m_Psrc_y_count := Some count,
              m_Pscan_buf := Some \<lparr> scan_buf_y = replicate MAX_SCAN_BUF_SIZE (- 1),
                                    scan_buf_l = replicate MAX_SCAN_BUF_SIZE None \<rparr>,
              m_cur_src_y := 0, m_cur_dst_y := 0 \<rparr>) clx cly = Inr s"
proof -
  from assms(1,2,3) have a: "alloc_ok e Site_src_y_count" "alloc_ok e Site_src_y_flag"
    "alloc_ok e Site_scan_buf"
    unfolding ctor_tables_def Let_def
    by (auto elim!: bnd_InrE split: if_splits)
  from assms(1) show ?thesis
    unfolding ctor_tables_def Let_def
    by (simp add: a) (elim bnd_InrE, simp)
qed

lemma ctor_tables_inv:
  assumes ct: "ctor_tables e s3 clx cly = Inr s"
    and ok: "m_status s = STATUS_OKAY" "m_status s3 = STATUS_OKAY"
    and nb: "m_Pscan_buf s3 = None"
    and dims: "0 < m_resample_src_x s3" "0 < m_resample_src_y s3"
      "0 < m_resample_dst_x s3" "0 < m_resample_dst_y s3"
    and cy: "m_Pclist_y s3 = Some cly"
    and db: "m_Pdst_buf s3 = Some dst" "length dst = nat (m_resample_dst_x s3)"
  shows "engine_inv s"
proof -
  define flag0 where "flag0 = replicate (nat (m_resample_src_y s3)) False"
  define buf0 where "buf0 = \<lparr> scan_buf_y = replicate MAX_SCAN_BUF_SIZE (- 1 :: int),
                              scan_buf_l = replicate MAX_SCAN_BUF_SIZE (None :: real list option) \<rparr>"
  from ctor_tables_reached[OF ct nb _ dims(1,3,4)] ok obtain count where
    cr: "count_rows (m_resample_src_y s3) cly [0..m_resample_dst_y s3 - 1]
        (replicate (nat (m_resample_src_y s3)) 0) = Inr count"
    and co: "ctor_order e
       (s3 \<lparr> m_Psrc_y_flag := Some flag0, m_Psrc_y_count := Some count,
              m_Pscan_buf := Some buf0, m_cur_src_y := 0, m_cur_dst_y := 0 \<rparr>) clx cly = Inr s"
    unfolding flag0_def buf0_def by blast
  define s7 where "s7 = s3 \<lparr> m_Psrc_y_flag := Some flag0, m_Psrc_y_count := Some count,
              m_Pscan_buf := Some buf0, m_cur_src_y := 0, m_cur_dst_y := 0 \<rparr>"
  have co7: "ctor_order e s7 clx cly = Inr s" using co by (simp add: s7_def)
  have d7: "0 < m_resample_src_x s7" "0 < m_resample_dst_x s7" "0 < m_resample_dst_y s7"
    "m_status s7 = STATUS_OKAY"
    using dims ok by (simp_all add: s7_def)
  note O = ctor_order_result[OF co7 d7(1,2,3)]
  note e = O(1)
  have f: "m_resample_src_x s = m_resample_src_x s3" "m_resample_src_y s = m_resample_src_y s3"
    "m_resample_dst_x s = m_resample_dst_x s3" "m_resample_dst_y s = m_resample_dst_y s3"
    "m_Pclist_y s = Some cly" "m_Psrc_y_count s = Some count" "m_Psrc_y_flag s = Some flag0"
    "m_Pscan_buf s = Some buf0" "m_cur_src_y s = 0" "m_cur_dst_y s = 0" "m_Pdst_buf s = Some dst"
    by (subst e, simp add: s7_def cy db)+
  have im: "m_intermediate_x s = (if m_delay_x_resample s then m_resample_src_x s3 else m_resample_dst_x s3)"
    using O(2) by (simp add: s7_def)
  have tb: "m_delay_x_resample s \<Longrightarrow> m_Ptmp_buf s = Some (fresh_buf (m_resample_src_x s3))"
    using O(6)[OF d7(4) ok(1)] im by simp
  note R = count_rows_result[OF cr]
  have le: "nat (m_resample_dst_y s3) \<le> length cly" using O(5) by (simp add: s7_def)
  have yr: "y_rows s = take (nat (m_resample_dst_y s3)) cly" by (simp add: y_rows_def f)
  have dy: "m_resample_dst_y s3 = int (nat (m_resample_dst_y s3))" using dims by simp
  have mp: "map (\<lambda>i. cly ! nat i) [0..m_resample_dst_y s3 - 1] = take (nat (m_resample_dst_y s3)) cly"
    using map_nth_upto[OF le] dy by simp
  have px: "\<forall>row \<in> set (y_rows s). \<forall>p \<in> set row. uint (pixel p) < m_resample_src_y s"
  proof (intro ballI)
    fix row p assume "row \<in> set (y_rows s)" "p \<in> set row"
    then have "row \<in> set (map (\<lambda>i. cly ! nat i) [0..m_resample_dst_y s3 - 1])" using yr mp by simp
    then obtain i where "i \<in> set [0..m_resample_dst_y s3 - 1]" "row = cly ! nat i" by auto
    with R \<open>p \<in> set row\<close> show "uint (pixel p) < m_resample_src_y s" by (auto simp: f)
  qed
  have st: "static_ok s"
    unfolding static_ok_def
    using dims px le db(2) im tb by (simp add: f yr fresh_buf_length)
  have cnt: "counts_ok [] (nat (m_cur_dst_y s)) s"
    unfolding counts_ok_def using R mp by (simp add: f yr refs_def)
  have fl: "flags_ok s"
    unfolding flags_ok_def using R dims by (simp add: f flag0_def)
  have pl: "pool_ok s"
    unfolding pool_ok_def by (simp add: f buf0_def flag0_def)
  show ?thesis
    unfolding engine_inv_def using st cnt fl pl dims by (simp add: f)
qed

lemma ctor_tables_fields:
  assumes "ctor_tables e s3 clx cly = Inr s"
  shows "m_resample_src_x s = m_resample_src_x s3" "m_resample_src_y s = m_resample_src_y s3"
    "m_resample_dst_x s = m_resample_dst_x s3" "m_resample_dst_y s = m_resample_dst_y s3"
    "m_Pclist_x s = m_Pclist_x s3" "m_Pclist_y s = m_Pclist_y s3"
    "m_lo s = m_lo s3" "m_hi s = m_hi s3" "m_boundary_op s = m_boundary_op s3"
    "m_Pdst_buf s = m_Pdst_buf s3"
  using assms unfolding ctor_tables_def ctor_order_def choose_order_def Let_def
  by (auto elim!: bnd_InrE split: if_splits)

lemma ctor_clists_reached:
  assumes "ctor_clists e s1 func support Pclist_x Pclist_y fxs fys xo yo = Inr s"
    and "m_Pscan_buf s1 = None"
    and "m_Pscan_buf s \<noteq> None \<or> (m_status s1 = STATUS_OKAY \<and> m_status s = STATUS_OKAY)"
  shows "\<exists>clx cly.
     (case Pclist_x of
        None \<Rightarrow> make_clist (\<lambda>t. alloc_ok e (Site_clist_x t)) (m_resample_src_x s1)
                  (m_resample_dst_x s1) (m_boundary_op s1) func support fxs xo
      | Some cl \<Rightarrow> Inr (Some cl)) = Inr (Some clx) \<and>
     (case Pclist_y of
        None \<Rightarrow> make_clist (\<lambda>t. alloc_ok e (Site_clist_y t)) (m_resample_src_y s1)
                  (m_resample_dst_y s1) (m_boundary_op s1) func support fys yo
      | Some cl \<Rightarrow> Inr (Some cl)) = Inr (Some cly) \<and>
     ctor_tables e
       (s1 \<lparr> m_Pclist_x := Some clx, m_clist_x_forced := (Pclist_x \<noteq> None),
              m_Pclist_y := Some cly, m_clist_y_forced := (Pclist_y \<noteq> None) \<rparr>) clx cly = Inr s"
  using assms unfolding ctor_clists_def Let_def
  by (auto elim!: bnd_InrE split: option.splits)


lemma g_filters_names:
  "find (\<lambda>f. fst f = name) g_filters = Some f \<Longrightarrow> f \<in> set g_filters"
  by (metis find_Some_iff nth_mem)

lemma Resampler_reached:
  assumes "Resampler e src_x src_y dst_x dst_y boundary_op sample_low sample_high Pfilter_name
             Pclist_x Pclist_y fxs fys xo yo = Inr s"
    and "m_Pscan_buf s \<noteq> None \<or> m_status s = STATUS_OKAY"
  shows "\<exists>f clx cly s3.
     0 < src_x \<and> 0 < src_y \<and> 0 < dst_x \<and> 0 < dst_y \<and> f \<in> set g_filters \<and>
     (case Pclist_x of
        None \<Rightarrow> make_clist (\<lambda>t. alloc_ok e (Site_clist_x t)) src_x dst_x boundary_op
                  (fst (snd f)) (snd (snd f)) fxs xo
      | Some cl \<Rightarrow> Inr (Some cl)) = Inr (Some clx) \<and>
     (case Pclist_y of
        None \<Rightarrow> make_clist (\<lambda>t. alloc_ok e (Site_clist_y t)) src_y dst_y boundary_op
                  (fst (snd f)) (snd (snd f)) fys yo
      | Some cl \<Rightarrow> Inr (Some cl)) = Inr (Some cly) \<and>
     ctor_tables e s3 clx cly = Inr s \<and>
     m_resample_src_x s3 = src_x \<and> m_resample_src_y s3 = src_y \<and>
     m_resample_dst_x s3 = dst_x \<and> m_resample_dst_y s3 = dst_y \<and>
     m_boundary_op s3 = boundary_op \<and> m_lo s3 = sample_low \<and> m_hi s3 = sample_high \<and>
     m_Pclist_x s3 = Some clx \<and> m_Pclist_y s3 = Some cly \<and>
     m_Pdst_buf s3 = Some (fresh_buf dst_x) \<and> m_Pscan_buf s3 = None \<and>
     m_status s3 = STATUS_OKAY"
proof -
  define s0 where "s0 = \<lparr> m_resample_src_x = src_x, m_resample_src_y = src_y,
                   m_resample_dst_x = dst_x, m_resample_dst_y = dst_y,
                   m_boundary_op = boundary_op,
                   m_lo = sample_low, m_hi = sample_high,
                   m_delay_x_resample = False, m_intermediate_x = 0,
                   m_Pdst_buf = None, m_Ptmp_buf = None,
                   m_clist_x_forced = False, m_Pclist_x = None,
                   m_clist_y_forced = False, m_Pclist_y = None,
                   m_Psrc_y_count = None, m_Psrc_y_flag = None, m_Pscan_buf = None,
                   m_cur_src_y = junk_cur_src_y e, m_cur_dst_y = junk_cur_dst_y e,
                   m_status = STATUS_OKAY \<rparr>"
  define s1 where "s1 = s0 \<lparr> m_Pdst_buf := Some (fresh_buf dst_x) \<rparr>"
  define name where "name = (case Pfilter_name of None \<Rightarrow> RESAMPLER_DEFAULT_FILTER e | Some n \<Rightarrow> n)"
  from assms(1) have dims: "0 < src_x" "0 < src_y" "0 < dst_x" "0 < dst_y"
    and r: "(if \<not> alloc_ok e Site_dst_buf then Inr (s0 \<lparr> m_status := STATUS_OUT_OF_MEMORY \<rparr>)
           else (case find (\<lambda>f. fst f = name) g_filters of
                   None \<Rightarrow> Inr (s1 \<lparr> m_status := STATUS_BAD_FILTER_NAME \<rparr>)
                 | Some f \<Rightarrow>
                     ctor_clists e s1 (fst (snd f)) (snd (snd f)) Pclist_x Pclist_y
                       fxs fys xo yo)) = (Inr s :: fault + resampler)"
    unfolding Resampler_def Let_def s0_def[symmetric] s1_def[symmetric] name_def[symmetric]
    by (auto elim!: bnd_InrE simp: resampler_assert_Inr)
  from r assms(2) obtain f where
    f: "find (\<lambda>f. fst f = name) g_filters = Some f"
    and cc: "ctor_clists e s1 (fst (snd f)) (snd (snd f)) Pclist_x Pclist_y fxs fys xo yo = Inr s"
    by (auto simp: s0_def s1_def split: if_splits option.splits)
  have s1f: "m_Pscan_buf s1 = None" "m_status s1 = STATUS_OKAY" by (simp_all add: s1_def s0_def)
  from ctor_clists_reached[OF cc s1f(1)] assms(2) s1f(2) obtain clx cly where
    x: "(case Pclist_x of
        None \<Rightarrow> make_clist (\<lambda>t. alloc_ok e (Site_clist_x t)) (m_resample_src_x s1)
                  (m_resample_dst_x s1) (m_boundary_op s1) (fst (snd f)) (snd (snd f)) fxs xo
      | Some cl \<Rightarrow> Inr (Some cl)) = Inr (Some clx)"
    and y: "(case Pclist_y of
        None \<Rightarrow> make_clist (\<lambda>t. alloc_ok e (Site_clist_y t)) (m_resample_src_y s1)
                  (m_resample_dst_y s1) (m_boundary_op s1) (fst (snd f)) (snd (snd f)) fys yo
      | Some cl \<Rightarrow> Inr (Some cl)) = Inr (Some cly)"
    and ct: "ctor_tables e
       (s1 \<lparr> m_Pclist_x := Some clx, m_clist_x_forced := (Pclist_x \<noteq> None),
              m_Pclist_y := Some cly, m_clist_y_forced := (Pclist_y \<noteq> None) \<rparr>) clx cly = Inr s"
    by blast
  have s1d: "m_resample_src_x s1 = src_x" "m_resample_src_y s1 = src_y"
    "m_resample_dst_x s1 = dst_x" "m_resample_dst_y s1 = dst_y" "m_boundary_op s1 = boundary_op"
    by (simp_all add: s1_def s0_def)
  show ?thesis
    apply (rule exI[of _ f])
    apply (rule exI[of _ clx])
    apply (rule exI[of _ cly])
    apply (rule exI[of _ "s1 \<lparr> m_Pclist_x := Some clx, m_clist_x_forced := (Pclist_x \<noteq> None),
              m_Pclist_y := Some cly, m_clist_y_forced := (Pclist_y \<noteq> None) \<rparr>"])
    using dims g_filters_names[OF f] x[unfolded s1d] y[unfolded s1d] ct
    by (simp add: s1d) (simp add: s1_def s0_def)
qed

section \<open>What a sequence of calls leaves unchanged\<close>

lemma resample_y_config:
  assumes "resample_y s = Inr s'"
  shows "m_resample_src_x s' = m_resample_src_x s" "m_resample_src_y s' = m_resample_src_y s"
    "m_resample_dst_x s' = m_resample_dst_x s" "m_resample_dst_y s' = m_resample_dst_y s"
    "m_Pclist_y s' = m_Pclist_y s" "m_Pclist_x s' = m_Pclist_x s"
    "m_delay_x_resample s' = m_delay_x_resample s" "m_intermediate_x s' = m_intermediate_x s"
    "m_lo s' = m_lo s" "m_hi s' = m_hi s"
    "m_cur_src_y s' = m_cur_src_y s" "m_cur_dst_y s' = m_cur_dst_y s"
proof -
  from resample_y_post[OF assms] obtain row tmp ts dst where
    loop: "ry_loop True row (tmp, s) = Inr ts"
    and s': "s' = (snd ts) \<lparr> m_Ptmp_buf := (if m_delay_x_resample s then Some (fst ts) else m_Ptmp_buf s),
                      m_Pdst_buf := Some dst \<rparr>"
    by auto
  note ff = frame_fields[OF ry_loop_frame[OF loop], simplified]
  show "m_resample_src_x s' = m_resample_src_x s" "m_resample_src_y s' = m_resample_src_y s"
    "m_resample_dst_x s' = m_resample_dst_x s" "m_resample_dst_y s' = m_resample_dst_y s"
    "m_Pclist_y s' = m_Pclist_y s" "m_Pclist_x s' = m_Pclist_x s"
    "m_delay_x_resample s' = m_delay_x_resample s" "m_intermediate_x s' = m_intermediate_x s"
    "m_lo s' = m_lo s" "m_hi s' = m_hi s"
    "m_cur_src_y s' = m_cur_src_y s" "m_cur_dst_y s' = m_cur_dst_y s"
    unfolding s' by (simp_all add: ff)
qed

lemma get_line_config:
  assumes "get_line s = Inr (r, s')"
  shows "m_resample_src_x s' = m_resample_src_x s" "m_resample_src_y s' = m_resample_src_y s"
    "m_resample_dst_x s' = m_resample_dst_x s" "m_resample_dst_y s' = m_resample_dst_y s"
    "m_Pclist_y s' = m_Pclist_y s" "m_Pclist_x s' = m_Pclist_x s"
    "m_delay_x_resample s' = m_delay_x_resample s" "m_intermediate_x s' = m_intermediate_x s"
    "m_lo s' = m_lo s" "m_hi s' = m_hi s"
  using get_line_cases[OF assms]
  by (auto dest: resample_y_config)

lemma put_line_config:
  assumes "put_line a Psrc s = Inr (b, s')"
  shows "m_resample_src_x s' = m_resample_src_x s" "m_resample_src_y s' = m_resample_src_y s"
    "m_resample_dst_x s' = m_resample_dst_x s" "m_resample_dst_y s' = m_resample_dst_y s"
    "m_Pclist_y s' = m_Pclist_y s" "m_Pclist_x s' = m_Pclist_x s"
    "m_delay_x_resample s' = m_delay_x_resample s" "m_intermediate_x s' = m_intermediate_x s"
    "m_lo s' = m_lo s" "m_hi s' = m_hi s"
  by (subst put_line_frame[OF assms], simp)+

lemma do_call_config:
  assumes "do_call c s = Inr (r, s')"
  shows "m_resample_src_x s' = m_resample_src_x s" "m_resample_src_y s' = m_resample_src_y s"
    "m_resample_dst_x s' = m_resample_dst_x s" "m_resample_dst_y s' = m_resample_dst_y s"
    "m_Pclist_y s' = m_Pclist_y s" "m_Pclist_x s' = m_Pclist_x s"
    "m_delay_x_resample s' = m_delay_x_resample s" "m_intermediate_x s' = m_intermediate_x s"
    "m_lo s' = m_lo s" "m_hi s' = m_hi s"
  using assms unfolding do_call_def
  by (cases c; auto elim!: bnd_InrE dest: put_line_config get_line_config)+

lemma run_config:
  assumes "run cs s = Inr (rs, s')"
  shows "m_resample_src_x s' = m_resample_src_x s \<and> m_resample_src_y s' = m_resample_src_y s \<and>
    m_resample_dst_x s' = m_resample_dst_x s \<and> m_resample_dst_y s' = m_resample_dst_y s \<and>
    m_Pclist_y s' = m_Pclist_y s \<and> m_Pclist_x s' = m_Pclist_x s \<and>
    m_delay_x_resample s' = m_delay_x_resample s \<and> m_intermediate_x s' = m_intermediate_x s \<and>
    m_lo s' = m_lo s \<and> m_hi s' = m_hi s"
  using assms
proof (induction cs arbitrary: s rs)
  case Nil
  then show ?case by simp
next
  case (Cons c cs)
  from Cons.prems(1) obtain r s1 rs1 where
    d: "do_call c s = Inr (r, s1)" and r: "run cs s1 = Inr (rs1, s')"
    by (auto elim!: bnd_InrE)
  from Cons.IH[OF r] do_call_config[OF d] show ?case by simp
qed

lemma Resampler_inv:
  assumes "Resampler e src_x src_y dst_x dst_y boundary_op sample_low sample_high Pfilter_name
             Pclist_x Pclist_y fxs fys xo yo = Inr s"
    and "m_status s = STATUS_OKAY"
  shows "engine_inv s" "m_resample_src_x s = src_x" "m_resample_src_y s = src_y"
    "m_resample_dst_x s = dst_x" "m_resample_dst_y s = dst_y"
    "m_lo s = sample_low" "m_hi s = sample_high"
proof -
  from Resampler_reached[OF assms(1)] assms(2) obtain f clx cly s3 where
    d: "0 < src_x" "0 < src_y" "0 < dst_x" "0 < dst_y"
    and ct: "ctor_tables e s3 clx cly = Inr s"
    and f3: "m_resample_src_x s3 = src_x" "m_resample_src_y s3 = src_y"
     "m_resample_dst_x s3 = dst_x" "m_resample_dst_y s3 = dst_y"
     "m_lo s3 = sample_low" "m_hi s3 = sample_high"
     "m_Pclist_y s3 = Some cly"
     "m_Pdst_buf s3 = Some (fresh_buf dst_x)" "m_Pscan_buf s3 = None"
     "m_status s3 = STATUS_OKAY"
    by blast
  show "engine_inv s"
    by (rule ctor_tables_inv[OF ct assms(2) f3(10) f3(9) _ _ _ _ f3(7) f3(8)])
       (simp_all add: f3 d fresh_buf_length)
  show "m_resample_src_x s = src_x" "m_resample_src_y s = src_y"
    "m_resample_dst_x s = dst_x" "m_resample_dst_y s = dst_y"
    "m_lo s = sample_low" "m_hi s = sample_high"
    using ctor_tables_fields[OF ct] f3 by simp_all
qed

section \<open>Evaluation of the example engines\<close>

lemma MAX_pos: "0 < MAX_SCAN_BUF_SIZE"
  by (simp add: MAX_SCAN_BUF_SIZE_def)

lemma find_tag_hd:
  assumes "tags \<noteq> []" "hd tags = v"
  shows "find_tag tags v = 0"
proof -
  from assms obtain xs where t: "tags = v # xs" by (cases tags) auto
  have "take MAX_SCAN_BUF_SIZE tags = v # take (MAX_SCAN_BUF_SIZE - 1) xs"
    using MAX_pos by (simp add: t take_Cons')
  then show ?thesis by (simp add: find_tag_def)
qed

lemma find_tag_free: "find_tag (replicate MAX_SCAN_BUF_SIZE (- 1)) (- 1) = 0"
  using MAX_pos by (intro find_tag_hd) (simp_all add: hd_replicate)

lemma replicate_two: "replicate 2 x = [x, x]"
  by (simp add: numeral_2_eq_2)

lemma dead_row_engine_eval: "dead_row_engine = Inr dead_row_state"
  by (simp add: dead_row_engine_def dead_row_state_def Resampler_def resampler_assert_def
      demo_env_def g_filters_def ctor_clists_def ctor_tables_def rd_def wr_def
      resampler_range_check_def ctor_order_def count_ops_def int32_def choose_order_def
      fresh_buf_def Let_def replicate_two)

lemma find_tag_upd0: "find_tag ((replicate MAX_SCAN_BUF_SIZE (- 1))[0 := v]) v = 0"
  using MAX_pos by (intro find_tag_hd) (auto simp: hd_conv_nth)

lemma replicate_update_same: "(replicate n x)[i := x] = replicate n x"
  by (cases "i < n") (auto simp add: list_eq_iff_nth_eq nth_list_update)

lemma upto_0_0: "[0..0::int] = [0]"
  by (simp add: upto.simps)

lemmas eval_defs = put_line_def get_line_def resample_y_def ry_step_def resample_x_def
  scale_y_mov_def scale_y_add_def clamp_def memcpy_def do_call_def
  resampler_range_check_def resampler_assert_def assert_ptr_def deref_def rd_def wr_def
  fresh_buf_def Let_def

lemmas eval_simps = find_tag_free find_tag_upd0 replicate_update_same upto_0_0

lemma dead_row_run:
  "run dead_row_calls dead_row_state =
     Inr ([Put_reply True, Put_reply True, Get_reply (Some [5]), Get_reply None], dead_row_final)"
  using MAX_pos
  by (simp add: dead_row_calls_def dead_row_final_def eval_defs dead_row_state_def eval_simps)

lemma MAX_facts:
  "MAX_SCAN_BUF_SIZE \<noteq> 0" "MAX_SCAN_BUF_SIZE \<noteq> Suc 0" "Suc 0 \<noteq> MAX_SCAN_BUF_SIZE"
  "0 < MAX_SCAN_BUF_SIZE" "Suc 0 < MAX_SCAN_BUF_SIZE" "MAX_SCAN_BUF_SIZE \<noteq> 1" "1 < MAX_SCAN_BUF_SIZE"
  by (simp_all add: MAX_SCAN_BUF_SIZE_def)

lemma replicate_MAX:
  "replicate MAX_SCAN_BUF_SIZE x = x # x # replicate (MAX_SCAN_BUF_SIZE - 2) x"
proof -
  have "MAX_SCAN_BUF_SIZE = Suc (Suc (MAX_SCAN_BUF_SIZE - 2))"
    by (simp add: MAX_SCAN_BUF_SIZE_def)
  then have "replicate MAX_SCAN_BUF_SIZE x = replicate (Suc (Suc (MAX_SCAN_BUF_SIZE - 2))) x"
    by simp
  then show ?thesis by simp
qed

lemma find_tag_Cons_hit: "find_tag (v # xs) v = 0"
  by (rule find_tag_hd) simp_all

lemma find_tag_Cons_miss: "x \<noteq> v \<Longrightarrow> find_tag (x # v # xs) v = 1"
proof -
  assume n: "x \<noteq> v"
  have "MAX_SCAN_BUF_SIZE = Suc (Suc (MAX_SCAN_BUF_SIZE - 2))"
    by (simp add: MAX_SCAN_BUF_SIZE_def)
  then have "take MAX_SCAN_BUF_SIZE (x # v # xs) = x # v # take (MAX_SCAN_BUF_SIZE - 2) xs"
    by (metis take_Suc_Cons)
  with n show ?thesis by (simp add: find_tag_def)
qed

lemma upto_0_1: "[0..1::int] = [0, 1]"
  by (simp add: upto.simps)

lemmas eval_simps2 = MAX_facts replicate_MAX find_tag_Cons_hit find_tag_Cons_miss upto_0_0 upto_0_1

lemmas ctor_defs = Resampler_def resampler_assert_def
  demo_env_def g_filters_def ctor_clists_def ctor_tables_def rd_def wr_def
  resampler_range_check_def ctor_order_def count_ops_def int32_def choose_order_def
  fresh_buf_def Let_def replicate_two

lemma two_row_engine_eval: "two_row_engine = Inr two_row_state"
  by (simp add: two_row_engine_def two_row_state_def ctor_defs eval_simps2)

lemma two_row_oom:
  "run [Put_line True (Some [7]), Put_line False (Some [5])] two_row_state =
     Inr ([Put_reply True, Put_reply False], oom_state)"
  by (simp add: oom_state_def two_row_state_def eval_defs eval_simps2)

lemma oom_run:
  "run oom_calls oom_state =
     Inr ([Get_reply (Some [7]), Put_reply True, Get_reply (Some [5])], oom_final)"
  by (simp add: oom_calls_def oom_final_def oom_state_def two_row_state_def eval_defs eval_simps2)

lemma restart_failed: "m_status s \<noteq> STATUS_OKAY \<Longrightarrow> restart s = Inr s"
  by (auto simp: restart_def)

section \<open>Totality of the horizontal pass\<close>

lemma present_loop_value:
  assumes "m_Psrc_y_flag s = Some flag"
    and "\<forall>p \<in> set ps. uint (pixel p) < m_resample_src_y s"
    and "nat (m_resample_src_y s) \<le> length flag"
  shows "present_loop s ps = Inr (list_all (\<lambda>p. flag ! unat (pixel p)) ps)"
  using assms(2)
proof (induction ps)
  case Nil
  then show ?case by simp
next
  case (Cons p ps)
  from Cons.prems have lt: "uint (pixel p) < m_resample_src_y s" by simp
  with assms(3) have l2: "uint (pixel p) < int (length flag)" by linarith
  have n: "nat (uint (pixel p)) = unat (pixel p)" by simp
  from Cons show ?case
    using lt l2 assms(1)
    by (simp add: resampler_range_check_def resampler_assert_def deref_def rd_def n)
qed

lemma dot_loop_total:
  "\<forall>p \<in> set cl. uint (pixel p) < int (length src) \<Longrightarrow> \<exists>v. dot_loop src cl t = Inr v"
  by (induction cl arbitrary: t) (simp_all add: rd_def)

lemma resample_x_loop_total:
  assumes "\<forall>i \<in> set is. 0 \<le> i \<and> i < int (length cl) \<and> i < int (length dst) \<and>
             (\<forall>p \<in> set (cl ! nat i). uint (pixel p) < int (length src))"
  shows "\<exists>d. resample_x_loop cl src is dst = Inr d"
  using assms
proof (induction "is" arbitrary: dst)
  case Nil
  then show ?case by simp
next
  case (Cons i "is")
  from Cons.prems have i: "0 \<le> i" "i < int (length cl)" "i < int (length dst)"
    and px: "\<forall>p \<in> set (cl ! nat i). uint (pixel p) < int (length src)" by simp_all
  from dot_loop_total[OF px] obtain v where v: "dot_loop src (cl ! nat i) 0 = Inr v" by blast
  have "\<exists>d. resample_x_loop cl src is (dst[nat i := v]) = Inr d"
    by (rule Cons.IH) (use Cons.prems in simp)
  then show ?case using i v by (simp add: rd_def wr_def)
qed

lemma resample_x_total:
  assumes "x_rows_ok s" "length src = nat (m_resample_src_x s)"
    "length dst = nat (m_resample_dst_x s)"
  shows "\<exists>d. resample_x s (Some dst) (Some src) = Inr d"
proof (cases "m_resample_dst_x s \<le> 0")
  case True
  then show ?thesis by (simp add: resample_x_def assert_ptr_def)
next
  case False
  from assms(1) obtain cl where cl: "m_Pclist_x s = Some cl"
    and le: "nat (m_resample_dst_x s) \<le> length cl"
    and px: "\<forall>row \<in> set (take (nat (m_resample_dst_x s)) cl).
               \<forall>p \<in> set row. uint (pixel p) < m_resample_src_x s"
    by (auto simp: x_rows_ok_def split: option.splits)
  have "\<exists>d. resample_x_loop cl src [0..m_resample_dst_x s - 1] dst = Inr d"
  proof (rule resample_x_loop_total, rule ballI)
    fix i assume "i \<in> set [0..m_resample_dst_x s - 1]"
    then have i: "0 \<le> i" "i < m_resample_dst_x s" by auto
    then have n: "nat i < nat (m_resample_dst_x s)" by simp
    then have "cl ! nat i \<in> set (take (nat (m_resample_dst_x s)) cl)"
      using le by (metis length_take min.absorb2 nth_mem nth_take)
    with px have "\<forall>p \<in> set (cl ! nat i). uint (pixel p) < m_resample_src_x s" by blast
    moreover have "0 < m_resample_src_x s \<or> set (cl ! nat i) = {}"
      using calculation by (cases "cl ! nat i") (auto intro: le_less_trans[OF uint_nonnegative])
    ultimately have "\<forall>p \<in> set (cl ! nat i). uint (pixel p) < int (length src)"
      using assms(2) by auto
    then show "0 \<le> i \<and> i < int (length cl) \<and> i < int (length dst) \<and>
             (\<forall>p \<in> set (cl ! nat i). uint (pixel p) < int (length src))"
      using i n le assms(3) by auto
  qed
  then show ?thesis using False cl by (simp add: resample_x_def assert_ptr_def deref_def)
qed

section \<open>Totality of get_line\<close>

lemma clist_y_row:
  assumes "engine_inv s" "m_cur_dst_y s \<noteq> m_resample_dst_y s"
  shows "\<exists>cly. m_Pclist_y s = Some cly \<and>
           rd cly (m_cur_dst_y s) = Inr (cly ! nat (m_cur_dst_y s)) \<and>
           (\<forall>p \<in> set (cly ! nat (m_cur_dst_y s)). uint (pixel p) < m_resample_src_y s)"
proof -
  from assms have a: "static_ok s" "0 \<le> m_cur_dst_y s" "m_cur_dst_y s < m_resample_dst_y s"
    by (auto simp: engine_inv_def)
  from a(1) have len: "length (y_rows s) = nat (m_resample_dst_y s)"
    and px: "\<forall>row \<in> set (y_rows s). \<forall>p \<in> set row. uint (pixel p) < m_resample_src_y s"
    and dy: "0 < m_resample_dst_y s"
    by (simp_all add: static_ok_def)
  from len dy obtain cly where cly: "m_Pclist_y s = Some cly"
    by (cases "m_Pclist_y s") (auto simp: y_rows_def)
  from len cly have l2: "nat (m_resample_dst_y s) \<le> length cly"
    by (simp add: y_rows_def)
  have n: "nat (m_cur_dst_y s) < nat (m_resample_dst_y s)" using a(2,3) by simp
  then have "m_cur_dst_y s < int (length cly)" using l2 by linarith
  then have r: "rd cly (m_cur_dst_y s) = Inr (cly ! nat (m_cur_dst_y s))"
    using a(2) by (simp add: rd_def)
  have "y_rows s ! nat (m_cur_dst_y s) = cly ! nat (m_cur_dst_y s)"
    using y_rows_nth[OF cly r a(3)] .
  moreover have "y_rows s ! nat (m_cur_dst_y s) \<in> set (y_rows s)"
    using n len by simp
  ultimately show ?thesis using cly r px by auto
qed

lemma resample_y_total:
  assumes inv: "engine_inv s" and xr: "x_rows_ok s"
    and ne: "m_cur_dst_y s \<noteq> m_resample_dst_y s"
    and cly: "m_Pclist_y s = Some cly" and row: "rd cly (m_cur_dst_y s) = Inr row"
    and pres: "present_loop s row = Inr True"
  shows "\<exists>s1 dst. resample_y s = Inr s1 \<and> m_Pdst_buf s1 = Some dst \<and>
           length dst = nat (m_resample_dst_x s)"
proof -
  from inv have st: "static_ok s" by (simp add: engine_inv_def)
  from st obtain d0 where d0: "m_Pdst_buf s = Some d0" "length d0 = nat (m_resample_dst_x s)"
    by (auto simp: static_ok_def split: option.splits)
  from st d0 obtain tmp where
    tmp: "(if m_delay_x_resample s then m_Ptmp_buf s else m_Pdst_buf s) = Some tmp"
    by (auto simp: static_ok_def split: option.splits if_splits)
  note li = loop_inv_start[OF inv ne cly row pres tmp]
  from ry_loop_total[OF li] obtain ts where loop: "ry_loop True row (tmp, s) = Inr ts" by blast
  note ff = frame_fields[OF ry_loop_frame[OF loop], simplified]
  have tl: "length (fst ts) = nat (m_intermediate_x s)"
    using ry_loop_tmp_length[OF loop] li by (simp add: loop_inv_def)
  have xr': "x_rows_ok (snd ts)"
    using xr by (simp add: x_rows_ok_def ff cong: option.case_cong)
  obtain s2 d1 where
    s2: "(if m_delay_x_resample s then
            bnd (resample_x (snd ts) (m_Pdst_buf s) (Some (fst ts))) (\<lambda>dst.
              Inr ((snd ts) \<lparr> m_Ptmp_buf := Some (fst ts), m_Pdst_buf := Some dst \<rparr>))
          else Inr ((snd ts) \<lparr> m_Pdst_buf := Some (fst ts) \<rparr>)) = Inr s2"
    and d1: "m_Pdst_buf s2 = Some d1" "length d1 = nat (m_resample_dst_x s)"
    and c2: "m_lo s2 = m_lo s" "m_hi s2 = m_hi s" "m_resample_dst_x s2 = m_resample_dst_x s"
  proof (cases "m_delay_x_resample s")
    case True
    with st have ix: "m_intermediate_x s = m_resample_src_x s" by (simp add: static_ok_def)
    from resample_x_total[OF xr', of "fst ts" d0] tl ix d0 obtain d where
      d: "resample_x (snd ts) (Some d0) (Some (fst ts)) = Inr d" by (auto simp: ff)
    from resample_x_length[OF d] have "length d = length d0" by simp
    with d d0 True that[of "(snd ts) \<lparr> m_Ptmp_buf := Some (fst ts), m_Pdst_buf := Some d \<rparr>" d]
    show ?thesis by (simp add: ff)
  next
    case False
    with st have ix: "m_intermediate_x s = m_resample_dst_x s" by (simp add: static_ok_def)
    with False tl that[of "(snd ts) \<lparr> m_Pdst_buf := Some (fst ts) \<rparr>" "fst ts"]
    show ?thesis by (simp add: ff)
  qed
  have "\<exists>s1 dst. (if m_lo s2 < m_hi s2 then
         bnd (deref (m_Pdst_buf s2)) (\<lambda>dst.
         bnd (clamp s2 dst (m_resample_dst_x s2)) (\<lambda>dst'.
           Inr (s2 \<lparr> m_Pdst_buf := Some dst' \<rparr>)))
       else Inr s2) = Inr s1 \<and> m_Pdst_buf s1 = Some dst \<and> length dst = nat (m_resample_dst_x s)"
    using d1 c2 by (auto simp: deref_def clamp_def)
  then show ?thesis
    unfolding resample_y_def
    using cly row tmp loop s2 by (simp add: deref_def assert_ptr_def)
qed

lemma get_line_ready:
  assumes "engine_inv s" "x_rows_ok s" "m_cur_dst_y s \<noteq> m_resample_dst_y s"
    and "m_Pclist_y s = Some cly" "m_Psrc_y_flag s = Some flag"
    and "\<forall>p \<in> set (cly ! nat (m_cur_dst_y s)). flag ! unat (pixel p)"
  shows "\<exists>row s1. resample_y s = Inr s1 \<and> m_Pdst_buf s1 = Some row \<and>
           length row = nat (m_resample_dst_x s) \<and>
           get_line s = Inr (Some row, s1 \<lparr> m_cur_dst_y := m_cur_dst_y s + 1 \<rparr>)"
proof -
  from clist_y_row[OF assms(1,3)] assms(4) have
    r: "rd cly (m_cur_dst_y s) = Inr (cly ! nat (m_cur_dst_y s))"
    and px: "\<forall>p \<in> set (cly ! nat (m_cur_dst_y s)). uint (pixel p) < m_resample_src_y s"
    by auto
  from assms(1) have "flags_ok s" by (simp add: engine_inv_def)
  with assms(5) have fl: "nat (m_resample_src_y s) \<le> length flag"
    by (auto simp: flags_ok_def split: option.splits)
  have pr: "present_loop s (cly ! nat (m_cur_dst_y s)) = Inr True"
    using present_loop_value[OF assms(5) px fl] assms(6) by (auto simp: list_all_iff)
  from resample_y_total[OF assms(1,2,3,4) r pr] obtain s1 dst where
    s1: "resample_y s = Inr s1" "m_Pdst_buf s1 = Some dst" "length dst = nat (m_resample_dst_x s)"
    by blast
  have "get_line s = Inr (Some dst, s1 \<lparr> m_cur_dst_y := m_cur_dst_y s + 1 \<rparr>)"
    using assms(3,4) r pr s1 resample_y_config(12)[OF s1(1)]
    by (simp add: get_line_def deref_def)
  with s1 show ?thesis by blast
qed

section \<open>The box filter at equal lengths\<close>

lemma rows_loop_map:
  "\<forall>i \<in> set is. row (f i) = Inr (Some (g i)) \<Longrightarrow>
   rows_loop row (map f is) acc = Inr (Some (acc @ map g is))"
  by (induction "is" arbitrary: acc) simp_all

lemma upto_three: "[i - 1..i + 1] = [i - 1, i, i + 1]"
proof -
  have "[i - 1..i + 1] = (i - 1) # [i..i + 1]" by (simp add: upto_rec1)
  also have "[i..i + 1] = i # [i + 1..i + 1]" by (simp add: upto_rec1)
  finally show ?thesis by simp
qed

lemma cast_to_int_of_int: "cast_to_int (of_int k) = k"
  by (simp add: cast_to_int_def)

lemma box_bounds:
  "bounds_of 1 (1 / 2) 0 i = \<lparr> center = of_int i, left = i - 1, right = i + 1 \<rparr>"
proof -
  have f: "\<lfloor>of_int i - 1 / 2 :: real\<rfloor> = i - 1" by (rule floor_unique) simp_all
  have c: "\<lceil>of_int i + 1 / 2 :: real\<rceil> = i + 1" by (rule ceiling_unique) simp_all
  show ?thesis
    by (simp add: bounds_of_def NUDGE_def Let_def cast_to_int_of_int f c)
qed

lemma box_row:
  assumes "0 \<le> i" "i < n"
  shows "make_row n op (returns box_filter) (\<lambda>c j. (c - of_int j) * (1 / 1))
           \<lparr> center = of_int i, left = i - 1, right = i + 1 \<rparr>
         = Inr (Some [\<lparr> weight = 1, pixel = word_of_int i \<rparr>])"
proof -
  have r: "reflect i n op = i" using assms by (simp add: reflect_def)
  show ?thesis
    by (simp add: make_row_def upto_three returns_def box_filter_def Let_def emit_init_def
        emit_entry_def r)
qed

lemma box_identity:
  assumes "1 \<le> n"
  shows "make_clist (\<lambda>_. True) n n op (returns box_filter) (1 / 2) 1 0 =
           Inr (Some (map (\<lambda>i. [\<lparr> weight = 1, pixel = word_of_int i \<rparr>]) [0..n - 1]))"
proof -
  have x: "(of_int n :: real) / of_int n = 1" using assms by simp
  have s: "sum_list (map (\<lambda>b. right b - left b + 1)
             (map (bounds_of 1 (1 / 2) 0) [0..n - 1])) = 3 * n"
  proof -
    have e: "map (\<lambda>b. right b - left b + 1) (map (bounds_of 1 (1 / 2) 0) xs)
          = map (\<lambda>i. 3) xs" for xs
      by (induction xs) (simp_all add: box_bounds)
    show ?thesis unfolding e using assms by (simp add: sum_list_triv)
  qed
  have rows: "rows_loop (make_row n op (returns box_filter) (\<lambda>c j. (c - of_int j) * (1 / 1)))
                (map (bounds_of 1 (1 / 2) 0) [0..n - 1]) []
              = Inr (Some ([] @ map (\<lambda>i. [\<lparr> weight = 1, pixel = word_of_int i \<rparr>]) [0..n - 1]))"
  proof (rule rows_loop_map, rule ballI)
    fix i assume "i \<in> set [0..n - 1]"
    then have i: "0 \<le> i" "i < n" by auto
    show "make_row n op (returns box_filter) (\<lambda>c j. (c - of_int j) * (1 / 1))
            (bounds_of 1 (1 / 2) 0 i)
          = Inr (Some [\<lparr> weight = 1, pixel = word_of_int i \<rparr>])"
      unfolding box_bounds using box_row[OF i] .
  qed
  show ?thesis
    unfolding make_clist_def Let_def x
    using assms rows s by (simp add: calloc_ok_def)
qed

lemma pixel_of_reflect:
  assumes "1 \<le> src_x" "pixel p = word_of_int (reflect j src_x op)"
  shows "uint (pixel p) = reflect j src_x op mod 65536" "uint (pixel p) < src_x"
    "src_x \<le> 65536 \<Longrightarrow> uint (pixel p) = reflect j src_x op"
proof -
  note r = reflect_range[OF assms(1), of j op]
  show m: "uint (pixel p) = reflect j src_x op mod 65536"
    unfolding assms(2) by (simp add: uint_word_of_int take_bit_eq_mod)
  have "reflect j src_x op mod 65536 \<le> reflect j src_x op"
    using r by (simp add: zmod_le_nonneg_dividend)
  with m r show "uint (pixel p) < src_x" by linarith
  show "uint (pixel p) = reflect j src_x op" if "src_x \<le> 65536"
    using m r that by simp
qed

section \<open>The sources that get an entry\<close>

lemma emit_loop_pixels:
  assumes "emit_loop src_x op (returns f) arg nrm js st = Inr st'" "nrm \<noteq> 0"
  shows "map pixel (es_p st') =
           map pixel (es_p st) @
           map (\<lambda>j. word_of_int (reflect j src_x op)) (filter (\<lambda>j. f (arg j) \<noteq> 0) js)"
  using assms(1)
proof (induction js arbitrary: st)
  case Nil
  then show ?case by simp
next
  case (Cons j js)
  show ?case
  proof (cases "f (arg j) = 0")
    case True
    with Cons.prems have "emit_loop src_x op (returns f) arg nrm js st = Inr st'"
      by (simp add: returns_def)
    from Cons.IH[OF this] True show ?thesis by simp
  next
    case False
    with assms(2) have "f (arg j) * nrm \<noteq> 0" by simp
    with Cons.prems have
      "emit_loop src_x op (returns f) arg nrm js (emit_entry src_x op j (f (arg j) * nrm) st) = Inr st'"
      by (simp add: returns_def Let_def)
    from Cons.IH[OF this] False show ?thesis
      by (simp add: emit_entry_def Let_def)
  qed
qed

lemma map_pixel_weight_update:
  "map pixel (xs[k := (xs ! k) \<lparr> weight := w \<rparr>]) = map pixel xs"
  by (cases "k < length xs") (auto simp: list_eq_iff_nth_eq nth_list_update)

lemma make_row_pixels:
  assumes "make_row src_x op (returns f) arg b = Inr (Some row)"
  shows "map pixel row =
           map (\<lambda>j. word_of_int (reflect j src_x op))
             (filter (\<lambda>j. f (arg (center b) j) \<noteq> 0) [left b..right b])"
proof -
  from assms obtain tw st where
    tw: "tw \<noteq> 0"
    and el: "emit_loop src_x op (returns f) (arg (center b)) (1 / tw) [left b..right b] emit_init = Inr st"
    and fin: "(if es_max_k st = - 1 \<or> length (es_p st) = 0 then Inr None
               else if es_total st \<noteq> 1 then
                 (let k = nat (es_max_k st); c = es_p st ! k
                  in Inr (Some ((es_p st)[k := c \<lparr> weight := weight c + (1 - es_total st) \<rparr>])))
               else Inr (Some (es_p st))) = Inr (Some row)"
    by (auto simp: make_row_def Let_def bnd_eq_Inr split: if_splits)
  from tw have n: "1 / tw \<noteq> 0" by simp
  from fin have "map pixel row = map pixel (es_p st)"
    by (auto simp: Let_def map_pixel_weight_update split: if_splits)
  with emit_loop_pixels[OF el n] show ?thesis by (simp add: emit_init_def)
qed

lemma make_clist_rows_explicit:
  assumes "make_clist ok src_x dst_x op Pf support scale ofs = Inr (Some cl)"
  shows "list_all2 (\<lambda>i r. make_row src_x op Pf (clist_arg src_x dst_x scale)
                      (clist_bounds src_x dst_x support scale ofs i) = Inr (Some r))
            [0..dst_x - 1] cl"
proof -
  have a: "(\<lambda>c j. (c - of_int j) * clist_xscale src_x dst_x / scale) = clist_arg src_x dst_x scale"
    if "clist_xscale src_x dst_x < 1"
    using that by (simp add: clist_arg_def fun_eq_iff)
  have b: "(\<lambda>c j. (c - of_int j) / scale) = clist_arg src_x dst_x scale"
    if "\<not> clist_xscale src_x dst_x < 1"
    using that by (simp add: clist_arg_def fun_eq_iff)
  have c: "bounds_of (clist_xscale src_x dst_x) (support * scale / clist_xscale src_x dst_x) ofs
           = clist_bounds src_x dst_x support scale ofs"
    if "clist_xscale src_x dst_x < 1"
    using that by (simp add: clist_bounds_def clist_half_width_def fun_eq_iff)
  have d: "bounds_of (clist_xscale src_x dst_x) (support * scale) ofs
           = clist_bounds src_x dst_x support scale ofs"
    if "\<not> clist_xscale src_x dst_x < 1"
    using that by (simp add: clist_bounds_def clist_half_width_def fun_eq_iff)
  from assms have "\<exists>rs. cl = [] @ rs \<and>
      list_all2 (\<lambda>b r. make_row src_x op Pf (clist_arg src_x dst_x scale) b = Inr (Some r))
        (map (clist_bounds src_x dst_x support scale ofs) [0..dst_x - 1]) rs"
    unfolding make_clist_def Let_def clist_xscale_def[symmetric]
    by (auto split: if_splits simp: a b c d dest!: rows_loop_all2)
  then show ?thesis by (simp add: list_all2_map1)
qed

lemma half_bounds:
  "bounds_of (1 / 2) 1 0 0 = \<lparr> center = 1 / 2, left = - 1, right = 2 \<rparr>"
  "bounds_of (1 / 2) 1 0 1 = \<lparr> center = 5 / 2, left = 1, right = 4 \<rparr>"
proof -
  have a: "\<lfloor>- (1 / 2) :: real\<rfloor> = - 1" by (rule floor_unique) simp_all
  have b: "\<lceil>3 / 2 :: real\<rceil> = 2" by (rule ceiling_unique) simp_all
  have c: "\<lfloor>3 / 2 :: real\<rfloor> = 1" by (rule floor_unique) simp_all
  have d: "\<lceil>7 / 2 :: real\<rceil> = 4" by (rule ceiling_unique) simp_all
  have e: "(1 / 2 :: real) - 1 = - (1 / 2)" "(1 / 2 :: real) + 1 = 3 / 2"
    "(5 / 2 :: real) - 1 = 3 / 2" "(5 / 2 :: real) + 1 = 7 / 2" by simp_all
  show "bounds_of (1 / 2) 1 0 0 = \<lparr> center = 1 / 2, left = - 1, right = 2 \<rparr>"
    unfolding bounds_of_def NUDGE_def Let_def cast_to_int_of_int
    by (simp add: e a b del: ceiling_divide_eq_div_numeral floor_divide_eq_div_numeral)
  show "bounds_of (1 / 2) 1 0 1 = \<lparr> center = 5 / 2, left = 1, right = 4 \<rparr>"
    unfolding bounds_of_def NUDGE_def Let_def cast_to_int_of_int
    by (simp add: e c d)
qed

lemma upto_m1_2: "[- 1..2::int] = [- 1, 0, 1, 2]" and upto_1_4: "[1..4::int] = [1, 2, 3, 4]"
  by (simp_all add: upto.simps)

lemma box_filter_nonzero: "box_filter t \<noteq> 0 \<longleftrightarrow> - (1 / 2) \<le> t \<and> t < 1 / 2"
  by (simp add: box_filter_def)

lemma box_halving:
  "make_clist (\<lambda>_. True) 4 2 BOUNDARY_CLAMP (returns box_filter) (1 / 2) 1 0 =
     Inr (Some [[\<lparr> weight = 1 / 2, pixel = 0 \<rparr>, \<lparr> weight = 1 / 2, pixel = 1 \<rparr>],
                [\<lparr> weight = 1 / 2, pixel = 2 \<rparr>, \<lparr> weight = 1 / 2, pixel = 3 \<rparr>]])"
  unfolding make_clist_def Let_def
  by (simp add: calloc_ok_def half_bounds upto_0_1 upto_m1_2 upto_1_4
     make_row_def returns_def box_filter_def emit_init_def emit_entry_def reflect_def Let_def)

lemma shifted_bounds:
  "bounds_of 1 (1 / 2) (1 / 2) 0 = \<lparr> center = 1 / 2, left = 0, right = 1 \<rparr>"
  "bounds_of 1 (1 / 2) (1 / 2) 1 = \<lparr> center = 3 / 2, left = 1, right = 2 \<rparr>"
  by (simp_all add: bounds_of_def NUDGE_def Let_def cast_to_int_of_int)

lemma upto_1_2: "[1..2::int] = [1, 2]"
  by (simp add: upto.simps)

section \<open>Constant lines\<close>

lemma dot_loop_const:
  "dot_loop (replicate n c) cl t = Inr v \<Longrightarrow> v = t + c * sum_list (map weight cl)"
proof (induction cl arbitrary: t)
  case Nil
  then show ?case by simp
next
  case (Cons p ps)
  from Cons.prems have lt: "uint (pixel p) < int n"
    and r: "dot_loop (replicate n c) ps (t + replicate n c ! nat (uint (pixel p)) * weight p) = Inr v"
    by (auto elim!: bnd_InrE simp: rd_Inr)
  from lt have "nat (uint (pixel p)) < n" using uint_nonnegative[of "pixel p"] by linarith
  with r have "dot_loop (replicate n c) ps (t + c * weight p) = Inr v" by simp
  from Cons.IH[OF this] show ?case by (simp add: algebra_simps)
qed

lemma resample_x_loop_const:
  assumes "resample_x_loop cl (replicate n c) is dst = Inr d"
    and "\<forall>i \<in> set is. 0 \<le> i \<and> i < int (length cl) \<longrightarrow> sum_list (map weight (cl ! nat i)) = 1"
  shows "length d = length dst \<and>
         (\<forall>k < length dst. d ! k = (if int k \<in> set is then c else dst ! k))"
  using assms
proof (induction "is" arbitrary: dst)
  case Nil
  then show ?case by simp
next
  case (Cons i "is")
  from Cons.prems(1) obtain v where
    i: "0 \<le> i" "i < int (length cl)" "i < int (length dst)"
    and v: "dot_loop (replicate n c) (cl ! nat i) 0 = Inr v"
    and rest: "resample_x_loop cl (replicate n c) is (dst[nat i := v]) = Inr d"
    by (auto elim!: bnd_InrE simp: rd_Inr wr_Inr)
  from dot_loop_const[OF v] Cons.prems(2) i have vc: "v = c" by simp
  from Cons.IH[OF rest] Cons.prems(2) have
    l: "length d = length dst"
    and k: "\<forall>k < length dst. d ! k = (if int k \<in> set is then c else dst[nat i := v] ! k)"
    by simp_all
  show ?case
  proof (intro conjI allI impI)
    show "length d = length dst" using l .
    fix k assume kl: "k < length dst"
    show "d ! k = (if int k \<in> set (i # is) then c else dst ! k)"
    proof (cases "int k = i")
      case True
      then have "nat i = k" by simp
      with k kl vc True show ?thesis by simp
    next
      case False
      then have "nat i \<noteq> k" using i(1) by auto
      with k kl False show ?thesis by simp
    qed
  qed
qed

lemma resample_x_const:
  assumes "resample_x s (Some dst) (Some (replicate n c)) = Inr d"
    and "m_Pclist_x s = Some cl"
    and "\<forall>row \<in> set (take (nat (m_resample_dst_x s)) cl). sum_list (map weight row) = 1"
    and "length dst = nat (m_resample_dst_x s)"
  shows "d = replicate (nat (m_resample_dst_x s)) c"
proof (cases "m_resample_dst_x s \<le> 0")
  case True
  with assms(1,4) show ?thesis by (simp add: resample_x_def assert_ptr_def)
next
  case False
  with assms(1,2) have
    l: "resample_x_loop cl (replicate n c) [0..m_resample_dst_x s - 1] dst = Inr d"
    by (simp add: resample_x_def assert_ptr_def deref_def)
  have u: "\<forall>i \<in> set [0..m_resample_dst_x s - 1].
             0 \<le> i \<and> i < int (length cl) \<longrightarrow> sum_list (map weight (cl ! nat i)) = 1"
  proof (intro ballI impI)
    fix i assume "i \<in> set [0..m_resample_dst_x s - 1]" and b: "0 \<le> i \<and> i < int (length cl)"
    then have "nat i < nat (m_resample_dst_x s)" "nat i < length cl" by auto
    then have "cl ! nat i \<in> set (take (nat (m_resample_dst_x s)) cl)"
      by (metis length_take min_less_iff_conj nth_mem nth_take)
    with assms(3) show "sum_list (map weight (cl ! nat i)) = 1" by blast
  qed
  from resample_x_loop_const[OF l u] assms(4) have
    "length d = nat (m_resample_dst_x s)"
    "\<forall>k < nat (m_resample_dst_x s). d ! k = c"
    by auto
  then show ?thesis by (simp add: list_eq_iff_nth_eq)
qed

lemma memcpy_const:
  assumes "memcpy line (Some (replicate n c)) m = Inr line'" "length line = nat m" "0 \<le> m"
  shows "line' = replicate (nat m) c"
proof (cases "m = 0")
  case True
  with assms show ?thesis by (simp add: memcpy_def)
next
  case False
  with assms have "int n \<ge> m" "line' = take (nat m) (replicate n c) @ drop (nat m) line"
    by (auto simp: memcpy_def deref_def split: if_splits)
  moreover from this have "nat m \<le> n" by linarith
  ultimately show ?thesis using assms(2) by (simp add: min_def)
qed

section \<open>The range of the operation counts\<close>

lemma int32_in_range: "in_int32 v \<Longrightarrow> int32 v = Inr v"
  by (simp add: int32_def in_int32_def)

lemma int32_range_iff: "int32 v = Inr w \<longleftrightarrow> in_int32 v \<and> w = v"
  by (auto simp: int32_def in_int32_def)

lemma choose_order_total:
  assumes "ops_in_range x_ops y_ops (m_resample_src_x s) (m_resample_src_y s)
             (m_resample_dst_x s) (m_resample_dst_y s)"
    and "0 \<le> x_ops" "0 \<le> y_ops" "0 < m_resample_src_x s" "0 < m_resample_dst_x s"
  shows "choose_order s x_ops y_ops =
           Inr (s \<lparr> m_delay_x_resample :=
                      spec_delay x_ops y_ops (m_resample_src_x s) (m_resample_src_y s)
                        (m_resample_dst_x s) (m_resample_dst_y s),
                    m_intermediate_x :=
                      (if spec_delay x_ops y_ops (m_resample_src_x s) (m_resample_src_y s)
                            (m_resample_dst_x s) (m_resample_dst_y s)
                       then m_resample_src_x s else m_resample_dst_x s) \<rparr>)"
proof -
  have p: "0 \<le> 4 * y_ops * m_resample_dst_x s" "0 \<le> 4 * y_ops * m_resample_src_x s"
    using assms(3,4,5) by simp_all
  note d = sdiv_nonneg[OF p(1)] sdiv_nonneg[OF p(2)]
  from assms(1) have r:
    "int32 (x_ops * m_resample_src_y s) = Inr (x_ops * m_resample_src_y s)"
    "int32 (4 * y_ops) = Inr (4 * y_ops)"
    "int32 (4 * y_ops * m_resample_dst_x s) = Inr (4 * y_ops * m_resample_dst_x s)"
    "int32 (x_ops * m_resample_src_y s + 4 * y_ops * m_resample_dst_x s div 3)
       = Inr (x_ops * m_resample_src_y s + 4 * y_ops * m_resample_dst_x s div 3)"
    "int32 (4 * y_ops * m_resample_src_x s) = Inr (4 * y_ops * m_resample_src_x s)"
    "int32 (x_ops * m_resample_dst_y s) = Inr (x_ops * m_resample_dst_y s)"
    "int32 (4 * y_ops * m_resample_src_x s div 3 + x_ops * m_resample_dst_y s)
       = Inr (4 * y_ops * m_resample_src_x s div 3 + x_ops * m_resample_dst_y s)"
    by (simp_all add: ops_in_range_def int32_in_range spec_xy_ops_def spec_yx_ops_def)
  show ?thesis
    unfolding choose_order_def
    by (simp add: r d spec_delay_def spec_xy_ops_def spec_yx_ops_def)
qed

lemma choose_order_range:
  assumes "choose_order s x_ops y_ops = Inr s'" "0 \<le> x_ops" "0 \<le> y_ops"
    "0 < m_resample_src_x s" "0 < m_resample_dst_x s" "in_int32 x_ops" "in_int32 y_ops"
  shows "ops_in_range x_ops y_ops (m_resample_src_x s) (m_resample_src_y s)
             (m_resample_dst_x s) (m_resample_dst_y s)"
proof -
  have p: "0 \<le> 4 * y_ops * m_resample_dst_x s" "0 \<le> 4 * y_ops * m_resample_src_x s"
    using assms(3,4,5) by simp_all
  note d = sdiv_nonneg[OF p(1)] sdiv_nonneg[OF p(2)]
  from assms(1) show ?thesis
    unfolding choose_order_def ops_in_range_def spec_xy_ops_def spec_yx_ops_def
    using assms(6,7)
    by (auto elim!: bnd_InrE simp: int32_range_iff d)
qed

lemma overflow_engine_eval: "overflow_engine = Inl Int_Overflow"
  by (simp add: overflow_engine_def ctor_defs eval_simps2 in_int32_def)

lemma count_ops_loop_range:
  "count_ops_loop cl is t0 = Inr t \<Longrightarrow> is \<noteq> [] \<or> in_int32 t0 \<Longrightarrow> in_int32 t"
proof (induction "is" arbitrary: t0)
  case Nil
  then show ?case by simp
next
  case (Cons i "is")
  from Cons.prems(1) obtain t1 where
    a: "in_int32 t1" and rest: "count_ops_loop cl is t1 = Inr t"
    by (auto elim!: bnd_InrE simp: int32_range_iff)
  from Cons.IH[OF rest] a show ?case by simp
qed

lemma count_ops_range: "count_ops cl k = Inr t \<Longrightarrow> 0 < k \<Longrightarrow> in_int32 t"
  unfolding count_ops_def
  by (erule count_ops_loop_range) (simp add: upto.simps)

lemma ctor_order_range:
  assumes "ctor_order e s7 clx cly = Inr s"
    "0 < m_resample_src_x s7" "0 < m_resample_dst_x s7" "0 < m_resample_dst_y s7"
  shows "ops_in_range (spec_ops clx (m_resample_dst_x s7)) (spec_ops cly (m_resample_dst_y s7))
           (m_resample_src_x s7) (m_resample_src_y s7) (m_resample_dst_x s7) (m_resample_dst_y s7)"
proof -
  from assms(1) obtain x_ops y_ops s8 where
    x: "count_ops clx (m_resample_dst_x s7) = Inr x_ops"
    and y: "count_ops cly (m_resample_dst_y s7) = Inr y_ops"
    and ch: "choose_order s7 x_ops y_ops = Inr s8"
    unfolding ctor_order_def by (auto elim!: bnd_InrE)
  from count_ops_result[OF x assms(3)] count_ops_result[OF y assms(4)]
  have e: "x_ops = spec_ops clx (m_resample_dst_x s7)" "y_ops = spec_ops cly (m_resample_dst_y s7)"
    "0 \<le> x_ops" "0 \<le> y_ops" by simp_all
  from choose_order_range[OF ch e(3,4) assms(2,3) count_ops_range[OF x assms(3)]
      count_ops_range[OF y assms(4)]]
  show ?thesis by (simp add: e(1,2))
qed

lemma Resampler_in_range:
  assumes "Resampler e src_x src_y dst_x dst_y boundary_op sample_low sample_high Pfilter_name
             Pclist_x Pclist_y fxs fys xo yo = Inr s"
    and "m_Pscan_buf s \<noteq> None \<or> m_status s = STATUS_OKAY"
  shows "\<exists>clx cly. m_Pclist_x s = Some clx \<and> m_Pclist_y s = Some cly \<and>
     ops_in_range (spec_ops clx dst_x) (spec_ops cly dst_y) src_x src_y dst_x dst_y \<and>
     m_delay_x_resample s =
       spec_delay (spec_ops clx dst_x) (spec_ops cly dst_y) src_x src_y dst_x dst_y \<and>
     m_intermediate_x s = (if m_delay_x_resample s then src_x else dst_x)"
proof -
  from Resampler_reached[OF assms] obtain f clx cly s3 where
    d: "0 < src_x" "0 < src_y" "0 < dst_x" "0 < dst_y"
    and ct: "ctor_tables e s3 clx cly = Inr s"
    and f3: "m_resample_src_x s3 = src_x" "m_resample_src_y s3 = src_y"
     "m_resample_dst_x s3 = dst_x" "m_resample_dst_y s3 = dst_y"
     "m_Pclist_x s3 = Some clx" "m_Pclist_y s3 = Some cly"
     "m_Pscan_buf s3 = None" "m_status s3 = STATUS_OKAY"
    by blast
  have r: "m_Pscan_buf s \<noteq> None \<or> (m_status s3 = STATUS_OKAY \<and> m_status s = STATUS_OKAY)"
    using assms(2) f3(8) by simp
  from ctor_tables_reached[OF ct f3(7) r] d f3 obtain count where
    co: "ctor_order e
       (s3 \<lparr> m_Psrc_y_flag := Some (replicate (nat (m_resample_src_y s3)) False),
              m_Psrc_y_count := Some count,
              m_Pscan_buf := Some \<lparr> scan_buf_y = replicate MAX_SCAN_BUF_SIZE (- 1),
                                    scan_buf_l = replicate MAX_SCAN_BUF_SIZE None \<rparr>,
              m_cur_src_y := 0, m_cur_dst_y := 0 \<rparr>) clx cly = Inr s"
    by auto
  note O = ctor_order_result(2,3)[OF co, simplified, unfolded f3]
  note R = ctor_order_range[OF co, simplified, unfolded f3]
  note F = ctor_tables_fields(5,6)[OF ct, unfolded f3]
  show ?thesis
    using O[OF d(1,3,4)] R[OF d(1,3,4)] F by (simp add: f3 cong: if_cong)
qed

section \<open>The stored pixels\<close>

lemma emit_loop_sources:
  assumes "emit_loop src_x op Pf arg nrm js st = Inr st'" "nrm \<noteq> 0"
  shows "map pixel (es_p st') =
           map pixel (es_p st) @
           map (\<lambda>j. word_of_int (reflect j src_x op)) (filter (\<lambda>j. Pf (arg j) \<noteq> Inr 0) js)"
  using assms(1)
proof (induction js arbitrary: st)
  case Nil
  then show ?case by simp
next
  case (Cons j js)
  from Cons.prems obtain v where v: "Pf (arg j) = Inr v"
    by (auto elim!: bnd_InrE)
  show ?case
  proof (cases "v = 0")
    case True
    with Cons.prems v have "emit_loop src_x op Pf arg nrm js st = Inr st'"
      by simp
    from Cons.IH[OF this] True v show ?thesis by simp
  next
    case False
    with assms(2) have "v * nrm \<noteq> 0" by simp
    with Cons.prems v have
      "emit_loop src_x op Pf arg nrm js (emit_entry src_x op j (v * nrm) st) = Inr st'"
      by (simp add: Let_def)
    from Cons.IH[OF this] False v show ?thesis
      by (simp add: emit_entry_def Let_def)
  qed
qed

lemma make_row_sources:
  assumes "make_row src_x op Pf arg b = Inr (Some row)"
  shows "map pixel row =
           map (\<lambda>j. word_of_int (reflect j src_x op))
             (filter (\<lambda>j. Pf (arg (center b) j) \<noteq> Inr 0) [left b..right b])"
proof -
  from assms obtain tw st where
    tw: "tw \<noteq> 0"
    and el: "emit_loop src_x op Pf (arg (center b)) (1 / tw) [left b..right b] emit_init = Inr st"
    and fin: "(if es_max_k st = - 1 \<or> length (es_p st) = 0 then Inr None
               else if es_total st \<noteq> 1 then
                 (let k = nat (es_max_k st); c = es_p st ! k
                  in Inr (Some ((es_p st)[k := c \<lparr> weight := weight c + (1 - es_total st) \<rparr>])))
               else Inr (Some (es_p st))) = Inr (Some row)"
    by (auto simp: make_row_def Let_def bnd_eq_Inr split: if_splits)
  from tw have n: "1 / tw \<noteq> 0" by simp
  from fin have "map pixel row = map pixel (es_p st)"
    by (auto simp: Let_def map_pixel_weight_update split: if_splits)
  with emit_loop_sources[OF el n] show ?thesis by (simp add: emit_init_def)
qed

lemma make_row_stored:
  assumes "make_row src_x op Pf arg b = Inr (Some row)" "1 \<le> src_x"
  shows "map (\<lambda>p. uint (pixel p)) row =
           map (\<lambda>j. reflect j src_x op mod 65536)
             (filter (\<lambda>j. Pf (arg (center b) j) \<noteq> Inr 0) [left b..right b])"
    and "src_x \<le> 65536 \<Longrightarrow>
         map (\<lambda>p. uint (pixel p)) row =
           map (\<lambda>j. reflect j src_x op)
             (filter (\<lambda>j. Pf (arg (center b) j) \<noteq> Inr 0) [left b..right b])"
proof -
  have "map (\<lambda>p. uint (pixel p)) row = map uint (map pixel row)" by (simp add: comp_def)
  also have "\<dots> = map uint (map (\<lambda>j. word_of_int (reflect j src_x op) :: 16 word)
             (filter (\<lambda>j. Pf (arg (center b) j) \<noteq> Inr 0) [left b..right b]))"
    by (simp only: make_row_sources[OF assms(1)])
  also have "\<dots> = map (\<lambda>j. reflect j src_x op mod 65536)
             (filter (\<lambda>j. Pf (arg (center b) j) \<noteq> Inr 0) [left b..right b])"
    by (simp add: comp_def uint_word_of_int take_bit_eq_mod)
  finally show m: "map (\<lambda>p. uint (pixel p)) row =
           map (\<lambda>j. reflect j src_x op mod 65536)
             (filter (\<lambda>j. Pf (arg (center b) j) \<noteq> Inr 0) [left b..right b])" .
  show "map (\<lambda>p. uint (pixel p)) row =
           map (\<lambda>j. reflect j src_x op)
             (filter (\<lambda>j. Pf (arg (center b) j) \<noteq> Inr 0) [left b..right b])"
    if "src_x \<le> 65536"
  proof -
    have "reflect j src_x op mod 65536 = reflect j src_x op" for j
      using reflect_range[OF assms(2), of j op] that by simp
    with m show ?thesis by simp
  qed
qed

lemma make_clist_nth_row:
  assumes "make_clist ok src_x dst_x op Pf support scale ofs = Inr (Some cl)"
    and "0 \<le> i" "i < dst_x"
  shows "make_row src_x op Pf (clist_arg src_x dst_x scale)
           (clist_bounds src_x dst_x support scale ofs i) = Inr (Some (cl ! nat i))"
    and "cl ! nat i \<in> set cl"
proof -
  note L = make_clist_rows_explicit[OF assms(1)]
  have n: "nat i < length [0..dst_x - 1]" using assms(2,3) by simp
  have e: "[0..dst_x - 1] ! nat i = i" using assms(2,3) by simp
  from list_all2_nthD[OF L n] show
    "make_row src_x op Pf (clist_arg src_x dst_x scale)
       (clist_bounds src_x dst_x support scale ofs i) = Inr (Some (cl ! nat i))"
    by (simp only: e)
  from list_all2_lengthD[OF L] n show "cl ! nat i \<in> set cl" by simp
qed

lemma upto_wide: "[65535..65537::int] = [65535, 65536, 65537]"
  using upto_three[of 65536] by simp

lemma wide_bounds:
  "clist_bounds 65537 65537 (1 / 2) 1 0 65536 = \<lparr> center = 65536, left = 65535, right = 65537 \<rparr>"
  using box_bounds[of 65536]
  by (simp add: clist_bounds_def clist_half_width_def clist_xscale_def)

lemma wide_sources:
  "filter (\<lambda>j. returns box_filter (clist_arg 65537 65537 1 65536 j) \<noteq> Inr 0) [65535..65537]
     = [65536]"
  by (simp add: upto_wide returns_def box_filter_def clist_arg_def clist_xscale_def)

lemma box_shifted_wrap:
  "make_clist (\<lambda>_. True) 2 2 BOUNDARY_WRAP (returns box_filter) (1 / 2) 1 (1 / 2) =
     Inr (Some [[\<lparr> weight = 1, pixel = 1 \<rparr>], [\<lparr> weight = 1, pixel = 0 \<rparr>]])"
  unfolding make_clist_def Let_def
  by (simp add: calloc_ok_def shifted_bounds upto_0_1 upto_1_2
     make_row_def returns_def box_filter_def emit_init_def emit_entry_def reflect_def Let_def
     posmod_def smod_int_alt_def)

lemma shifted_clist_bounds:
  "clist_bounds 2 2 (1 / 2) 1 (1 / 2) 1 = \<lparr> center = 3 / 2, left = 1, right = 2 \<rparr>"
  by (simp add: clist_bounds_def clist_half_width_def clist_xscale_def shifted_bounds)

lemma shifted_sources:
  "filter (\<lambda>j. returns box_filter (clist_arg 2 2 1 (3 / 2) j) \<noteq> Inr 0) [1..2] = [2]"
  by (simp add: upto_1_2 returns_def box_filter_def clist_arg_def clist_xscale_def)

section \<open>The value of the vertical pass\<close>

lemma takeWhile_update_other:
  "j < length xs \<longrightarrow> xs ! j \<noteq> v \<Longrightarrow> w \<noteq> v \<Longrightarrow>
   length (takeWhile (\<lambda>t. t \<noteq> v) (xs[j := w])) = length (takeWhile (\<lambda>t. t \<noteq> v) xs)"
proof (induction xs arbitrary: j)
  case Nil
  then show ?case by simp
next
  case (Cons x xs)
  then show ?case by (cases j) auto
qed

lemma find_tag_update_other:
  assumes "j < length tags \<longrightarrow> tags ! j \<noteq> v" "w \<noteq> v"
  shows "find_tag (tags[j := w]) v = find_tag tags v"
proof -
  have t: "take MAX_SCAN_BUF_SIZE (tags[j := w]) = (take MAX_SCAN_BUF_SIZE tags)[j := w]"
    by (simp add: take_update_swap)
  have c: "j < length (take MAX_SCAN_BUF_SIZE tags) \<longrightarrow> take MAX_SCAN_BUF_SIZE tags ! j \<noteq> v"
    using assms(1) by simp
  show ?thesis
    unfolding find_tag_def t Let_def
    by (simp add: takeWhile_update_other[OF c assms(2)])
qed

lemma refs_mem:
  assumes "q \<in> set ps" "uint (pixel q) = y"
  shows "1 \<le> refs (ps # rows) y"
proof -
  have "q \<in> set (filter (\<lambda>p. uint (pixel p) = y) ps)"
    using assms by simp
  then have "1 \<le> int (length (filter (\<lambda>p. uint (pixel p) = y) ps))"
    by (cases "filter (\<lambda>p. uint (pixel p) = y) ps") auto
  then show ?thesis unfolding refs_def by simp
qed

lemma ry_step_slot_line:
  assumes st: "ry_step first p ts = Inr ts'" and li: "loop_inv (p # ps) d ts"
    and q: "q \<in> set ps"
  shows "slot_line (snd ts') (uint (pixel q)) = slot_line (snd ts) (uint (pixel q))"
proof -
  from li have co: "counts_ok (p # ps) d (snd ts)" by (simp add: loop_inv_def)
  from ry_step_common[OF st] obtain buf count where
    b: "m_Pscan_buf (snd ts) = Some buf" and c: "m_Psrc_y_count (snd ts) = Some count"
    and y: "unat (pixel p) < length count"
    by auto
  show ?thesis
  proof (cases "count ! unat (pixel p) = 1")
    case False
    from ry_step_more[OF st c False] show ?thesis by (simp add: slot_line_def)
  next
    case True
    from ry_step_last[OF st c True] b have
      b': "m_Pscan_buf (snd ts') = Some (buf \<lparr> scan_buf_y :=
                (scan_buf_y buf)[find_tag (scan_buf_y buf) (uint (pixel p)) := - 1] \<rparr>)"
      and jl: "find_tag (scan_buf_y buf) (uint (pixel p)) < length (scan_buf_y buf)"
      by auto
    from li b obtain flag where f: "m_Psrc_y_flag (snd ts) = Some flag"
      using flags_ok_flag by (auto simp: loop_inv_def)
    from li have po: "pool_ok (snd ts)" by (simp add: loop_inv_def)
    note P = pool_okD[OF po b f]
    from ry_step_common[OF st] b have jm: "find_tag (scan_buf_y buf) (uint (pixel p)) < MAX_SCAN_BUF_SIZE"
      by auto
    have tj: "scan_buf_y buf ! find_tag (scan_buf_y buf) (uint (pixel p)) = uint (pixel p)"
      using find_tag_found[OF jm P(1)] .
    have ne: "uint (pixel q) \<noteq> uint (pixel p)"
    proof
      assume e: "uint (pixel q) = uint (pixel p)"
      from co c y have "count ! unat (pixel p) = refs ((p # ps) # drop d (y_rows (snd ts))) (int (unat (pixel p)))"
        by (auto simp: counts_ok_def)
      also have "\<dots> = 1 + refs (ps # drop d (y_rows (snd ts))) (uint (pixel p))"
        by (simp add: refs_Cons_Cons)
      finally have "count ! unat (pixel p) \<ge> 2"
        using refs_mem[OF q e, of "drop d (y_rows (snd ts))"] by simp
      with True show False by simp
    qed
    have "find_tag ((scan_buf_y buf)[find_tag (scan_buf_y buf) (uint (pixel p)) := - 1]) (uint (pixel q))
          = find_tag (scan_buf_y buf) (uint (pixel q))"
    proof (rule find_tag_update_other)
      show "find_tag (scan_buf_y buf) (uint (pixel p)) < length (scan_buf_y buf) \<longrightarrow>
            scan_buf_y buf ! find_tag (scan_buf_y buf) (uint (pixel p)) \<noteq> uint (pixel q)"
        using tj ne by simp
      show "- 1 \<noteq> uint (pixel q)"
        using uint_nonnegative[of "pixel q"] by linarith
    qed
    then show ?thesis by (simp add: slot_line_def b b')
  qed
qed

lemma ry_step_value:
  assumes st: "ry_step first p ts = Inr ts'"
    and len: "length (fst ts) = nat (m_intermediate_x (snd ts))"
    and k: "k < nat (m_intermediate_x (snd ts))"
  shows "fst ts' ! k = (if first then 0 else fst ts ! k)
                        + slot_line (snd ts) (uint (pixel p)) ! k * weight p"
proof -
  from k have pos: "\<not> m_intermediate_x (snd ts) \<le> 0" by simp
  from ry_step_tmp[OF st] pos obtain buf src where
    b: "m_Pscan_buf (snd ts) = Some buf"
    and l: "scan_buf_l buf ! find_tag (scan_buf_y buf) (uint (pixel p)) = Some src"
    and sc: "(if first then scale_y_mov (fst ts) src (weight p) (m_intermediate_x (snd ts))
              else scale_y_add (fst ts) src (weight p) (m_intermediate_x (snd ts))) = Inr (fst ts')"
    by auto
  have sl: "slot_line (snd ts) (uint (pixel p)) = src" by (simp add: slot_line_def b l)
  show ?thesis
  proof (cases first)
    case True
    with sc pos have ls: "nat (m_intermediate_x (snd ts)) \<le> length src"
      and r: "fst ts' = map (\<lambda>v. v * weight p) (take (nat (m_intermediate_x (snd ts))) src)
                @ drop (nat (m_intermediate_x (snd ts))) (fst ts)"
      by (auto simp: scale_y_mov_def split: if_splits)
    from k ls show ?thesis unfolding r sl using True by (simp add: nth_append)
  next
    case False
    with sc pos have ls: "nat (m_intermediate_x (snd ts)) \<le> length src"
      and r: "fst ts' = map (\<lambda>(t, v). t + v * weight p)
                  (zip (take (nat (m_intermediate_x (snd ts))) (fst ts))
                       (take (nat (m_intermediate_x (snd ts))) src))
                @ drop (nat (m_intermediate_x (snd ts))) (fst ts)"
      by (auto simp: scale_y_add_def split: if_splits)
    from k ls len show ?thesis unfolding r sl using False by (simp add: nth_append)
  qed
qed

lemma ry_loop_value:
  assumes "ry_loop first ps ts = Inr ts'" "loop_inv ps d ts"
    "k < nat (m_intermediate_x (snd ts))"
  shows "fst ts' ! k = (if first \<and> ps \<noteq> [] then 0 else fst ts ! k)
           + sum_list (map (\<lambda>p. slot_line (snd ts) (uint (pixel p)) ! k * weight p) ps)"
  using assms
proof (induction ps arbitrary: first ts)
  case Nil
  then show ?case by simp
next
  case (Cons p ps)
  from Cons.prems(1) obtain t1 where
    st: "ry_step first p ts = Inr t1" and l: "ry_loop False ps t1 = Inr ts'"
    by (auto elim!: bnd_InrE)
  note ff = frame_fields[OF ry_step_frame[OF st]]
  from Cons.prems(2) have len: "length (fst ts) = nat (m_intermediate_x (snd ts))"
    by (simp add: loop_inv_def)
  have k1: "k < nat (m_intermediate_x (snd t1))" using Cons.prems(3) by (simp add: ff)
  from Cons.IH[OF l ry_step_inv[OF st Cons.prems(2)] k1] have
    "fst ts' ! k = fst t1 ! k
       + sum_list (map (\<lambda>q. slot_line (snd t1) (uint (pixel q)) ! k * weight q) ps)"
    by simp
  moreover have "map (\<lambda>q. slot_line (snd t1) (uint (pixel q)) ! k * weight q) ps
                = map (\<lambda>q. slot_line (snd ts) (uint (pixel q)) ! k * weight q) ps"
    by (rule map_cong[OF refl]) (simp add: ry_step_slot_line[OF st Cons.prems(2)])
  moreover note ry_step_value[OF st len Cons.prems(3)]
  ultimately show ?case by simp
qed

lemma dot_loop_value:
  "dot_loop src cl t = Inr v \<Longrightarrow>
   v = t + sum_list (map (\<lambda>p. src ! unat (pixel p) * weight p) cl)"
proof (induction cl arbitrary: t)
  case Nil
  then show ?case by simp
next
  case (Cons p ps)
  from Cons.prems have
    r: "dot_loop src ps (t + src ! nat (uint (pixel p)) * weight p) = Inr v"
    by (auto elim!: bnd_InrE simp: rd_Inr)
  from Cons.IH[OF r] show ?case by simp
qed

lemma resample_x_loop_value:
  assumes "resample_x_loop cl src is dst = Inr d"
  shows "length d = length dst \<and>
         (\<forall>k < length dst. d ! k =
            (if int k \<in> set is then sum_list (map (\<lambda>p. src ! unat (pixel p) * weight p) (cl ! k))
             else dst ! k))"
  using assms
proof (induction "is" arbitrary: dst)
  case Nil
  then show ?case by simp
next
  case (Cons i "is")
  from Cons.prems(1) obtain v where
    i: "0 \<le> i" "i < int (length cl)" "i < int (length dst)"
    and v: "dot_loop src (cl ! nat i) 0 = Inr v"
    and rest: "resample_x_loop cl src is (dst[nat i := v]) = Inr d"
    by (auto elim!: bnd_InrE simp: rd_Inr wr_Inr)
  from dot_loop_value[OF v] have vc: "v = sum_list (map (\<lambda>p. src ! unat (pixel p) * weight p) (cl ! nat i))"
    by simp
  from Cons.IH[OF rest] have
    l: "length d = length dst"
    and k: "\<forall>k < length dst. d ! k =
       (if int k \<in> set is then sum_list (map (\<lambda>p. src ! unat (pixel p) * weight p) (cl ! k))
        else dst[nat i := v] ! k)"
    by simp_all
  show ?case
  proof (intro conjI allI impI)
    show "length d = length dst" using l .
    fix k assume kl: "k < length dst"
    show "d ! k = (if int k \<in> set (i # is)
                   then sum_list (map (\<lambda>p. src ! unat (pixel p) * weight p) (cl ! k))
                   else dst ! k)"
    proof (cases "int k = i")
      case True
      then have "nat i = k" by simp
      with k kl vc True show ?thesis by auto
    next
      case False
      then have "nat i \<noteq> k" using i(1) by auto
      with k kl False show ?thesis by simp
    qed
  qed
qed

lemma resample_x_value:
  assumes "resample_x s (Some dst) (Some src) = Inr d"
    and "m_Pclist_x s = Some cl"
    and "length dst = nat (m_resample_dst_x s)"
  shows "d = spec_resample_x cl (m_resample_dst_x s) src"
proof (cases "m_resample_dst_x s \<le> 0")
  case True
  with assms(1,3) show ?thesis by (simp add: resample_x_def assert_ptr_def spec_resample_x_def)
next
  case False
  with assms(1,2) have
    l: "resample_x_loop cl src [0..m_resample_dst_x s - 1] dst = Inr d"
    by (simp add: resample_x_def assert_ptr_def deref_def)
  from resample_x_loop_value[OF l] assms(3) have
    "length d = nat (m_resample_dst_x s)"
    "\<forall>k < nat (m_resample_dst_x s).
       d ! k = sum_list (map (\<lambda>p. src ! unat (pixel p) * weight p) (cl ! k))"
    by auto
  then show ?thesis
    unfolding spec_resample_x_def by (intro nth_equalityI) simp_all
qed

lemma clamp_sample_cong:
  "m_lo s' = m_lo s \<Longrightarrow> m_hi s' = m_hi s \<Longrightarrow> clamp_sample s' = clamp_sample s"
  by (simp add: clamp_sample_def fun_eq_iff)

lemma resample_y_value:
  assumes inv: "engine_inv s" and ne: "m_cur_dst_y s \<noteq> m_resample_dst_y s"
    and cly: "m_Pclist_y s = Some cly" and clx: "m_Pclist_x s = Some clx"
    and pres: "present_loop s (cly ! nat (m_cur_dst_y s)) = Inr True"
    and ry: "resample_y s = Inr s'"
  shows "m_Pdst_buf s' = Some (spec_dst_row s)"
    and "length (spec_dst_row s) = nat (m_resample_dst_x s)"
proof -
  from ry cly obtain row tmp ts s2 where
    a: "rd cly (m_cur_dst_y s) = Inr row"
      "(if m_delay_x_resample s then m_Ptmp_buf s else m_Pdst_buf s) = Some tmp"
      "ry_loop True row (tmp, s) = Inr ts"
    and b: "(if m_delay_x_resample s then
            bnd (resample_x (snd ts) (m_Pdst_buf s) (Some (fst ts))) (\<lambda>dst.
              Inr ((snd ts) \<lparr> m_Ptmp_buf := Some (fst ts), m_Pdst_buf := Some dst \<rparr>))
          else Inr ((snd ts) \<lparr> m_Pdst_buf := Some (fst ts) \<rparr>)) = Inr s2"
    and c: "(if m_lo s2 < m_hi s2 then
         bnd (deref (m_Pdst_buf s2)) (\<lambda>dst.
         bnd (clamp s2 dst (m_resample_dst_x s2)) (\<lambda>dst'.
           Inr (s2 \<lparr> m_Pdst_buf := Some dst' \<rparr>)))
       else Inr s2) = Inr s'"
    unfolding resample_y_def
    by (auto elim!: bnd_InrE simp: access_simps)
  from a(1) have row: "row = cly ! nat (m_cur_dst_y s)" by (simp add: rd_Inr)
  note ff = frame_fields[OF ry_loop_frame[OF a(3)], simplified]
  from inv have st: "static_ok s" by (simp add: engine_inv_def)
  from pres row have pr: "present_loop s row = Inr True" by simp
  note li = loop_inv_start[OF inv ne cly a(1) pr a(2)]
  then have tl: "length tmp = nat (m_intermediate_x s)" by (simp add: loop_inv_def)
  have tl': "length (fst ts) = nat (m_intermediate_x s)"
    using ry_loop_tmp_length[OF a(3)] tl by simp
  have t: "fst ts = spec_tmp s row"
  proof (cases "row = []")
    case True
    with a(2,3) show ?thesis by (auto simp add: spec_tmp_def)
  next
    case False
    have h: "fst ts ! k = sum_list (map (\<lambda>p. slot_line s (uint (pixel p)) ! k * weight p) row)"
      if "k < nat (m_intermediate_x s)" for k
      using ry_loop_value[OF a(3) li] that False by simp
    have "fst ts = map (\<lambda>k. sum_list (map (\<lambda>p. slot_line s (uint (pixel p)) ! k * weight p) row))
                     [0..<nat (m_intermediate_x s)]"
      by (rule nth_equalityI) (simp_all add: tl' h)
    with False show ?thesis by (simp add: spec_tmp_def)
  qed
  from st obtain d0 where d0: "m_Pdst_buf s = Some d0" "length d0 = nat (m_resample_dst_x s)"
    by (auto simp: static_ok_def split: option.splits)
  define out where "out = (if m_delay_x_resample s
                      then spec_resample_x clx (m_resample_dst_x s) (spec_tmp s row)
                      else spec_tmp s row)"
  have s2: "m_Pdst_buf s2 = Some out \<and> m_lo s2 = m_lo s \<and> m_hi s2 = m_hi s \<and>
            m_resample_dst_x s2 = m_resample_dst_x s"
  proof (cases "m_delay_x_resample s")
    case True
    with b d0 obtain dst where
      rx: "resample_x (snd ts) (Some d0) (Some (fst ts)) = Inr dst"
      and e: "s2 = (snd ts) \<lparr> m_Ptmp_buf := Some (fst ts), m_Pdst_buf := Some dst \<rparr>"
      by (auto elim!: bnd_InrE)
    have "dst = spec_resample_x clx (m_resample_dst_x (snd ts)) (fst ts)"
      by (rule resample_x_value[OF rx]) (simp_all add: ff clx d0)
    with True e t show ?thesis by (simp add: out_def ff)
  next
    case False
    with b have "s2 = (snd ts) \<lparr> m_Pdst_buf := Some (fst ts) \<rparr>" by simp
    with False t show ?thesis by (simp add: out_def ff)
  qed
  have ol: "length out = nat (m_resample_dst_x s)"
  proof (cases "m_delay_x_resample s")
    case True
    then show ?thesis by (simp add: out_def spec_resample_x_def)
  next
    case False
    with st have "m_intermediate_x s = m_resample_dst_x s" by (simp add: static_ok_def)
    with False tl' t show ?thesis by (simp add: out_def)
  qed
  have sp: "spec_dst_row s = (if m_lo s < m_hi s then map (clamp_sample s) out else out)"
    by (simp add: spec_dst_row_def cly clx out_def row Let_def)
  show "m_Pdst_buf s' = Some (spec_dst_row s)"
  proof (cases "m_lo s < m_hi s")
    case True
    with c s2 obtain dst' where
      cl: "clamp s2 out (m_resample_dst_x s) = Inr dst'"
      and e: "s' = s2 \<lparr> m_Pdst_buf := Some dst' \<rparr>"
      by (auto elim!: bnd_InrE simp: deref_def)
    from cl ol have "dst' = map (clamp_sample s2) out"
      by (auto simp: clamp_def split: if_splits)
    with e True sp s2 show ?thesis
      by (simp add: clamp_sample_cong[of s2 s])
  next
    case False
    with c s2 sp show ?thesis by simp
  qed
  show "length (spec_dst_row s) = nat (m_resample_dst_x s)"
    using sp ol by simp
qed

section \<open>What holds whatever the status\<close>

lemma put_line_flag_length:
  assumes "put_line a Psrc s = Inr (b, s')"
  shows "map_option length (m_Psrc_y_flag s') = map_option length (m_Psrc_y_flag s)"
  using assms unfolding put_line_def Let_def
  by (auto split: if_splits elim!: bnd_InrE simp: access_simps)

lemma ry_step_flag_length:
  assumes "ry_step first p ts = Inr ts'"
  shows "map_option length (m_Psrc_y_flag (snd ts')) = map_option length (m_Psrc_y_flag (snd ts))"
  using assms unfolding ry_step_def Let_def
  by (auto split: if_splits elim!: bnd_InrE simp: access_simps)

lemma ry_loop_flag_length:
  "ry_loop first ps ts = Inr ts' \<Longrightarrow>
   map_option length (m_Psrc_y_flag (snd ts')) = map_option length (m_Psrc_y_flag (snd ts))"
proof (induction ps arbitrary: first ts)
  case Nil
  then show ?case by simp
next
  case (Cons p ps)
  from Cons.prems obtain t1 where s: "ry_step first p ts = Inr t1" and l: "ry_loop False ps t1 = Inr ts'"
    by (auto elim!: bnd_InrE)
  from Cons.IH[OF l] ry_step_flag_length[OF s] show ?case by simp
qed

lemma resample_y_flag_length:
  assumes "resample_y s = Inr s'"
  shows "map_option length (m_Psrc_y_flag s') = map_option length (m_Psrc_y_flag s)"
proof -
  from resample_y_post[OF assms] obtain row tmp ts dst where
    loop: "ry_loop True row (tmp, s) = Inr ts"
    and s': "s' = (snd ts) \<lparr> m_Ptmp_buf := (if m_delay_x_resample s then Some (fst ts) else m_Ptmp_buf s),
                      m_Pdst_buf := Some dst \<rparr>"
    by auto
  from ry_loop_flag_length[OF loop] show ?thesis unfolding s' by simp
qed

lemma lists_ok_cong:
  assumes "m_Pclist_y s' = m_Pclist_y s" "m_resample_dst_y s' = m_resample_dst_y s"
    "m_resample_src_y s' = m_resample_src_y s"
    "map_option length (m_Psrc_y_flag s') = map_option length (m_Psrc_y_flag s)"
    "m_cur_dst_y s' = m_cur_dst_y s"
  shows "lists_ok s' = lists_ok s"
proof -
  have y: "y_rows s' = y_rows s" by (simp add: y_rows_def assms(1,2) cong: option.case_cong)
  have f: "(case m_Psrc_y_flag s' of None \<Rightarrow> False
            | Some flag \<Rightarrow> length flag = nat (m_resample_src_y s))
         = (case m_Psrc_y_flag s of None \<Rightarrow> False
            | Some flag \<Rightarrow> length flag = nat (m_resample_src_y s))"
    using assms(4) by (cases "m_Psrc_y_flag s'"; cases "m_Psrc_y_flag s") auto
  show ?thesis unfolding lists_ok_def y assms(2,3,5) f ..
qed

lemma put_line_lists_ok:
  assumes "put_line a Psrc s = Inr (b, s')" "lists_ok s"
  shows "lists_ok s'"
  using lists_ok_cong[OF put_line_config(5,4,2)[OF assms(1)] put_line_flag_length[OF assms(1)]
      put_line_fields(3)[OF assms(1)]] assms(2)
  by simp

lemma get_line_lists_ok:
  assumes "get_line s = Inr (r, s')" "lists_ok s"
  shows "lists_ok s'"
proof -
  from get_line_cases[OF assms(1)] consider "s' = s"
    | s1 where "m_cur_dst_y s \<noteq> m_resample_dst_y s" "resample_y s = Inr s1"
        "s' = s1 \<lparr> m_cur_dst_y := m_cur_dst_y s1 + 1 \<rparr>"
    by blast
  then show ?thesis
  proof cases
    case 1
    with assms(2) show ?thesis by simp
  next
    case 2
    note c = resample_y_config[OF 2(2)]
    have l1: "lists_ok s1"
      using lists_ok_cong[OF c(5,4,2) resample_y_flag_length[OF 2(2)] c(12)] assms(2) by simp
    from assms(2) 2(1) have "m_cur_dst_y s + 1 \<le> m_resample_dst_y s" "0 \<le> m_cur_dst_y s"
      by (simp_all add: lists_ok_def)
    with l1 show ?thesis
      unfolding 2(3) lists_ok_def
      by (simp add: c y_rows_def cong: option.case_cong)
  qed
qed

lemma run_lists_ok:
  "run cs s = Inr (rs, s') \<Longrightarrow> lists_ok s \<Longrightarrow> lists_ok s'"
proof (induction cs arbitrary: s rs)
  case Nil
  then show ?case by simp
next
  case (Cons c cs)
  from Cons.prems(1) obtain r s1 rs1 where
    d: "do_call c s = Inr (r, s1)" and r: "run cs s1 = Inr (rs1, s')"
    by (auto elim!: bnd_InrE)
  have "lists_ok s1"
    using d Cons.prems(2) unfolding do_call_def
    by (cases c) (auto elim!: bnd_InrE dest: put_line_lists_ok get_line_lists_ok)
  from Cons.IH[OF r this] show ?case .
qed

lemma engine_inv_lists_ok: "engine_inv s \<Longrightarrow> lists_ok s"
  by (auto simp: engine_inv_def lists_ok_def static_ok_def flags_ok_def split: option.splits)

lemma lists_ok_row:
  assumes "lists_ok s" "m_cur_dst_y s \<noteq> m_resample_dst_y s"
  shows "\<exists>cly. m_Pclist_y s = Some cly \<and>
           rd cly (m_cur_dst_y s) = Inr (cly ! nat (m_cur_dst_y s)) \<and>
           (\<forall>p \<in> set (cly ! nat (m_cur_dst_y s)). uint (pixel p) < m_resample_src_y s)"
proof -
  from assms have a: "0 \<le> m_cur_dst_y s" "m_cur_dst_y s < m_resample_dst_y s"
    and len: "length (y_rows s) = nat (m_resample_dst_y s)"
    and px: "\<forall>row \<in> set (y_rows s). \<forall>p \<in> set row. uint (pixel p) < m_resample_src_y s"
    by (simp_all add: lists_ok_def)
  from a have dy: "0 < m_resample_dst_y s" by simp
  from len dy obtain cly where cly: "m_Pclist_y s = Some cly"
    by (cases "m_Pclist_y s") (auto simp: y_rows_def)
  from len cly have l2: "nat (m_resample_dst_y s) \<le> length cly"
    by (simp add: y_rows_def)
  have n: "nat (m_cur_dst_y s) < nat (m_resample_dst_y s)" using a by simp
  then have "m_cur_dst_y s < int (length cly)" using l2 by linarith
  then have r: "rd cly (m_cur_dst_y s) = Inr (cly ! nat (m_cur_dst_y s))"
    using a(1) by (simp add: rd_def)
  have "y_rows s ! nat (m_cur_dst_y s) = cly ! nat (m_cur_dst_y s)"
    using y_rows_nth[OF cly r a(2)] .
  moreover have "y_rows s ! nat (m_cur_dst_y s) \<in> set (y_rows s)"
    using n len by simp
  ultimately show ?thesis using cly r px by auto
qed

lemma get_line_pending:
  assumes "lists_ok s" "m_cur_dst_y s \<noteq> m_resample_dst_y s"
    and "m_Pclist_y s = Some cly" "m_Psrc_y_flag s = Some flag"
    and "\<exists>p \<in> set (cly ! nat (m_cur_dst_y s)). \<not> flag ! unat (pixel p)"
  shows "get_line s = Inr (None, s)"
proof -
  from lists_ok_row[OF assms(1,2)] assms(3) have
    r: "rd cly (m_cur_dst_y s) = Inr (cly ! nat (m_cur_dst_y s))"
    and px: "\<forall>p \<in> set (cly ! nat (m_cur_dst_y s)). uint (pixel p) < m_resample_src_y s"
    by auto
  from assms(1,4) have fl: "nat (m_resample_src_y s) \<le> length flag"
    by (auto simp: lists_ok_def)
  have "present_loop s (cly ! nat (m_cur_dst_y s)) = Inr False"
    using present_loop_value[OF assms(4) px fl] assms(5) by (auto simp: list_all_iff)
  then show ?thesis
    using assms(2,3) r by (simp add: get_line_def deref_def)
qed

lemma get_line_row:
  assumes "engine_inv s" "x_rows_ok s" "m_cur_dst_y s \<noteq> m_resample_dst_y s"
    and "m_Pclist_y s = Some cly" "m_Psrc_y_flag s = Some flag"
    and "\<forall>p \<in> set (cly ! nat (m_cur_dst_y s)). flag ! unat (pixel p)"
  shows "\<exists>s1. resample_y s = Inr s1 \<and> m_Pdst_buf s1 = Some (spec_dst_row s) \<and>
           length (spec_dst_row s) = nat (m_resample_dst_x s) \<and>
           get_line s = Inr (Some (spec_dst_row s), s1 \<lparr> m_cur_dst_y := m_cur_dst_y s + 1 \<rparr>)"
proof -
  from get_line_ready[OF assms] obtain row s1 where
    s1: "resample_y s = Inr s1" "m_Pdst_buf s1 = Some row"
    and g: "get_line s = Inr (Some row, s1 \<lparr> m_cur_dst_y := m_cur_dst_y s + 1 \<rparr>)"
    by blast
  from assms(2) obtain clx where clx: "m_Pclist_x s = Some clx"
    by (auto simp: x_rows_ok_def split: option.splits)
  from lists_ok_row[OF engine_inv_lists_ok[OF assms(1)] assms(3)] assms(4) have
    px: "\<forall>p \<in> set (cly ! nat (m_cur_dst_y s)). uint (pixel p) < m_resample_src_y s"
    by auto
  from assms(1,5) have fl: "nat (m_resample_src_y s) \<le> length flag"
    by (auto simp: engine_inv_def flags_ok_def split: option.splits)
  have pr: "present_loop s (cly ! nat (m_cur_dst_y s)) = Inr True"
    using present_loop_value[OF assms(5) px fl] assms(6) by (auto simp: list_all_iff)
  note V = resample_y_value[OF assms(1,3,4) clx pr s1(1)]
  from V s1 g show ?thesis by simp
qed

lemma Resampler_x_rows:
  assumes "Resampler e src_x src_y dst_x dst_y boundary_op sample_low sample_high Pfilter_name
             None Pclist_y fxs fys xo yo = Inr s"
    and "m_status s = STATUS_OKAY"
  shows "x_rows_ok s"
proof -
  from Resampler_reached[OF assms(1)] assms(2) obtain f clx cly s3 where
    d: "0 < src_x" "0 < dst_x"
    and mc: "make_clist (\<lambda>t. alloc_ok e (Site_clist_x t)) src_x dst_x boundary_op
                  (fst (snd f)) (snd (snd f)) fxs xo = Inr (Some clx)"
    and ct: "ctor_tables e s3 clx cly = Inr s"
    and f3: "m_resample_src_x s3 = src_x" "m_resample_dst_x s3 = dst_x" "m_Pclist_x s3 = Some clx"
    by auto
  note F = ctor_tables_fields(1,3,5)[OF ct, unfolded f3]
  have l: "length clx = nat dst_x" by (rule make_clist_length[OF mc])
  have "uint (pixel p) < src_x" if "row \<in> set clx" "p \<in> set row" for row p
  proof -
    from make_clist_row_ok[OF mc that(1)] that(2) obtain j where
      j: "pixel p = word_of_int (reflect j src_x boundary_op)"
      by (auto simp: row_ok_def)
    from d(1) have "1 \<le> src_x" by simp
    from pixel_of_reflect(2)[OF this j] show ?thesis .
  qed
  then show ?thesis
    unfolding x_rows_ok_def F using l by (auto dest: in_set_takeD)
qed

lemma run_x_rows:
  assumes "run cs s = Inr (rs, s')"
  shows "x_rows_ok s' = x_rows_ok s"
  using run_config[OF assms] by (simp add: x_rows_ok_def cong: option.case_cong)

section \<open>Evaluation of more example engines\<close>

lemma oom_pending_run:
  "run [Put_line True (Some [7]), Put_line False (Some [5]), Get_line] two_row_state =
     Inr ([Put_reply True, Put_reply False, Get_reply (Some [7])], oom_pending)"
  by (simp add: oom_pending_def oom_state_def two_row_state_def eval_defs eval_simps2)

lemma oom_pending_get: "get_line oom_pending = Inl Null_Deref"
  by (simp add: oom_pending_def oom_state_def two_row_state_def eval_defs eval_simps2)

lemma mean_engine_eval: "mean_engine = Inr mean_state"
  by (simp add: mean_engine_def mean_state_def ctor_defs eval_simps2 upto_0_0)

lemma mean_half_run:
  "run [Put_line True (Some [6])] mean_state = Inr ([Put_reply True], mean_half)"
  by (simp add: mean_half_def mean_state_def eval_defs eval_simps2)

lemma mean_ready_run:
  "run [Put_line True (Some [6]), Put_line True (Some [4])] mean_state =
     Inr ([Put_reply True, Put_reply True], mean_ready)"
  by (simp add: mean_ready_def mean_state_def eval_defs eval_simps2)

lemma mean_get: "get_line mean_ready = Inr (Some [8], mean_final)"
  by (simp add: mean_final_def mean_ready_def mean_state_def eval_defs eval_simps2 clamp_sample_def)

lemma mean_spec_row: "spec_dst_row mean_ready = [8]"
  by (simp add: spec_dst_row_def spec_tmp_def spec_resample_x_def slot_line_def clamp_sample_def
      mean_ready_def mean_state_def eval_simps2 Let_def)

lemma mean_x_rows: "x_rows_ok mean_ready"
  by (simp add: x_rows_ok_def mean_ready_def mean_state_def)

section \<open>Constant images\<close>

lemma const_pool_cong:
  assumes "m_Pscan_buf s' = m_Pscan_buf s" "m_intermediate_x s' = m_intermediate_x s"
  shows "const_pool c s' = const_pool c s"
  by (simp add: const_pool_def assms cong: option.case_cong)

lemma unit_lists_cong:
  assumes "m_Pclist_y s' = m_Pclist_y s" "m_Pclist_x s' = m_Pclist_x s"
    "m_resample_dst_y s' = m_resample_dst_y s" "m_resample_dst_x s' = m_resample_dst_x s"
  shows "unit_lists s' = unit_lists s"
  by (simp add: unit_lists_def y_rows_def assms cong: option.case_cong)

lemma slot_line_const:
  assumes po: "pool_ok s" and cp: "const_pool c s"
    and f: "m_Psrc_y_flag s = Some flag" "unat (pixel p) < length flag" "flag ! unat (pixel p)"
  shows "slot_line s (uint (pixel p)) = replicate (nat (m_intermediate_x s)) c"
proof -
  from pool_ok_buf[OF po] obtain buf where b: "m_Pscan_buf s = Some buf" by blast
  note P = pool_okD[OF po b f(1)]
  have u: "uint (pixel p) = int (unat (pixel p))" by simp
  have "int (unat (pixel p)) \<in> set (scan_buf_y buf)" using P(5)[OF f(2,3)] .
  then have m: "uint (pixel p) \<in> set (scan_buf_y buf)" by (simp only: u)
  from find_tag_mem[OF m P(1)] have j: "find_tag (scan_buf_y buf) (uint (pixel p)) < MAX_SCAN_BUF_SIZE" .
  from find_tag_found[OF j P(1)] have
    t: "scan_buf_y buf ! find_tag (scan_buf_y buf) (uint (pixel p)) = uint (pixel p)" .
  have "uint (pixel p) \<noteq> - 1" using uint_nonnegative[of "pixel p"] by linarith
  with t have "scan_buf_y buf ! find_tag (scan_buf_y buf) (uint (pixel p)) \<noteq> - 1" by simp
  with cp b j have "scan_buf_l buf ! find_tag (scan_buf_y buf) (uint (pixel p))
                    = Some (replicate (nat (m_intermediate_x s)) c)"
    by (simp add: const_pool_def)
  then show ?thesis by (simp add: slot_line_def b)
qed

lemma sum_list_const_weights:
  "sum_list (map (\<lambda>p. c * weight p) row) = c * sum_list (map weight row)"
  by (induction row) (simp_all add: algebra_simps)

lemma spec_dst_row_const:
  assumes inv: "engine_inv s" and xr: "x_rows_ok s" and ul: "unit_lists s" and cp: "const_pool c s"
    and ne: "m_cur_dst_y s \<noteq> m_resample_dst_y s"
    and cly: "m_Pclist_y s = Some cly" and f: "m_Psrc_y_flag s = Some flag"
    and pres: "\<forall>p \<in> set (cly ! nat (m_cur_dst_y s)). unat (pixel p) < length flag \<and> flag ! unat (pixel p)"
    and cl: "\<not> m_lo s < m_hi s \<or> (m_lo s \<le> c \<and> c \<le> m_hi s)"
  shows "spec_dst_row s = replicate (nat (m_resample_dst_x s)) c"
proof -
  let ?row = "cly ! nat (m_cur_dst_y s)"
  let ?n = "nat (m_intermediate_x s)"
  from inv have st: "static_ok s" and po: "pool_ok s"
    and d: "0 \<le> m_cur_dst_y s" "m_cur_dst_y s \<le> m_resample_dst_y s"
    by (simp_all add: engine_inv_def)
  from st have len: "length (y_rows s) = nat (m_resample_dst_y s)" by (simp add: static_ok_def)
  have n: "nat (m_cur_dst_y s) < nat (m_resample_dst_y s)" using d ne by simp
  have "y_rows s ! nat (m_cur_dst_y s) = ?row"
    using n by (simp add: y_rows_def cly)
  moreover have "y_rows s ! nat (m_cur_dst_y s) \<in> set (y_rows s)" using n len by simp
  ultimately have r: "?row \<noteq> []" "sum_list (map weight ?row) = 1"
    using ul by (auto simp: unit_lists_def)
  from xr obtain clx where clx: "m_Pclist_x s = Some clx"
    and xl: "nat (m_resample_dst_x s) \<le> length clx"
    and xp: "\<forall>row \<in> set (take (nat (m_resample_dst_x s)) clx).
               \<forall>p \<in> set row. uint (pixel p) < m_resample_src_x s"
    by (auto simp: x_rows_ok_def split: option.splits)
  from ul clx have xu: "\<forall>row \<in> set (take (nat (m_resample_dst_x s)) clx). sum_list (map weight row) = 1"
    by (simp add: unit_lists_def)
  have t: "spec_tmp s ?row = replicate ?n c"
  proof -
    have "sum_list (map (\<lambda>p. slot_line s (uint (pixel p)) ! k * weight p) ?row) = c"
      if "k < ?n" for k
    proof -
      have e: "map (\<lambda>p. slot_line s (uint (pixel p)) ! k * weight p) ?row
            = map (\<lambda>p. c * weight p) ?row"
      proof (rule map_cong[OF refl])
        fix p assume "p \<in> set ?row"
        with pres have "unat (pixel p) < length flag" "flag ! unat (pixel p)" by auto
        from slot_line_const[OF po cp f this] that
        show "slot_line s (uint (pixel p)) ! k * weight p = c * weight p" by simp
      qed
      show ?thesis unfolding e sum_list_const_weights r(2) by simp
    qed
    then have "map (\<lambda>k. sum_list (map (\<lambda>p. slot_line s (uint (pixel p)) ! k * weight p) ?row))
                 [0..<?n] = replicate ?n c"
      by (intro nth_equalityI) simp_all
    with r(1) show ?thesis by (simp add: spec_tmp_def)
  qed
  define out where "out = (if m_delay_x_resample s
                      then spec_resample_x clx (m_resample_dst_x s) (spec_tmp s ?row)
                      else spec_tmp s ?row)"
  have o: "out = replicate (nat (m_resample_dst_x s)) c"
  proof (cases "m_delay_x_resample s")
    case False
    with st have "m_intermediate_x s = m_resample_dst_x s" by (simp add: static_ok_def)
    with False t show ?thesis by (simp add: out_def)
  next
    case True
    with st have ix: "m_intermediate_x s = m_resample_src_x s" by (simp add: static_ok_def)
    have "sum_list (map (\<lambda>p. replicate ?n c ! unat (pixel p) * weight p) (clx ! i)) = c"
      if "i < nat (m_resample_dst_x s)" for i
    proof -
      from that xl have mem: "clx ! i \<in> set (take (nat (m_resample_dst_x s)) clx)"
        by (metis length_take min.absorb2 nth_mem nth_take)
      have e: "map (\<lambda>p. replicate ?n c ! unat (pixel p) * weight p) (clx ! i)
            = map (\<lambda>p. c * weight p) (clx ! i)"
      proof (rule map_cong[OF refl])
        fix p assume "p \<in> set (clx ! i)"
        with xp mem have "uint (pixel p) < m_resample_src_x s" by blast
        moreover have "0 < m_resample_src_x s" using st by (simp add: static_ok_def)
        ultimately have "uint (pixel p) < int (nat (m_resample_src_x s))" by simp
        then have "unat (pixel p) < ?n" unfolding ix by (simp only: uint_less_int)
        then show "replicate ?n c ! unat (pixel p) * weight p = c * weight p" by simp
      qed
      from xu mem have "sum_list (map weight (clx ! i)) = 1" by blast
      then show ?thesis unfolding e sum_list_const_weights by simp
    qed
    then have "spec_resample_x clx (m_resample_dst_x s) (replicate ?n c)
               = replicate (nat (m_resample_dst_x s)) c"
      unfolding spec_resample_x_def by (intro nth_equalityI) simp_all
    with True t show ?thesis by (simp add: out_def)
  qed
  have "spec_dst_row s = (if m_lo s < m_hi s then map (clamp_sample s) out else out)"
    by (simp add: spec_dst_row_def cly clx out_def Let_def)
  also have "\<dots> = replicate (nat (m_resample_dst_x s)) c"
    using cl by (auto simp: o clamp_sample_def)
  finally show ?thesis .
qed

lemma resample_x_cong:
  "m_Pclist_x s1 = m_Pclist_x s \<Longrightarrow> m_resample_dst_x s1 = m_resample_dst_x s \<Longrightarrow>
   resample_x s1 d p = resample_x s d p"
  by (simp add: resample_x_def cong: if_cong)

lemma put_line_stored:
  assumes "put_line a Psrc s = Inr (True, s')" "m_Psrc_y_count s = Some count"
    "count ! nat (m_cur_src_y s) \<noteq> 0"
    "m_Pscan_buf s = Some buf"
  shows "\<exists>line'.
      (if m_delay_x_resample s
       then memcpy (case scan_buf_l buf ! find_tag (scan_buf_y buf) (- 1) of
                      None \<Rightarrow> fresh_buf (m_intermediate_x s) | Some l \<Rightarrow> l)
              Psrc (m_intermediate_x s)
       else resample_x s
              (Some (case scan_buf_l buf ! find_tag (scan_buf_y buf) (- 1) of
                       None \<Rightarrow> fresh_buf (m_intermediate_x s) | Some l \<Rightarrow> l)) Psrc) = Inr line' \<and>
      (if m_delay_x_resample s then m_intermediate_x s = m_resample_src_x s
       else m_intermediate_x s = m_resample_dst_x s) \<and>
      m_Pscan_buf s' = Some (buf \<lparr>
          scan_buf_y := (scan_buf_y buf)[find_tag (scan_buf_y buf) (- 1) := m_cur_src_y s],
          scan_buf_l := (scan_buf_l buf)[find_tag (scan_buf_y buf) (- 1) := Some line'] \<rparr>)"
proof -
  let ?i = "find_tag (scan_buf_y buf) (- 1)"
  from put_line_True[OF assms(1)] assms(2) have
    c: "0 \<le> m_cur_src_y s" "m_cur_src_y s < m_resample_src_y s"
       "m_cur_src_y s < int (length count)" by auto
  from put_line_live_ptrs[OF assms(1,2,3)] assms(4) obtain flag where
    f: "m_Psrc_y_flag s = Some flag" by auto
  from put_line_live[OF assms(1,2,3,4) f] have
    L: "m_cur_src_y s < int (length flag)" "?i < MAX_SCAN_BUF_SIZE"
       "?i < length (scan_buf_y buf)" "?i < length (scan_buf_l buf)" by auto
  define line where "line = (case scan_buf_l buf ! ?i of
                      None \<Rightarrow> fresh_buf (m_intermediate_x s) | Some l \<Rightarrow> l)"
  have rx: "resample_x (s \<lparr> m_Psrc_y_flag := fl, m_Pscan_buf := sb \<rparr>) d p = resample_x s d p"
    for fl sb d p
    by (rule resample_x_cong) simp_all
  have g: "(m_cur_src_y s \<ge> m_resample_src_y s) = False"
    "resampler_range_check (m_cur_src_y s) (m_resample_src_y s) = Inr (m_cur_src_y s)"
    "deref (m_Psrc_y_count s) = Inr count"
    "rd count (m_cur_src_y s) = Inr (count ! nat (m_cur_src_y s))"
    "(count ! nat (m_cur_src_y s) = 0) = False"
    "deref (m_Pscan_buf s) = Inr buf"
    "(?i = MAX_SCAN_BUF_SIZE) = False"
    "deref (m_Psrc_y_flag s) = Inr flag"
    "wr flag (m_cur_src_y s) True = Inr (flag[nat (m_cur_src_y s) := True])"
    "wr (scan_buf_y buf) (int ?i) (m_cur_src_y s) = Inr ((scan_buf_y buf)[?i := m_cur_src_y s])"
    "rd (scan_buf_l buf) (int ?i) = Inr (scan_buf_l buf ! ?i)"
    "\<And>v. wr (scan_buf_l buf) (int ?i) v = Inr ((scan_buf_l buf)[?i := v])"
    using c assms(2,3,4) f L
    by (simp_all add: resampler_range_check_def resampler_assert_def deref_def rd_def wr_def)
  note u = assms(1)[unfolded put_line_def Let_def g bnd_Inr if_False]
  from u obtain line' where
    l: "(if m_delay_x_resample s then memcpy line Psrc (m_intermediate_x s)
       else resample_x s (Some line) Psrc) = Inr line' \<and>
      (if m_delay_x_resample s then m_intermediate_x s = m_resample_src_x s
       else m_intermediate_x s = m_resample_dst_x s)"
    and s': "m_Pscan_buf s' = Some (buf \<lparr>
          scan_buf_y := (scan_buf_y buf)[?i := m_cur_src_y s],
          scan_buf_l := (scan_buf_l buf)[?i := Some line'] \<rparr>)"
    unfolding line_def
    by (auto split: if_splits elim!: bnd_InrE simp: resampler_assert_Inr rx)
  then show ?thesis
    unfolding line_def by (intro exI[of _ line']) simp
qed

lemma put_line_const:
  assumes pl: "put_line a (Some (replicate n c)) s = Inr (b, s')"
    and inv: "engine_inv s" and cp: "const_pool c s" and ul: "unit_lists s"
    and ok: "m_status s' = STATUS_OKAY"
  shows "const_pool c s'"
proof (cases b)
  case False
  with pl have "put_line a (Some (replicate n c)) s = Inr (False, s')" by simp
  from put_line_False[OF this ok] cp show ?thesis by simp
next
  case True
  with pl have pt: "put_line a (Some (replicate n c)) s = Inr (True, s')" by simp
  note ix = put_line_fields(5)[OF pt]
  from put_line_True[OF pt] obtain count where
    c: "m_Psrc_y_count s = Some count" by blast
  show ?thesis
  proof (cases "count ! nat (m_cur_src_y s) = 0")
    case True
    from put_line_dead[OF pt c True] have "m_Pscan_buf s' = m_Pscan_buf s" by simp
    from const_pool_cong[OF this ix] cp show ?thesis by simp
  next
    case False
    from inv have po: "pool_ok s" and st: "static_ok s" by (simp_all add: engine_inv_def)
    from pool_ok_buf[OF po] obtain buf where b: "m_Pscan_buf s = Some buf" by blast
    from put_line_live_ptrs[OF pt c False] obtain flag where f: "m_Psrc_y_flag s = Some flag"
      by auto
    note P = pool_okD[OF po b f]
    let ?i = "find_tag (scan_buf_y buf) (- 1)"
    let ?line = "case scan_buf_l buf ! ?i of
                      None \<Rightarrow> fresh_buf (m_intermediate_x s) | Some l \<Rightarrow> l"
    from put_line_live[OF pt c False b f] have i: "?i < MAX_SCAN_BUF_SIZE" by simp
    from put_line_stored[OF pt c False b] obtain line' where
      e: "(if m_delay_x_resample s
           then memcpy ?line (Some (replicate n c)) (m_intermediate_x s)
           else resample_x s (Some ?line) (Some (replicate n c))) = Inr line'"
      and w: "(if m_delay_x_resample s then m_intermediate_x s = m_resample_src_x s
               else m_intermediate_x s = m_resample_dst_x s)"
      and b': "m_Pscan_buf s' = Some (buf \<lparr>
          scan_buf_y := (scan_buf_y buf)[?i := m_cur_src_y s],
          scan_buf_l := (scan_buf_l buf)[?i := Some line'] \<rparr>)"
      by blast
    have ll: "length ?line = nat (m_intermediate_x s)"
    proof (cases "scan_buf_l buf ! ?i")
      case None
      then show ?thesis by (simp add: fresh_buf_length)
    next
      case (Some l)
      have "scan_buf_l buf ! ?i \<in> set (scan_buf_l buf)" using i P(2) by simp
      with Some have "Some l \<in> set (scan_buf_l buf)" by simp
      from P(6)[OF this] Some show ?thesis by simp
    qed
    have pos: "0 \<le> m_intermediate_x s"
      using st by (auto simp: static_ok_def split: if_splits)
    have l': "line' = replicate (nat (m_intermediate_x s)) c"
    proof (cases "m_delay_x_resample s")
      case True
      with e have "memcpy ?line (Some (replicate n c)) (m_intermediate_x s) = Inr line'" by simp
      from memcpy_const[OF this ll pos] show ?thesis .
    next
      case False
      with e have rx: "resample_x s (Some ?line) (Some (replicate n c)) = Inr line'" by simp
      from False w have wx: "m_intermediate_x s = m_resample_dst_x s" by simp
      from ul obtain clx where clx: "m_Pclist_x s = Some clx"
        and xu: "\<forall>row \<in> set (take (nat (m_resample_dst_x s)) clx). sum_list (map weight row) = 1"
        by (auto simp: unit_lists_def split: option.splits)
      from resample_x_const[OF rx clx xu] ll wx show ?thesis by simp
    qed
    show ?thesis
      unfolding const_pool_def b' ix
    proof (simp, intro allI impI)
      fix j assume j: "j < MAX_SCAN_BUF_SIZE"
        and t: "(scan_buf_y buf)[?i := m_cur_src_y s] ! j \<noteq> - 1"
      show "(scan_buf_l buf)[?i := Some line'] ! j = Some (replicate (nat (m_intermediate_x s)) c)"
      proof (cases "j = ?i")
        case True
        with i P(2) l' show ?thesis by simp
      next
        case False
        with t have "scan_buf_y buf ! j \<noteq> - 1" by simp
        with cp b j False show ?thesis by (simp add: const_pool_def)
      qed
    qed
  qed
qed

lemma ry_step_const_pool:
  assumes "ry_step first p ts = Inr ts'" "const_pool c (snd ts)"
  shows "const_pool c (snd ts')"
proof -
  note ix = frame_fields(10)[OF ry_step_frame[OF assms(1)]]
  from ry_step_common[OF assms(1)] obtain buf count where
    b: "m_Pscan_buf (snd ts) = Some buf" and c: "m_Psrc_y_count (snd ts) = Some count"
    by auto
  show ?thesis
  proof (cases "count ! unat (pixel p) = 1")
    case False
    from ry_step_more[OF assms(1) c False] have "m_Pscan_buf (snd ts') = m_Pscan_buf (snd ts)"
      by simp
    from const_pool_cong[OF this ix] assms(2) show ?thesis by simp
  next
    case True
    from ry_step_last[OF assms(1) c True] b have
      b': "m_Pscan_buf (snd ts') = Some (buf \<lparr> scan_buf_y :=
                (scan_buf_y buf)[find_tag (scan_buf_y buf) (uint (pixel p)) := - 1] \<rparr>)"
      and jl: "find_tag (scan_buf_y buf) (uint (pixel p)) < length (scan_buf_y buf)"
      by auto
    show ?thesis
      unfolding const_pool_def b' ix
    proof (simp, intro allI impI)
      fix j assume j: "j < MAX_SCAN_BUF_SIZE"
        and t: "(scan_buf_y buf)[find_tag (scan_buf_y buf) (uint (pixel p)) := - 1] ! j \<noteq> - 1"
      from t jl have "scan_buf_y buf ! j \<noteq> - 1"
        by (cases "j = find_tag (scan_buf_y buf) (uint (pixel p))") simp_all
      with assms(2) b j show "scan_buf_l buf ! j = Some (replicate (nat (m_intermediate_x (snd ts))) c)"
        by (simp add: const_pool_def)
    qed
  qed
qed

lemma ry_loop_const_pool:
  "ry_loop first ps ts = Inr ts' \<Longrightarrow> const_pool c (snd ts) \<Longrightarrow> const_pool c (snd ts')"
proof (induction ps arbitrary: first ts)
  case Nil
  then show ?case by simp
next
  case (Cons p ps)
  from Cons.prems(1) obtain t1 where s: "ry_step first p ts = Inr t1" and l: "ry_loop False ps t1 = Inr ts'"
    by (auto elim!: bnd_InrE)
  from Cons.IH[OF l ry_step_const_pool[OF s Cons.prems(2)]] show ?case .
qed

lemma resample_y_const_pool:
  assumes "resample_y s = Inr s'" "const_pool c s"
  shows "const_pool c s'"
proof -
  from resample_y_post[OF assms(1)] obtain row tmp ts dst where
    loop: "ry_loop True row (tmp, s) = Inr ts"
    and s': "s' = (snd ts) \<lparr> m_Ptmp_buf := (if m_delay_x_resample s then Some (fst ts) else m_Ptmp_buf s),
                      m_Pdst_buf := Some dst \<rparr>"
    by auto
  have "const_pool c (snd ts)" using ry_loop_const_pool[OF loop] assms(2) by simp
  then show ?thesis unfolding s'
    using const_pool_cong[of "(snd ts) \<lparr> m_Ptmp_buf := (if m_delay_x_resample s then Some (fst ts) else m_Ptmp_buf s),
                      m_Pdst_buf := Some dst \<rparr>" "snd ts" c] by simp
qed

lemma get_line_const_pool:
  assumes "get_line s = Inr (r, s')" "const_pool c s"
  shows "const_pool c s'"
proof -
  from get_line_cases[OF assms(1)] consider "s' = s"
    | s1 where "resample_y s = Inr s1" "s' = s1 \<lparr> m_cur_dst_y := m_cur_dst_y s1 + 1 \<rparr>"
    by blast
  then show ?thesis
  proof cases
    case 1
    with assms(2) show ?thesis by simp
  next
    case 2
    from resample_y_const_pool[OF 2(1) assms(2)] show ?thesis
      unfolding 2(2)
      using const_pool_cong[of "s1 \<lparr> m_cur_dst_y := m_cur_dst_y s1 + 1 \<rparr>" s1 c] by simp
  qed
qed

lemma Resampler_pool:
  assumes "Resampler e src_x src_y dst_x dst_y boundary_op sample_low sample_high Pfilter_name
             Pclist_x Pclist_y fxs fys xo yo = Inr s"
    and "m_status s = STATUS_OKAY"
  shows "const_pool c s"
proof -
  from Resampler_reached[OF assms(1)] assms(2) obtain f clx cly s3 where
    d: "0 < src_x" "0 < src_y" "0 < dst_x" "0 < dst_y"
    and ct: "ctor_tables e s3 clx cly = Inr s"
    and f3: "m_resample_src_x s3 = src_x" "m_resample_src_y s3 = src_y"
     "m_resample_dst_x s3 = dst_x" "m_resample_dst_y s3 = dst_y"
     "m_Pscan_buf s3 = None" "m_status s3 = STATUS_OKAY"
    by blast
  have r: "m_Pscan_buf s \<noteq> None \<or> (m_status s3 = STATUS_OKAY \<and> m_status s = STATUS_OKAY)"
    using assms(2) f3(6) by simp
  from ctor_tables_reached[OF ct f3(5) r] d f3 obtain count where
    co: "ctor_order e
       (s3 \<lparr> m_Psrc_y_flag := Some (replicate (nat (m_resample_src_y s3)) False),
              m_Psrc_y_count := Some count,
              m_Pscan_buf := Some \<lparr> scan_buf_y = replicate MAX_SCAN_BUF_SIZE (- 1),
                                    scan_buf_l = replicate MAX_SCAN_BUF_SIZE None \<rparr>,
              m_cur_src_y := 0, m_cur_dst_y := 0 \<rparr>) clx cly = Inr s"
    by auto
  note O = ctor_order_result(1)[OF co, simplified, unfolded f3]
  have "m_Pscan_buf s = Some \<lparr> scan_buf_y = replicate MAX_SCAN_BUF_SIZE (- 1),
                                    scan_buf_l = replicate MAX_SCAN_BUF_SIZE None \<rparr>"
    by (subst O[OF d(1,3,4)]) simp
  then show ?thesis by (simp add: const_pool_def)
qed

lemma Resampler_unit_lists:
  assumes "Resampler e src_x src_y dst_x dst_y boundary_op sample_low sample_high Pfilter_name
             None None fxs fys xo yo = Inr s"
    and "m_status s = STATUS_OKAY"
  shows "unit_lists s"
proof -
  from Resampler_reached[OF assms(1)] assms(2) obtain f clx cly s3 where
    mx: "make_clist (\<lambda>t. alloc_ok e (Site_clist_x t)) src_x dst_x boundary_op
                  (fst (snd f)) (snd (snd f)) fxs xo = Inr (Some clx)"
    and my: "make_clist (\<lambda>t. alloc_ok e (Site_clist_y t)) src_y dst_y boundary_op
                  (fst (snd f)) (snd (snd f)) fys yo = Inr (Some cly)"
    and ct: "ctor_tables e s3 clx cly = Inr s"
    and f3: "m_resample_dst_x s3 = dst_x" "m_resample_dst_y s3 = dst_y"
      "m_Pclist_x s3 = Some clx" "m_Pclist_y s3 = Some cly"
    by auto
  note F = ctor_tables_fields(3,4,5,6)[OF ct, unfolded f3]
  have y: "row \<noteq> [] \<and> sum_list (map weight row) = 1" if "row \<in> set cly" for row
    using make_clist_row_ok[OF my that] by (simp add: row_ok_def)
  have x: "sum_list (map weight row) = 1" if "row \<in> set clx" for row
    using make_clist_row_ok[OF mx that] by (simp add: row_ok_def)
  show ?thesis
    unfolding unit_lists_def y_rows_def F
    using x y by (auto dest: in_set_takeD)
qed

lemma const_replies_Cons:
  "const_replies c n (r # rs) \<longleftrightarrow>
     (case r of Get_reply (Some row) \<Rightarrow> row = replicate (nat n) c | _ \<Rightarrow> True) \<and>
     const_replies c n rs"
  by (simp add: const_replies_def)

lemma get_line_const:
  assumes g: "get_line s = Inr (r, s')"
    and inv: "engine_inv s" and xr: "x_rows_ok s" and ul: "unit_lists s" and cp: "const_pool c s"
    and cl: "\<not> m_lo s < m_hi s \<or> (m_lo s \<le> c \<and> c \<le> m_hi s)"
  shows "r = None \<or> r = Some (replicate (nat (m_resample_dst_x s)) c)"
proof -
  from get_line_cases[OF g] consider "r = None"
    | cly row s1 where "m_cur_dst_y s \<noteq> m_resample_dst_y s" "m_Pclist_y s = Some cly"
        "rd cly (m_cur_dst_y s) = Inr row" "present_loop s row = Inr True"
        "resample_y s = Inr s1" "r = m_Pdst_buf s1"
    by blast
  then show ?thesis
  proof cases
    case 1
    then show ?thesis by simp
  next
    case 2
    from 2(3) have row: "row = cly ! nat (m_cur_dst_y s)" by (simp add: rd_Inr)
    from xr obtain clx where clx: "m_Pclist_x s = Some clx"
      by (auto simp: x_rows_ok_def split: option.splits)
    from inv obtain flag where f: "m_Psrc_y_flag s = Some flag"
      using flags_ok_flag by (auto simp: engine_inv_def)
    note pr = present_loop_True[OF 2(4) f, unfolded row]
    from 2(4) have p2: "present_loop s (cly ! nat (m_cur_dst_y s)) = Inr True" by (simp add: row)
    from resample_y_value(1)[OF inv 2(1,2) clx p2 2(5)]
      spec_dst_row_const[OF inv xr ul cp 2(1,2) f pr cl] 2(6)
    show ?thesis by simp
  qed
qed

lemma run_const:
  assumes "run cs s = Inr (rs, s')" "m_status s' = STATUS_OKAY"
    and "engine_inv s" "x_rows_ok s" "unit_lists s" "const_pool c s"
    and "const_calls c n cs"
    and "\<not> m_lo s < m_hi s \<or> (m_lo s \<le> c \<and> c \<le> m_hi s)"
  shows "const_replies c (m_resample_dst_x s) rs"
  using assms
proof (induction cs arbitrary: s rs)
  case Nil
  then show ?case by (simp add: const_replies_def)
next
  case (Cons k cs)
  from Cons.prems(1) obtain r s1 rs1 where
    d: "do_call k s = Inr (r, s1)" and ru: "run cs s1 = Inr (rs1, s')" and rs: "rs = r # rs1"
    by (auto elim!: bnd_InrE)
  have ok1: "m_status s1 = STATUS_OKAY"
    using run_status[OF ru] Cons.prems(2) by blast
  note cf = do_call_config[OF d]
  have inv1: "engine_inv s1" by (rule do_call_inv[OF d Cons.prems(3) ok1])
  have xr1: "x_rows_ok s1"
    using Cons.prems(4) by (simp add: x_rows_ok_def cf cong: option.case_cong)
  have ul1: "unit_lists s1"
    using unit_lists_cong[OF cf(5,6,4,3)] Cons.prems(5) by simp
  from Cons.prems(7) have ck: "const_calls c n cs"
    and k: "case k of Put_line a Psrc \<Rightarrow> Psrc = Some (replicate (nat n) c) | Get_line \<Rightarrow> True"
    by (simp_all add: const_calls_def)
  have step: "const_pool c s1 \<and>
      (case r of Get_reply (Some row) \<Rightarrow> row = replicate (nat (m_resample_dst_x s)) c | _ \<Rightarrow> True)"
  proof (cases k)
    case (Put_line a Psrc)
    with k have P: "Psrc = Some (replicate (nat n) c)" by simp
    from d Put_line P obtain b where
      pl: "put_line a (Some (replicate (nat n) c)) s = Inr (b, s1)" and r: "r = Put_reply b"
      by (auto simp: do_call_def elim!: bnd_InrE)
    from put_line_const[OF pl Cons.prems(3,6,5) ok1] r show ?thesis by simp
  next
    case Get_line
    with d obtain v where g: "get_line s = Inr (v, s1)" and r: "r = Get_reply v"
      by (auto simp: do_call_def elim!: bnd_InrE)
    from get_line_const[OF g Cons.prems(3,4,5,6,8)] get_line_const_pool[OF g Cons.prems(6)] r
    show ?thesis by auto
  qed
  have "const_replies c (m_resample_dst_x s1) rs1"
    by (rule Cons.IH[OF ru Cons.prems(2) inv1 xr1 ul1 _ ck]) (use step Cons.prems(8) in \<open>simp_all add: cf\<close>)
  with step show ?case by (simp add: rs const_replies_Cons cf)
qed

lemma box_halving_one:
  "make_clist (\<lambda>_. True) 2 1 BOUNDARY_CLAMP (returns box_filter) (1 / 2) 1 0 =
     Inr (Some [[\<lparr> weight = 1 / 2, pixel = 0 \<rparr>, \<lparr> weight = 1 / 2, pixel = 1 \<rparr>]])"
  unfolding make_clist_def Let_def
  by (simp add: calloc_ok_def half_bounds upto_0_0 upto_m1_2
     make_row_def returns_def box_filter_def emit_init_def emit_entry_def reflect_def Let_def)

lemma box_engine_eval: "box_engine = Inr box_state"
  by (simp add: box_engine_def box_state_def ctor_defs BOX_FILTER_SUPPORT_def box_halving_one
      upto_0_0)

lemma box_run:
  "run box_calls box_state =
     Inr ([Put_reply True, Put_reply True, Get_reply (Some [3]), Get_reply None], box_final)"
  by (simp add: box_calls_def box_final_def box_state_def eval_defs eval_simps2 clamp_sample_def)

section \<open>The claims\<close>

text \<open>
  C9. When \<open>put_line\<close> is called with \<open>cur_src_y < src_y\<close> and a reference count of zero
  for the current source line, it returns success and advances \<open>cur_src_y\<close> by one; every
  other part of the state is unchanged. The result is the same for every line pointer, the
  null pointer among them, and whether or not an allocation would succeed: no pool slot is
  acquired, no flag is set and the line is not read.
\<close>

theorem put_line_dead_row:
  assumes "m_cur_src_y s < m_resample_src_y s"
    and "0 \<le> m_cur_src_y s"
    and "m_Psrc_y_count s = Some count"
    and "m_cur_src_y s < int (length count)"
    and "count ! nat (m_cur_src_y s) = 0"
  shows "put_line a Psrc s = Inr (True, s \<lparr> m_cur_src_y := m_cur_src_y s + 1 \<rparr>)"
  using assms
  by (simp add: put_line_def resampler_range_check_def resampler_assert_def deref_def rd_def)

theorem put_line_dead_row_witness:
  "dead_row_engine = Inr dead_row_state \<and>
   put_line False None dead_row_state = Inr (True, dead_row_state \<lparr> m_cur_src_y := 1 \<rparr>)"
  using put_line_dead_row [of dead_row_state "[0, 1]" False None] dead_row_engine_eval
  by (simp add: dead_row_state_def)

text \<open>
  C10. If the allocation of the slot's buffer fails inside \<open>put_line\<close>, the call returns
  failure and sets the status to \<open>STATUS_OUT_OF_MEMORY\<close>, and the state is not rolled back:
  the first free slot \<open>i\<close>, which had no buffer, keeps the tag \<open>cur_src_y\<close> and its null
  buffer pointer, the present flag of \<open>cur_src_y\<close> is set, and \<open>cur_src_y\<close> is not advanced.
\<close>

theorem put_line_alloc_failure:
  assumes "m_cur_src_y s < m_resample_src_y s"
    and "0 \<le> m_cur_src_y s"
    and "m_Psrc_y_count s = Some count"
    and "m_cur_src_y s < int (length count)"
    and "count ! nat (m_cur_src_y s) \<noteq> 0"
    and "m_Pscan_buf s = Some buf"
    and "find_tag (scan_buf_y buf) (- 1) = i"
    and "i < MAX_SCAN_BUF_SIZE"
    and "i < length (scan_buf_y buf)"
    and "i < length (scan_buf_l buf)"
    and "scan_buf_l buf ! i = None"
    and "m_Psrc_y_flag s = Some flag"
    and "m_cur_src_y s < int (length flag)"
  shows "put_line False Psrc s =
           Inr (False, s \<lparr> m_Psrc_y_flag := Some (flag[nat (m_cur_src_y s) := True]),
                           m_Pscan_buf := Some (buf \<lparr> scan_buf_y := (scan_buf_y buf)[i := m_cur_src_y s] \<rparr>),
                           m_status := STATUS_OUT_OF_MEMORY \<rparr>)"
  using assms
  by (simp add: put_line_def resampler_range_check_def resampler_assert_def deref_def rd_def
      wr_def Let_def)

theorem put_line_alloc_failure_witness:
  "put_line False (Some [5]) (dead_row_state \<lparr> m_cur_src_y := 1 \<rparr>) =
     Inr (False, dead_row_state
       \<lparr> m_cur_src_y := 1,
         m_Psrc_y_flag := Some [False, True],
         m_Pscan_buf := Some \<lparr> scan_buf_y = (replicate MAX_SCAN_BUF_SIZE (- 1))[0 := 1],
                                scan_buf_l = replicate MAX_SCAN_BUF_SIZE None \<rparr>,
         m_status := STATUS_OUT_OF_MEMORY \<rparr>)"
  using put_line_alloc_failure [of "dead_row_state \<lparr> m_cur_src_y := 1 \<rparr>" "[0, 1]"
      "\<lparr> scan_buf_y = replicate MAX_SCAN_BUF_SIZE (- 1),
         scan_buf_l = replicate MAX_SCAN_BUF_SIZE None \<rparr>" 0 "[False, False]" "Some [5]"]
    MAX_pos
  by (simp add: dead_row_state_def find_tag_free)

text \<open>
  C4, as stated, fails where the operation counts leave the range of \<^verbatim>\<open>int\<close>. In
  \<open>overflow_engine\<close> the X list has 65535 entries and there are 32769 source lines: the
  rule of the claim gives \<open>xy_ops = 65535 * 32769 + 1 > yx_ops = 1 + 65535\<close>, so
  \<open>delay_x_resample\<close> should be true, but the product \<open>x_ops * src_y = 2147516415\<close> is
  beyond the largest \<^verbatim>\<open>int\<close> and the constructor does not compute it.
\<close>

theorem axis_order_overflow:
  "overflow_engine = Inl Int_Overflow \<and>
   spec_ops [replicate 65535 \<lparr> weight = 0, pixel = 0 \<rparr>] 1 = 65535 \<and>
   spec_ops [[\<lparr> weight = 1, pixel = 0 \<rparr>]] 1 = 1 \<and>
   spec_delay 65535 1 1 32769 1 1 \<and>
   spec_xy_ops 65535 1 32769 1 = 2147516416 \<and> spec_yx_ops 65535 1 1 1 = 65536 \<and>
   \<not> in_int32 (65535 * 32769)"
  using overflow_engine_eval
  by (simp add: spec_ops_def spec_delay_def spec_xy_ops_def spec_yx_ops_def in_int32_def)

text \<open>
  C4, amended. Where the two operation counts, the products \<open>x_ops * src_y\<close>, \<open>4 * y_ops\<close>,
  \<open>4 * y_ops * dst_x\<close>, \<open>4 * y_ops * src_x\<close>, \<open>x_ops * dst_y\<close> and the two estimates are in the
  range of a 32-bit \<^verbatim>\<open>int\<close>, the choice of the axis order returns, sets
  \<open>delay_x_resample\<close> to true if and only if \<open>xy_ops > yx_ops\<close>, or \<open>xy_ops = yx_ops\<close> and
  \<open>src_x < dst_x\<close>, where \<open>xy_ops = x_ops * src_y + (4 * y_ops * dst_x) div 3\<close> and
  \<open>yx_ops = (4 * y_ops * src_x) div 3 + x_ops * dst_y\<close>, and sets \<open>intermediate_x\<close> to
  \<open>src_x\<close> when \<open>delay_x_resample\<close> is true, else to \<open>dst_x\<close>. A construction that got as
  far as that choice, which it has when the pool was allocated or the final status is
  \<open>STATUS_OKAY\<close>, had these values in range and has followed the rule with \<open>x_ops\<close> and
  \<open>y_ops\<close> the numbers of entries of its generated or supplied contributor lists.
\<close>

theorem axis_order:
  "(ops_in_range x_ops y_ops (m_resample_src_x s7) (m_resample_src_y s7)
      (m_resample_dst_x s7) (m_resample_dst_y s7) \<and>
    0 \<le> x_ops \<and> 0 \<le> y_ops \<and> 0 < m_resample_src_x s7 \<and> 0 < m_resample_dst_x s7 \<longrightarrow>
    choose_order s7 x_ops y_ops =
      Inr (s7 \<lparr> m_delay_x_resample :=
                   (spec_xy_ops x_ops y_ops (m_resample_src_y s7) (m_resample_dst_x s7)
                      > spec_yx_ops x_ops y_ops (m_resample_src_x s7) (m_resample_dst_y s7) \<or>
                    (spec_xy_ops x_ops y_ops (m_resample_src_y s7) (m_resample_dst_x s7)
                       = spec_yx_ops x_ops y_ops (m_resample_src_x s7) (m_resample_dst_y s7) \<and>
                     m_resample_src_x s7 < m_resample_dst_x s7)),
                 m_intermediate_x :=
                   (if spec_xy_ops x_ops y_ops (m_resample_src_y s7) (m_resample_dst_x s7)
                         > spec_yx_ops x_ops y_ops (m_resample_src_x s7) (m_resample_dst_y s7) \<or>
                       (spec_xy_ops x_ops y_ops (m_resample_src_y s7) (m_resample_dst_x s7)
                          = spec_yx_ops x_ops y_ops (m_resample_src_x s7) (m_resample_dst_y s7) \<and>
                        m_resample_src_x s7 < m_resample_dst_x s7)
                    then m_resample_src_x s7 else m_resample_dst_x s7) \<rparr>)) \<and>
   (Resampler e src_x src_y dst_x dst_y boundary_op sample_low sample_high Pfilter_name
      Pclist_x Pclist_y fxs fys xo yo = Inr s \<and>
    (m_Pscan_buf s \<noteq> None \<or> m_status s = STATUS_OKAY) \<longrightarrow>
    (\<exists>clx cly. m_Pclist_x s = Some clx \<and> m_Pclist_y s = Some cly \<and>
       ops_in_range (spec_ops clx dst_x) (spec_ops cly dst_y) src_x src_y dst_x dst_y \<and>
       (m_delay_x_resample s \<longleftrightarrow>
          spec_xy_ops (spec_ops clx dst_x) (spec_ops cly dst_y) src_y dst_x
            > spec_yx_ops (spec_ops clx dst_x) (spec_ops cly dst_y) src_x dst_y \<or>
          (spec_xy_ops (spec_ops clx dst_x) (spec_ops cly dst_y) src_y dst_x
            = spec_yx_ops (spec_ops clx dst_x) (spec_ops cly dst_y) src_x dst_y \<and>
           src_x < dst_x)) \<and>
       m_intermediate_x s = (if m_delay_x_resample s then src_x else dst_x)))"
proof (intro conjI impI)
  assume "ops_in_range x_ops y_ops (m_resample_src_x s7) (m_resample_src_y s7)
      (m_resample_dst_x s7) (m_resample_dst_y s7) \<and>
    0 \<le> x_ops \<and> 0 \<le> y_ops \<and> 0 < m_resample_src_x s7 \<and> 0 < m_resample_dst_x s7"
  then have "choose_order s7 x_ops y_ops =
           Inr (s7 \<lparr> m_delay_x_resample :=
                      spec_delay x_ops y_ops (m_resample_src_x s7) (m_resample_src_y s7)
                        (m_resample_dst_x s7) (m_resample_dst_y s7),
                    m_intermediate_x :=
                      (if spec_delay x_ops y_ops (m_resample_src_x s7) (m_resample_src_y s7)
                            (m_resample_dst_x s7) (m_resample_dst_y s7)
                       then m_resample_src_x s7 else m_resample_dst_x s7) \<rparr>)"
    using choose_order_total [of x_ops y_ops s7] by blast
  then show "choose_order s7 x_ops y_ops =
      Inr (s7 \<lparr> m_delay_x_resample :=
                   (spec_xy_ops x_ops y_ops (m_resample_src_y s7) (m_resample_dst_x s7)
                      > spec_yx_ops x_ops y_ops (m_resample_src_x s7) (m_resample_dst_y s7) \<or>
                    (spec_xy_ops x_ops y_ops (m_resample_src_y s7) (m_resample_dst_x s7)
                       = spec_yx_ops x_ops y_ops (m_resample_src_x s7) (m_resample_dst_y s7) \<and>
                     m_resample_src_x s7 < m_resample_dst_x s7)),
                 m_intermediate_x :=
                   (if spec_xy_ops x_ops y_ops (m_resample_src_y s7) (m_resample_dst_x s7)
                         > spec_yx_ops x_ops y_ops (m_resample_src_x s7) (m_resample_dst_y s7) \<or>
                       (spec_xy_ops x_ops y_ops (m_resample_src_y s7) (m_resample_dst_x s7)
                          = spec_yx_ops x_ops y_ops (m_resample_src_x s7) (m_resample_dst_y s7) \<and>
                        m_resample_src_x s7 < m_resample_dst_x s7)
                    then m_resample_src_x s7 else m_resample_dst_x s7) \<rparr>)"
    by (simp only: spec_delay_def)
next
  assume "Resampler e src_x src_y dst_x dst_y boundary_op sample_low sample_high Pfilter_name
      Pclist_x Pclist_y fxs fys xo yo = Inr s \<and>
    (m_Pscan_buf s \<noteq> None \<or> m_status s = STATUS_OKAY)"
  then have "\<exists>clx cly. m_Pclist_x s = Some clx \<and> m_Pclist_y s = Some cly \<and>
     ops_in_range (spec_ops clx dst_x) (spec_ops cly dst_y) src_x src_y dst_x dst_y \<and>
     m_delay_x_resample s =
       spec_delay (spec_ops clx dst_x) (spec_ops cly dst_y) src_x src_y dst_x dst_y \<and>
     m_intermediate_x s = (if m_delay_x_resample s then src_x else dst_x)"
    using Resampler_in_range by blast
  then show "\<exists>clx cly. m_Pclist_x s = Some clx \<and> m_Pclist_y s = Some cly \<and>
       ops_in_range (spec_ops clx dst_x) (spec_ops cly dst_y) src_x src_y dst_x dst_y \<and>
       (m_delay_x_resample s \<longleftrightarrow>
          spec_xy_ops (spec_ops clx dst_x) (spec_ops cly dst_y) src_y dst_x
            > spec_yx_ops (spec_ops clx dst_x) (spec_ops cly dst_y) src_x dst_y \<or>
          (spec_xy_ops (spec_ops clx dst_x) (spec_ops cly dst_y) src_y dst_x
            = spec_yx_ops (spec_ops clx dst_x) (spec_ops cly dst_y) src_x dst_y \<and>
           src_x < dst_x)) \<and>
       m_intermediate_x s = (if m_delay_x_resample s then src_x else dst_x)"
    unfolding spec_delay_def by blast
qed

theorem axis_order_witness:
  "ops_in_range 1 2 1 2 1 2 \<and>
   choose_order two_row_state 1 2 = Inr two_row_state \<and>
   spec_xy_ops 1 2 2 1 = 4 \<and> spec_yx_ops 1 2 1 2 = 4 \<and>
   \<not> m_delay_x_resample two_row_state \<and> m_intermediate_x two_row_state = 1 \<and>
   dead_row_engine = Inr dead_row_state \<and> m_status dead_row_state = STATUS_OKAY \<and>
   ops_in_range 1 1 1 2 1 1 \<and>
   m_delay_x_resample dead_row_state \<and>
   spec_xy_ops 1 1 2 1 = 3 \<and> spec_yx_ops 1 1 1 1 = 2 \<and>
   m_intermediate_x dead_row_state = 1"
proof -
  have r: "ops_in_range 1 2 1 2 1 2" "ops_in_range 1 1 1 2 1 1"
    by (simp_all add: ops_in_range_def in_int32_def spec_xy_ops_def spec_yx_ops_def)
  have v: "spec_xy_ops 1 2 2 1 = 4" "spec_yx_ops 1 2 1 2 = 4"
    "spec_xy_ops 1 1 2 1 = 3" "spec_yx_ops 1 1 1 1 = 2"
    by (simp_all add: spec_xy_ops_def spec_yx_ops_def)
  have a: "choose_order two_row_state 1 2 = Inr two_row_state"
    using axis_order [of 1 2 two_row_state] r(1)
    by (simp add: two_row_state_def v)
  have b: "m_delay_x_resample dead_row_state \<and> m_intermediate_x dead_row_state = 1"
    using axis_order [of _ _ _ demo_env 1 2 1 1 BOUNDARY_CLAMP 0 0 "Some ''box''"
        "Some [[\<lparr> weight = 1, pixel = 0 \<rparr>]]" "Some [[\<lparr> weight = 1, pixel = 1 \<rparr>]]" 1 1 0 0
        dead_row_state]
      dead_row_engine_eval [unfolded dead_row_engine_def]
    by (simp add: dead_row_state_def)
  show ?thesis
    using a b r v dead_row_engine_eval by (simp add: two_row_state_def dead_row_state_def)
qed

text \<open>
  C5. After a construction and any sequence of calls that ends with status \<open>STATUS_OKAY\<close>
  and with \<open>cur_dst_y = dst_y\<close>, which is when \<open>get_line\<close> reports the end of the stream,
  the reference count of every source line in \<open>[0, src_y)\<close> is zero and the tag of every
  slot of the pool is \<open>-1\<close>.
\<close>

theorem refcount_conservation:
  assumes "Resampler e src_x src_y dst_x dst_y boundary_op sample_low sample_high Pfilter_name
             Pclist_x Pclist_y fxs fys xo yo = Inr s0"
    and "run cs s0 = Inr (rs, s)"
    and "m_status s = STATUS_OKAY"
    and "m_cur_dst_y s = dst_y"
  shows "get_line s = Inr (None, s) \<and>
         m_Psrc_y_count s = Some (replicate (nat src_y) 0) \<and>
         map_option scan_buf_y (m_Pscan_buf s) = Some (replicate MAX_SCAN_BUF_SIZE (- 1))"
proof -
  have ok0: "m_status s0 = STATUS_OKAY"
    using run_status[OF assms(2)] assms(3) by blast
  note R = Resampler_inv[OF assms(1) ok0]
  have inv: "engine_inv s" by (rule run_inv[OF assms(2) R(1) assms(3)])
  have dims: "m_resample_src_y s = src_y" "m_resample_dst_y s = dst_y"
    using run_config[OF assms(2)] R by simp_all
  have e: "m_cur_dst_y s = m_resample_dst_y s" using assms(4) dims by simp
  from engine_inv_end[OF inv e] e show ?thesis
    by (simp add: dims get_line_def)
qed

theorem refcount_conservation_witness:
  "dead_row_engine = Inr dead_row_state \<and>
   run dead_row_calls dead_row_state =
     Inr ([Put_reply True, Put_reply True, Get_reply (Some [5]), Get_reply None], dead_row_final) \<and>
   m_status dead_row_final = STATUS_OKAY \<and> m_cur_dst_y dead_row_final = 1 \<and>
   get_line dead_row_final = Inr (None, dead_row_final) \<and>
   m_Psrc_y_count dead_row_final = Some [0, 0] \<and>
   map_option scan_buf_y (m_Pscan_buf dead_row_final) = Some (replicate MAX_SCAN_BUF_SIZE (- 1))"
proof -
  have a: "m_status dead_row_final = STATUS_OKAY" "m_cur_dst_y dead_row_final = 1"
    by (simp_all add: dead_row_final_def dead_row_state_def)
  from refcount_conservation [OF dead_row_engine_eval [unfolded dead_row_engine_def] dead_row_run a]
  show ?thesis
    by (simp add: a dead_row_engine_eval dead_row_run replicate_two)
qed

text \<open>
  C3, as stated, fails. \<open>put_line\<close> and \<open>get_line\<close> do not test the status. In the engine
  \<open>two_row_engine\<close>, line 0 is put and the allocation for line 1 fails, which sets the
  status to \<open>STATUS_OUT_OF_MEMORY\<close>; the calls that follow return destination line 0,
  accept line 1 and return destination line 1.
\<close>

theorem calls_succeed_after_failure:
  "two_row_engine = Inr two_row_state \<and>
   run [Put_line True (Some [7]), Put_line False (Some [5])] two_row_state =
     Inr ([Put_reply True, Put_reply False], oom_state) \<and>
   m_status oom_state = STATUS_OUT_OF_MEMORY \<and>
   run [Get_line, Put_line True (Some [5]), Get_line] oom_state =
     Inr ([Get_reply (Some [7]), Put_reply True, Get_reply (Some [5])], oom_final)"
  using two_row_engine_eval two_row_oom oom_run
  by (simp add: oom_calls_def) (simp add: oom_state_def)

text \<open>
  C3, amended. An error status is sticky as a value: from a state whose status is not
  \<open>STATUS_OKAY\<close>, no sequence of \<open>put_line\<close> and \<open>get_line\<close> calls leads to a state whose
  status is \<open>STATUS_OKAY\<close>, and \<open>restart\<close> leaves the resulting state as it is.
\<close>

theorem status_sticky:
  assumes "m_status s \<noteq> STATUS_OKAY" and "run cs s = Inr (rs, s')"
  shows "m_status s' \<noteq> STATUS_OKAY \<and> restart s' = Inr s'"
  using run_status [OF assms(2) assms(1)] by (simp add: restart_failed)

theorem status_sticky_witness:
  "m_status oom_state \<noteq> STATUS_OKAY \<and>
   run oom_calls oom_state =
     Inr ([Get_reply (Some [7]), Put_reply True, Get_reply (Some [5])], oom_final) \<and>
   m_status oom_final \<noteq> STATUS_OKAY \<and> restart oom_final = Inr oom_final"
proof -
  have a: "m_status oom_state \<noteq> STATUS_OKAY" by (simp add: oom_state_def)
  from status_sticky [OF a oom_run] a oom_run show ?thesis by simp
qed

text \<open>
  C8, as stated, fails after a failed allocation. In \<open>two_row_engine\<close>, line 0 is put, the
  allocation for line 1 fails and destination line 0 is pulled. Then \<open>cur_dst_y = 1\<close> is
  not \<open>dst_y = 2\<close> and the one contributor of \<open>clist_y[1]\<close>, source line 1, is flagged
  present, but its slot has no buffer: \<open>get_line\<close> reads through the null pointer and
  produces no line.
\<close>

theorem get_line_after_failure:
  "two_row_engine = Inr two_row_state \<and>
   run [Put_line True (Some [7]), Put_line False (Some [5]), Get_line] two_row_state =
     Inr ([Put_reply True, Put_reply False, Get_reply (Some [7])], oom_pending) \<and>
   m_cur_dst_y oom_pending = 1 \<and> m_resample_dst_y oom_pending = 2 \<and>
   m_Pclist_y oom_pending =
     Some [[\<lparr> weight = 1, pixel = 0 \<rparr>], [\<lparr> weight = 1, pixel = 1 \<rparr>]] \<and>
   m_Psrc_y_flag oom_pending = Some [False, True] \<and>
   get_line oom_pending = Inl Null_Deref"
  using two_row_engine_eval oom_pending_run oom_pending_get
  by (simp add: oom_pending_def oom_state_def two_row_state_def)

text \<open>
  C8, amended. \<open>get_line\<close> returns no row and leaves the state as it is whenever
  \<open>cur_dst_y = dst_y\<close>. In an engine whose construction succeeded, after any calls, with
  \<open>cur_dst_y \<noteq> dst_y\<close>: when some contributor of \<open>clist_y[cur_dst_y]\<close> refers to a source
  line that is not present, it returns no row and leaves the whole state as it is, the
  cursors, the reference counts, the present flags and the pool included; when every
  contributor is present, the status is still \<open>STATUS_OKAY\<close> (no allocation has failed) and
  the X lists are generated or index inside a source line, it returns destination line
  \<open>cur_dst_y\<close>, which is \<open>spec_dst_row\<close>: the sum over the contributors of
  \<open>clist_y[cur_dst_y]\<close> of the weighted lines of their slots, resampled in X when the X
  pass is delayed, and clamped when \<open>lo < hi\<close>; it is the destination buffer that
  \<open>resample_y\<close> has filled, of \<open>dst_x\<close> samples, and \<open>cur_dst_y\<close> is advanced by one.
\<close>

theorem get_line_outcomes:
  "(m_cur_dst_y s = m_resample_dst_y s \<longrightarrow> get_line s = Inr (None, s)) \<and>
   (Resampler e src_x src_y dst_x dst_y boundary_op sample_low sample_high Pfilter_name
      Pclist_x Pclist_y fxs fys xo yo = Inr s0 \<and>
    m_status s0 = STATUS_OKAY \<and> run cs s0 = Inr (rs, s) \<and>
    m_cur_dst_y s \<noteq> m_resample_dst_y s \<and>
    m_Pclist_y s = Some cly \<and> m_Psrc_y_flag s = Some flag \<longrightarrow>
      ((\<exists>p \<in> set (cly ! nat (m_cur_dst_y s)). \<not> flag ! unat (pixel p)) \<longrightarrow>
         get_line s = Inr (None, s)) \<and>
      ((\<forall>p \<in> set (cly ! nat (m_cur_dst_y s)). flag ! unat (pixel p)) \<and>
       m_status s = STATUS_OKAY \<and> (Pclist_x = None \<or> x_rows_ok s) \<longrightarrow>
         (\<exists>s1. resample_y s = Inr s1 \<and> m_Pdst_buf s1 = Some (spec_dst_row s) \<and>
            length (spec_dst_row s) = nat dst_x \<and>
            get_line s = Inr (Some (spec_dst_row s), s1 \<lparr> m_cur_dst_y := m_cur_dst_y s + 1 \<rparr>))))"
proof (intro conjI impI)
  assume "m_cur_dst_y s = m_resample_dst_y s"
  then show "get_line s = Inr (None, s)" by (simp add: get_line_def)
next
  assume a: "Resampler e src_x src_y dst_x dst_y boundary_op sample_low sample_high Pfilter_name
      Pclist_x Pclist_y fxs fys xo yo = Inr s0 \<and>
    m_status s0 = STATUS_OKAY \<and> run cs s0 = Inr (rs, s) \<and>
    m_cur_dst_y s \<noteq> m_resample_dst_y s \<and>
    m_Pclist_y s = Some cly \<and> m_Psrc_y_flag s = Some flag"
    and b: "\<exists>p \<in> set (cly ! nat (m_cur_dst_y s)). \<not> flag ! unat (pixel p)"
  from a have c: "Resampler e src_x src_y dst_x dst_y boundary_op sample_low sample_high
      Pfilter_name Pclist_x Pclist_y fxs fys xo yo = Inr s0" "m_status s0 = STATUS_OKAY"
    "run cs s0 = Inr (rs, s)" "m_cur_dst_y s \<noteq> m_resample_dst_y s"
    "m_Pclist_y s = Some cly" "m_Psrc_y_flag s = Some flag" by simp_all
  have "lists_ok s"
    by (rule run_lists_ok [OF c(3) engine_inv_lists_ok [OF Resampler_inv(1) [OF c(1,2)]]])
  from get_line_pending [OF this c(4,5,6) b] show "get_line s = Inr (None, s)" .
next
  assume a: "Resampler e src_x src_y dst_x dst_y boundary_op sample_low sample_high Pfilter_name
      Pclist_x Pclist_y fxs fys xo yo = Inr s0 \<and>
    m_status s0 = STATUS_OKAY \<and> run cs s0 = Inr (rs, s) \<and>
    m_cur_dst_y s \<noteq> m_resample_dst_y s \<and>
    m_Pclist_y s = Some cly \<and> m_Psrc_y_flag s = Some flag"
    and b: "(\<forall>p \<in> set (cly ! nat (m_cur_dst_y s)). flag ! unat (pixel p)) \<and>
       m_status s = STATUS_OKAY \<and> (Pclist_x = None \<or> x_rows_ok s)"
  from a have c: "Resampler e src_x src_y dst_x dst_y boundary_op sample_low sample_high
      Pfilter_name Pclist_x Pclist_y fxs fys xo yo = Inr s0" "m_status s0 = STATUS_OKAY"
    "run cs s0 = Inr (rs, s)" "m_cur_dst_y s \<noteq> m_resample_dst_y s"
    "m_Pclist_y s = Some cly" "m_Psrc_y_flag s = Some flag" by simp_all
  from b have d: "\<forall>p \<in> set (cly ! nat (m_cur_dst_y s)). flag ! unat (pixel p)"
    "m_status s = STATUS_OKAY" "Pclist_x = None \<or> x_rows_ok s" by simp_all
  note R = Resampler_inv [OF c(1,2)]
  have inv: "engine_inv s" by (rule run_inv [OF c(3) R(1) d(2)])
  have xr: "x_rows_ok s"
  proof (cases "Pclist_x = None")
    case True
    with c(1) have "x_rows_ok s0" using Resampler_x_rows c(2) by blast
    then show ?thesis by (simp add: run_x_rows [OF c(3)])
  next
    case False
    with d(3) show ?thesis by simp
  qed
  have dx: "m_resample_dst_x s = dst_x" using run_config [OF c(3)] R(4) by simp
  from get_line_row [OF inv xr c(4,5,6) d(1)]
  show "\<exists>s1. resample_y s = Inr s1 \<and> m_Pdst_buf s1 = Some (spec_dst_row s) \<and>
            length (spec_dst_row s) = nat dst_x \<and>
            get_line s = Inr (Some (spec_dst_row s), s1 \<lparr> m_cur_dst_y := m_cur_dst_y s + 1 \<rparr>)"
    by (simp add: dx)
qed

theorem get_line_outcomes_witness:
  "mean_engine = Inr mean_state \<and> m_status mean_state = STATUS_OKAY \<and>
   run [Put_line True (Some [6])] mean_state = Inr ([Put_reply True], mean_half) \<and>
   m_cur_dst_y mean_half \<noteq> m_resample_dst_y mean_half \<and>
   m_Psrc_y_flag mean_half = Some [True, False] \<and>
   get_line mean_half = Inr (None, mean_half) \<and>
   run [Put_line True (Some [6]), Put_line True (Some [4])] mean_state =
     Inr ([Put_reply True, Put_reply True], mean_ready) \<and>
   m_cur_dst_y mean_ready \<noteq> m_resample_dst_y mean_ready \<and>
   m_Psrc_y_flag mean_ready = Some [True, True] \<and>
   m_status mean_ready = STATUS_OKAY \<and> x_rows_ok mean_ready \<and>
   spec_dst_row mean_ready = [8] \<and>
   get_line mean_ready = Inr (Some [8], mean_final) \<and>
   m_cur_dst_y mean_final = m_cur_dst_y mean_ready + 1 \<and>
   m_cur_dst_y mean_final = m_resample_dst_y mean_final \<and>
   get_line mean_final = Inr (None, mean_final)"
proof -
  have f: "m_status mean_state = STATUS_OKAY"
    "m_cur_dst_y mean_half \<noteq> m_resample_dst_y mean_half"
    "m_Pclist_y mean_half = Some [[\<lparr> weight = 1 / 2, pixel = 0 \<rparr>, \<lparr> weight = 1 / 2, pixel = 1 \<rparr>]]"
    "m_Psrc_y_flag mean_half = Some [True, False]"
    "\<exists>p \<in> set ([[\<lparr> weight = 1 / 2, pixel = 0 \<rparr>, \<lparr> weight = 1 / 2, pixel = 1 \<rparr>]]
                  ! nat (m_cur_dst_y mean_half)). \<not> [True, False] ! unat (pixel p)"
    "m_cur_dst_y mean_ready \<noteq> m_resample_dst_y mean_ready"
    "m_Pclist_y mean_ready = Some [[\<lparr> weight = 1 / 2, pixel = 0 \<rparr>, \<lparr> weight = 1 / 2, pixel = 1 \<rparr>]]"
    "m_Psrc_y_flag mean_ready = Some [True, True]"
    "\<forall>p \<in> set ([[\<lparr> weight = 1 / 2, pixel = 0 \<rparr>, \<lparr> weight = 1 / 2, pixel = 1 \<rparr>]]
                  ! nat (m_cur_dst_y mean_ready)). [True, True] ! unat (pixel p)"
    "m_status mean_ready = STATUS_OKAY"
    "m_cur_dst_y mean_final = m_cur_dst_y mean_ready + 1"
    "m_cur_dst_y mean_final = m_resample_dst_y mean_final"
    by (simp_all add: mean_final_def mean_ready_def mean_half_def mean_state_def)
  note E = mean_engine_eval [unfolded mean_engine_def]
  have a: "get_line mean_final = Inr (None, mean_final)"
    using get_line_outcomes [of mean_final] f(12) by blast
  have b: "get_line mean_half = Inr (None, mean_half)"
    using get_line_outcomes [of mean_half demo_env 1 2 1 1 BOUNDARY_CLAMP 0 8 "Some ''box''"
        "Some [[\<lparr> weight = 2, pixel = 0 \<rparr>]]"
        "Some [[\<lparr> weight = 1 / 2, pixel = 0 \<rparr>, \<lparr> weight = 1 / 2, pixel = 1 \<rparr>]]" 1 1 0 0
        mean_state "[Put_line True (Some [6])]" "[Put_reply True]"
        "[[\<lparr> weight = 1 / 2, pixel = 0 \<rparr>, \<lparr> weight = 1 / 2, pixel = 1 \<rparr>]]" "[True, False]"]
      E f(1,2,3,4,5) mean_half_run by blast
  have "\<exists>s1. resample_y mean_ready = Inr s1 \<and>
      get_line mean_ready =
        Inr (Some (spec_dst_row mean_ready), s1 \<lparr> m_cur_dst_y := m_cur_dst_y mean_ready + 1 \<rparr>)"
    using get_line_outcomes [of mean_ready demo_env 1 2 1 1 BOUNDARY_CLAMP 0 8 "Some ''box''"
        "Some [[\<lparr> weight = 2, pixel = 0 \<rparr>]]"
        "Some [[\<lparr> weight = 1 / 2, pixel = 0 \<rparr>, \<lparr> weight = 1 / 2, pixel = 1 \<rparr>]]" 1 1 0 0
        mean_state "[Put_line True (Some [6]), Put_line True (Some [4])]"
        "[Put_reply True, Put_reply True]"
        "[[\<lparr> weight = 1 / 2, pixel = 0 \<rparr>, \<lparr> weight = 1 / 2, pixel = 1 \<rparr>]]" "[True, True]"]
      E f(1) f(6,7,8,9,10) mean_ready_run mean_x_rows by blast
  then have c: "get_line mean_ready = Inr (Some [8], mean_final)"
    using mean_get by simp
  show ?thesis
    using a b c f mean_engine_eval mean_half_run mean_ready_run mean_x_rows mean_spec_row
    by simp
qed









end
